(* ===== verification/Prelude.thy ===== *)
theory Prelude
  imports Main "HOL-Library.Word"
begin

unbundle bit_operations_syntax

text \<open>
  Shared vocabulary of the development: the machine types of the C code, the ways a run
  of the tools can end without a result, and the generic lemmas on lists, words and
  numbers that the component theories use.

  Conventions. An \<open>unsigned\<close> that is used as a bit pattern is a 32-bit word; an
  \<open>unsigned\<close> or \<open>int\<close> that is used as an index or a count is a \<open>nat\<close> or an \<open>int\<close>,
  with the conversion of C written out (\<open>uns\<close>) where a negative value or a wrap-around
  can reach it.
\<close>

section \<open>Machine types\<close>

type_synonym u32 = "32 word"
type_synonym byte = "8 word"

text \<open>The conversion of an \<open>int\<close> to \<open>unsigned\<close>: reduction modulo \<open>2 ^ 32\<close>.\<close>

definition uns :: "int \<Rightarrow> nat" where
  "uns i = nat (i mod 2 ^ 32)"

lemma uns_less: "uns i < 2 ^ 32"
  by (simp add: uns_def nat_less_iff)

lemma uns_of_nat [simp]: "n < 2 ^ 32 \<Longrightarrow> uns (int n) = n"
  by (simp add: uns_def)

section \<open>Runs that end without a result\<close>

text \<open>
  \<open>Exit n\<close> is a call of \<open>exit(n)\<close> (the error routines of the tools end so), \<open>Null_deref\<close>
  a read or a write through a null pointer, \<open>Overflow\<close> a write past the end of a fixed
  array; these two are undefined behaviour in C, and the model makes them values, so that
  their absence is a theorem.  \<open>Ferr\<close> is a call of \<open>com_ferr\<close>, which prints a message and
  ends with \<open>exit(errno)\<close>; the value of \<open>errno\<close> is not part of the model.
\<close>

datatype abort = Exit int | Ferr | Null_deref | Overflow

type_synonym 'a res = "abort + 'a"

definition bind_res :: "'a res \<Rightarrow> ('a \<Rightarrow> 'b res) \<Rightarrow> 'b res" where
  "bind_res m f = (case m of Inl e \<Rightarrow> Inl e | Inr x \<Rightarrow> f x)"

lemma bind_res_simps [simp]:
  "bind_res (Inl e) f = Inl e"
  "bind_res (Inr x) f = f x"
  by (simp_all add: bind_res_def)

lemma bind_res_Inr_iff:
  "bind_res m f = Inr y \<longleftrightarrow> (\<exists>x. m = Inr x \<and> f x = Inr y)"
  by (cases m) auto

text \<open>A run that may not end, or that needs more calls than its bound allows, is \<open>None\<close>.\<close>

type_synonym 'a run = "'a res option"

definition bind_run :: "'a run \<Rightarrow> ('a \<Rightarrow> 'b run) \<Rightarrow> 'b run" where
  "bind_run m f = (case m of None \<Rightarrow> None | Some (Inl e) \<Rightarrow> Some (Inl e) | Some (Inr x) \<Rightarrow> f x)"

lemma bind_run_simps [simp]:
  "bind_run None f = None"
  "bind_run (Some (Inl e)) f = Some (Inl e)"
  "bind_run (Some (Inr x)) f = f x"
  by (simp_all add: bind_run_def)

lemma bind_run_Inr_iff:
  "bind_run m f = Some (Inr y) \<longleftrightarrow> (\<exists>x. m = Some (Inr x) \<and> f x = Some (Inr y))"
  by (simp add: bind_run_def split: option.split sum.split)

lemma bind_run_None_iff:
  "bind_run m f = None \<longleftrightarrow> m = None \<or> (\<exists>x. m = Some (Inr x) \<and> f x = None)"
  by (auto simp: bind_run_def split: option.split sum.split)

section \<open>Lists\<close>

lemma nth_list_update_if:
  "i < length xs \<Longrightarrow> xs[j := y] ! i = (if i = j then y else xs ! i)"
  by auto

lemma ex_in_set_nth: "x \<in> set xs \<longleftrightarrow> (\<exists>i<length xs. xs ! i = x)"
  by (auto simp: in_set_conv_nth)

lemma map_as_upt: "map f xs = map (\<lambda>i. f (xs ! i)) [0..<length xs]"
  by (rule nth_equalityI) simp_all

lemma list_all2_left: "list_all2 R xs ys \<Longrightarrow> x \<in> set xs \<Longrightarrow> \<exists>y\<in>set ys. R x y"
  by (induction rule: list_all2_induct) auto

lemma list_all2_right: "list_all2 R xs ys \<Longrightarrow> y \<in> set ys \<Longrightarrow> \<exists>x\<in>set xs. R x y"
  by (induction rule: list_all2_induct) auto

section \<open>Words\<close>

lemma word_eq_zero_iff_bits: "(w :: u32) = 0 \<longleftrightarrow> (\<forall>n<32. \<not> bit w n)"
  by (auto intro: bit_word_eqI)

lemma u32_eq_iff_bits: "(v :: u32) = w \<longleftrightarrow> (\<forall>n<32. bit v n \<longleftrightarrow> bit w n)"
  by (auto intro: bit_word_eqI)

text \<open>The mask \<open>1 << n\<close> of the bit macros.\<close>

definition bit_mask :: "nat \<Rightarrow> u32" where
  "bit_mask n = push_bit n 1"

lemma bit_bit_mask [simp]: "bit (bit_mask n) k \<longleftrightarrow> k = n \<and> n < 32"
  by (auto simp: bit_mask_def bit_push_bit_iff bit_1_iff simp del: push_bit_of_1)

lemma and_bit_mask_eq_0: "n < 32 \<Longrightarrow> (w AND bit_mask n = 0) \<longleftrightarrow> \<not> bit w n"
  by (auto simp: word_eq_zero_iff_bits bit_and_iff)

lemma sub_eq_0_iff_sint: "sint (v - w) = 0 \<longleftrightarrow> (v :: u32) = w"
  by (simp add: signed_eq_0_iff)

end
