(* ===== verification/BitSet.thy ===== *)
theory BitSet
  imports Prelude
begin

text \<open>
  Bit sets: \<open>src/compiler/lib/set.c\<close> and the macros of \<open>src/include/set.h\<close>.

  A \<open>SET_S\<close> is an array of 32-bit words; \<open>map\<close> points either at the array \<open>defmap\<close> inside
  the struct or at a heap block, which \<open>hmap\<close> says.  The abstraction is \<open>members\<close>, the
  positions of the bits that are on, under the invariant \<open>set_wf\<close>; the lemmas give the
  effect of every operation on \<open>members\<close>.  The locales at the end state the interface
  the lexer and parser generators use.
\<close>

section \<open>The structure and its constants\<close>

definition DEFWORDS :: nat where "DEFWORDS = 16"

definition DEFBITS :: nat where "DEFBITS = DEFWORDS * 32"

definition DIV_WSIZE :: "nat \<Rightarrow> nat" where "DIV_WSIZE b = b div 32"

definition MOD_WSIZE :: "nat \<Rightarrow> nat" where "MOD_WSIZE b = b mod 32"

definition ROUND :: "nat \<Rightarrow> nat" where
  "ROUND b = ((DIV_WSIZE b + 16) div 16) * 16"

record SET_S =
  nwords :: nat
  compl :: u32
  nbits :: nat
  hmap :: "u32 list option"
  defmap :: "u32 list"

text \<open>The array \<open>set->map\<close> points to, and a write of that array.\<close>

definition words :: "SET_S \<Rightarrow> u32 list" where
  "words s = (case hmap s of None \<Rightarrow> defmap s | Some m \<Rightarrow> m)"

definition put_words :: "SET_S \<Rightarrow> u32 list \<Rightarrow> SET_S" where
  "put_words s ws =
     (case hmap s of None \<Rightarrow> s\<lparr>defmap := ws\<rparr> | Some _ \<Rightarrow> s\<lparr>hmap := Some ws\<rparr>)"

section \<open>Creation, copying and growth\<close>

definition set_new :: SET_S where
  "set_new = \<lparr>nwords = DEFWORDS, compl = 0, nbits = DEFBITS,
              hmap = None, defmap = replicate DEFWORDS 0\<rparr>"

definition set_dup :: "SET_S \<Rightarrow> SET_S" where
  "set_dup s =
     (case hmap s of
        None \<Rightarrow> \<lparr>nwords = nwords s, compl = compl s, nbits = nbits s,
                 hmap = None, defmap = take DEFWORDS (defmap s)\<rparr>
      | Some m \<Rightarrow> \<lparr>nwords = nwords s, compl = compl s, nbits = nbits s,
                 hmap = Some (take (nwords s) m), defmap = replicate DEFWORDS 0\<rparr>)"

text \<open>\<open>nbits\<close> is an \<open>unsigned\<close>: its new value is taken modulo \<open>2 ^ 32\<close>.\<close>

definition enlarge :: "SET_S \<Rightarrow> nat \<Rightarrow> SET_S" where
  "enlarge s need =
     (if need \<le> nwords s then s
      else s\<lparr>hmap := Some (take (nwords s) (words s) @ replicate (need - nwords s) 0),
             nwords := need, nbits := (need * 32) mod 2 ^ 32\<rparr>)"

section \<open>Single bits\<close>

text \<open>\<open>_SET_GBIT\<close> with the three operators it is used with.\<close>

definition gbit_or :: "SET_S \<Rightarrow> nat \<Rightarrow> u32 \<times> SET_S" where
  "gbit_or s x =
     (let w = words s ! DIV_WSIZE x OR bit_mask (MOD_WSIZE x)
      in (w, put_words s ((words s)[DIV_WSIZE x := w])))"

definition gbit_andnot :: "SET_S \<Rightarrow> nat \<Rightarrow> u32 \<times> SET_S" where
  "gbit_andnot s x =
     (let w = words s ! DIV_WSIZE x AND NOT (bit_mask (MOD_WSIZE x))
      in (w, put_words s ((words s)[DIV_WSIZE x := w])))"

definition gbit_and :: "SET_S \<Rightarrow> nat \<Rightarrow> u32" where
  "gbit_and s x = words s ! DIV_WSIZE x AND bit_mask (MOD_WSIZE x)"

definition add_bit :: "SET_S \<Rightarrow> nat \<Rightarrow> u32 \<times> SET_S" where
  "add_bit s x = gbit_or (enlarge s (ROUND x)) x"

definition set_add :: "SET_S option \<Rightarrow> nat \<Rightarrow> u32 \<times> SET_S option" where
  "set_add p x =
     (case p of None \<Rightarrow> (0, None) | Some s \<Rightarrow> (let (w, s') = add_bit s x in (w, Some s')))"

text \<open>The macros; \<open>SET_ADD\<close> and \<open>SET_REMOVE\<close> are used for their effect only.\<close>

definition SET_ADD :: "SET_S \<Rightarrow> nat \<Rightarrow> SET_S" where
  "SET_ADD s x = snd (if nbits s \<le> x then add_bit s x else gbit_or s x)"

definition SET_REMOVE :: "SET_S \<Rightarrow> nat \<Rightarrow> SET_S" where
  "SET_REMOVE s x = (if nbits s \<le> x then s else snd (gbit_andnot s x))"

definition SET_MEMBER :: "SET_S \<Rightarrow> nat \<Rightarrow> bool" where
  "SET_MEMBER s x = (if nbits s \<le> x then False else gbit_and s x \<noteq> 0)"

definition SET_TEST :: "SET_S \<Rightarrow> nat \<Rightarrow> bool" where
  "SET_TEST s x = (if SET_MEMBER s x then compl s = 0 else compl s \<noteq> 0)"

definition SET_CLEAR :: "SET_S \<Rightarrow> SET_S" where
  "SET_CLEAR s = put_words s (replicate (nwords s) 0)"

definition SET_FILL :: "SET_S \<Rightarrow> SET_S" where
  "SET_FILL s = put_words s (replicate (nwords s) (- 1))"

definition SET_COMPLEMENT :: "SET_S \<Rightarrow> SET_S" where
  "SET_COMPLEMENT s = s\<lparr>compl := NOT (compl s)\<rparr>"

section \<open>Whole-set operations\<close>

text \<open>The table of bit counts in a byte, and the loop over the bytes of the map.\<close>

definition nbits_tab :: "nat list" where
  "nbits_tab =
    [0, 1, 1, 2, 1, 2, 2, 3, 1, 2, 2, 3, 2, 3, 3, 4,
     1, 2, 2, 3, 2, 3, 3, 4, 2, 3, 3, 4, 3, 4, 4, 5,
     1, 2, 2, 3, 2, 3, 3, 4, 2, 3, 3, 4, 3, 4, 4, 5,
     2, 3, 3, 4, 3, 4, 4, 5, 3, 4, 4, 5, 4, 5, 5, 6,
     1, 2, 2, 3, 2, 3, 3, 4, 2, 3, 3, 4, 3, 4, 4, 5,
     2, 3, 3, 4, 3, 4, 4, 5, 3, 4, 4, 5, 4, 5, 5, 6,
     2, 3, 3, 4, 3, 4, 4, 5, 3, 4, 4, 5, 4, 5, 5, 6,
     3, 4, 4, 5, 4, 5, 5, 6, 4, 5, 5, 6, 5, 6, 6, 7,
     1, 2, 2, 3, 2, 3, 3, 4, 2, 3, 3, 4, 3, 4, 4, 5,
     2, 3, 3, 4, 3, 4, 4, 5, 3, 4, 4, 5, 4, 5, 5, 6,
     2, 3, 3, 4, 3, 4, 4, 5, 3, 4, 4, 5, 4, 5, 5, 6,
     3, 4, 4, 5, 4, 5, 5, 6, 4, 5, 5, 6, 5, 6, 6, 7,
     2, 3, 3, 4, 3, 4, 4, 5, 3, 4, 4, 5, 4, 5, 5, 6,
     3, 4, 4, 5, 4, 5, 5, 6, 4, 5, 5, 6, 5, 6, 6, 7,
     3, 4, 4, 5, 4, 5, 5, 6, 4, 5, 5, 6, 5, 6, 6, 7,
     4, 5, 5, 6, 5, 6, 6, 7, 5, 6, 6, 7, 6, 7, 7, 8]"

text \<open>The four bytes of a word, least significant first.\<close>

definition bytes_of :: "u32 \<Rightarrow> nat list" where
  "bytes_of w =
     [unat (take_bit 8 w), unat (take_bit 8 (drop_bit 8 w)),
      unat (take_bit 8 (drop_bit 16 w)), unat (take_bit 8 (drop_bit 24 w))]"

fun count_bytes :: "nat list \<Rightarrow> nat \<Rightarrow> nat" where
  "count_bytes [] count = count"
| "count_bytes (b # bs) count = count_bytes bs ((count + nbits_tab ! b) mod 2 ^ 32)"

definition set_num_ele :: "SET_S option \<Rightarrow> nat" where
  "set_num_ele p =
     (case p of None \<Rightarrow> 0 | Some s \<Rightarrow> count_bytes (concat (map bytes_of (words s))) 0)"

definition SET_IS_EMPTY :: "SET_S \<Rightarrow> bool" where
  "SET_IS_EMPTY s \<longleftrightarrow> set_num_ele (Some s) = 0"

text \<open>\<open>set_test\<close> enlarges both sets to a common size before it compares them.\<close>

definition SET_EQUIV :: int where "SET_EQUIV = 0"

definition SET_DISJ :: int where "SET_DISJ = 1"

definition SET_INTER :: int where "SET_INTER = 2"

fun test_words :: "u32 list \<Rightarrow> u32 list \<Rightarrow> int \<Rightarrow> int" where
  "test_words (p # ps) (q # qs) rval =
     (if p \<noteq> q then (if p AND q \<noteq> 0 then SET_INTER else test_words ps qs SET_DISJ)
      else test_words ps qs rval)"
| "test_words _ _ rval = rval"

definition set_test :: "SET_S \<Rightarrow> SET_S \<Rightarrow> int \<times> SET_S \<times> SET_S" where
  "set_test set1 set2 =
     (let i = max (nwords set1) (nwords set2);
          s1 = enlarge set1 i; s2 = enlarge set2 i
      in (test_words (words s1) (words s2) SET_EQUIV, s1, s2))"

definition SET_IS_DISJOINT :: "SET_S \<Rightarrow> SET_S \<Rightarrow> bool" where
  "SET_IS_DISJOINT s1 s2 \<longleftrightarrow> fst (set_test s1 s2) = SET_DISJ"

definition SET_IS_INTERSECT :: "SET_S \<Rightarrow> SET_S \<Rightarrow> bool" where
  "SET_IS_INTERSECT s1 s2 \<longleftrightarrow> fst (set_test s1 s2) = SET_INTER"

text \<open>The difference of two words is an \<open>unsigned\<close>, returned as an \<open>int\<close>.\<close>

fun cmp_tail :: "u32 list \<Rightarrow> int \<Rightarrow> int" where
  "cmp_tail [] r = 0"
| "cmp_tail (w # ws) r = (if w \<noteq> 0 then r else cmp_tail ws r)"

fun cmp_words :: "u32 list \<Rightarrow> u32 list \<Rightarrow> int" where
  "cmp_words (p # ps) (q # qs) = (if p \<noteq> q then sint (p - q) else cmp_words ps qs)"
| "cmp_words ps [] = cmp_tail ps 1"
| "cmp_words [] qs = cmp_tail qs (- 1)"

definition set_compare :: "SET_S option \<Rightarrow> SET_S option \<Rightarrow> int" where
  "set_compare set1 set2 =
     (case (set1, set2) of
        (None, None) \<Rightarrow> 0
      | (Some _, None) \<Rightarrow> 1
      | (None, Some _) \<Rightarrow> - 1
      | (Some s1, Some s2) \<Rightarrow> cmp_words (words s1) (words s2))"

definition SET_IS_EQUIV :: "SET_S \<Rightarrow> SET_S \<Rightarrow> bool" where
  "SET_IS_EQUIV s1 s2 \<longleftrightarrow> set_compare (Some s1) (Some s2) = 0"

fun sum_words :: "u32 list \<Rightarrow> u32 \<Rightarrow> u32" where
  "sum_words [] acc = acc"
| "sum_words (w # ws) acc = sum_words ws (acc + w)"

definition set_hash :: "SET_S option \<Rightarrow> u32" where
  "set_hash p = (case p of None \<Rightarrow> 0 | Some s \<Rightarrow> sum_words (words s) 0)"

fun subset_words :: "u32 list \<Rightarrow> u32 list \<Rightarrow> bool" where
  "subset_words (c # cs) (w # ws) = (if c AND w \<noteq> c then False else subset_words cs ws)"
| "subset_words (c # cs) [] = (if c \<noteq> 0 then False else subset_words cs [])"
| "subset_words [] _ = True"

definition set_subset :: "SET_S option \<Rightarrow> SET_S option \<Rightarrow> bool res" where
  "set_subset sp cmpset =
     (case (sp, cmpset) of
        (Some s, Some c) \<Rightarrow> Inr (subset_words (words c) (words s))
      | _ \<Rightarrow> Inl (Exit 1))"

text \<open>
  The loops of \<open>set_op\<close>: a word of the source is combined into the word of the
  destination at the same index; the surplus words of the destination are kept by
  \<open>zip_keep\<close> and cleared by \<open>zip_clear\<close>.
\<close>

fun zip_keep :: "(u32 \<Rightarrow> u32 \<Rightarrow> u32) \<Rightarrow> u32 list \<Rightarrow> u32 list \<Rightarrow> u32 list" where
  "zip_keep f (d # ds) (s # ss) = f d s # zip_keep f ds ss"
| "zip_keep f ds _ = ds"

fun zip_clear :: "(u32 \<Rightarrow> u32 \<Rightarrow> u32) \<Rightarrow> u32 list \<Rightarrow> u32 list \<Rightarrow> u32 list" where
  "zip_clear f (d # ds) (s # ss) = f d s # zip_clear f ds ss"
| "zip_clear f (d # ds) [] = 0 # zip_clear f ds []"
| "zip_clear f [] _ = []"

definition UNION_OP :: int where "UNION_OP = 0"

definition INTERSECT_OP :: int where "INTERSECT_OP = 1"

definition DIFFERENCE_OP :: int where "DIFFERENCE_OP = 2"

definition ASSIGN_OP :: int where "ASSIGN_OP = 4"

definition op_words :: "int \<Rightarrow> u32 list \<Rightarrow> u32 list \<Rightarrow> u32 list" where
  "op_words op ds ss =
     (if op = UNION_OP then zip_keep (OR) ds ss
      else if op = INTERSECT_OP then zip_clear (AND) ds ss
      else if op = DIFFERENCE_OP then zip_keep (XOR) ds ss
      else if op = ASSIGN_OP then zip_clear (\<lambda>d s. s) ds ss
      else ds)"

definition set_op_to :: "int \<Rightarrow> SET_S \<Rightarrow> SET_S \<Rightarrow> SET_S" where
  "set_op_to op dst src =
     (let d = (if nwords dst < nwords src then enlarge dst (nwords src) else dst)
      in put_words d (op_words op (words d) (words src)))"

definition set_op :: "int \<Rightarrow> SET_S option \<Rightarrow> SET_S option \<Rightarrow> SET_S res" where
  "set_op op dst src =
     (case (dst, src) of
        (Some d, Some s) \<Rightarrow> Inr (set_op_to op d s)
      | _ \<Rightarrow> Inl (Exit 1))"

definition SET_UNION :: "SET_S \<Rightarrow> SET_S \<Rightarrow> SET_S" where
  "SET_UNION d s = set_op_to UNION_OP d s"

definition SET_INTERSECT :: "SET_S \<Rightarrow> SET_S \<Rightarrow> SET_S" where
  "SET_INTERSECT d s = set_op_to INTERSECT_OP d s"

definition SET_DIFFERENCE :: "SET_S \<Rightarrow> SET_S \<Rightarrow> SET_S" where
  "SET_DIFFERENCE d s = set_op_to DIFFERENCE_OP d s"

definition SET_ASSIGN :: "SET_S \<Rightarrow> SET_S \<Rightarrow> SET_S" where
  "SET_ASSIGN d s = set_op_to ASSIGN_OP d s"

definition set_invert :: "SET_S option \<Rightarrow> SET_S option" where
  "set_invert p =
     (case p of None \<Rightarrow> None | Some s \<Rightarrow> Some (put_words s (map NOT (words s))))"

definition set_truncate :: "SET_S option \<Rightarrow> SET_S option" where
  "set_truncate p =
     (case p of
        None \<Rightarrow> None
      | Some s \<Rightarrow> Some (s\<lparr>hmap := None, nwords := DEFWORDS, nbits := DEFBITS,
                          defmap := replicate (length (defmap s)) 0\<rparr>))"

section \<open>Abstraction and invariant\<close>

text \<open>The positions of the bits that are on in an array of words.\<close>

definition wbits :: "u32 list \<Rightarrow> nat set" where
  "wbits ws = {x. x div 32 < length ws \<and> bit (ws ! (x div 32)) (x mod 32)}"

definition members :: "SET_S \<Rightarrow> nat set" where
  "members s = wbits (words s)"

definition set_wf :: "SET_S \<Rightarrow> bool" where
  "set_wf s \<longleftrightarrow> length (defmap s) = 16 \<and> length (words s) = nwords s \<and>
     nbits s = 32 * nwords s \<and> 16 \<le> nwords s \<and> nwords s \<le> 134217712"

text \<open>
  The bound on \<open>nwords\<close> is \<open>2 ^ 27 - 16\<close>, up to which \<open>nbits\<close> does not wrap around; the bit
  positions below keep a set that grows under it.
\<close>

definition legal_bit :: "nat \<Rightarrow> bool" where
  "legal_bit x \<longleftrightarrow> x < 2 ^ 32 - 512"

lemma words_put_words [simp]: "words (put_words s ws) = ws"
  by (simp add: words_def put_words_def split: option.splits)

lemma put_words_fields [simp]:
  "nwords (put_words s ws) = nwords s" "nbits (put_words s ws) = nbits s"
  "compl (put_words s ws) = compl s"
  by (simp_all add: put_words_def split: option.splits)

lemma length_defmap_put_words [simp]:
  "length ws = length (words s) \<Longrightarrow> length (defmap (put_words s ws)) = length (defmap s)"
  by (simp add: words_def put_words_def split: option.splits)

lemma set_wf_put_words:
  "set_wf s \<Longrightarrow> length ws = length (words s) \<Longrightarrow> set_wf (put_words s ws)"
  by (simp add: set_wf_def)

lemma set_wf_length: "set_wf s \<Longrightarrow> length (words s) = nwords s"
  by (simp add: set_wf_def)

lemma set_wf_nbits: "set_wf s \<Longrightarrow> nbits s = 32 * nwords s"
  by (simp add: set_wf_def)

subsection \<open>Bits of an array of words\<close>

lemma wbits_Nil [simp]: "wbits [] = {}"
  by (simp add: wbits_def)

lemma wbits_Cons_iff:
  "x \<in> wbits (w # ws) \<longleftrightarrow> (if x < 32 then bit w x else x - 32 \<in> wbits ws)"
proof (cases "x < 32")
  case True
  then show ?thesis by (simp add: wbits_def)
next
  case False
  then obtain y where "x = y + 32" by (metis add.commute le_Suc_ex not_less)
  moreover have "(y + 32) div 32 = Suc (y div 32)" by simp
  ultimately show ?thesis by (simp add: wbits_def del: div_add_self2)
qed

lemma wbits_bound: "x \<in> wbits ws \<Longrightarrow> x < 32 * length ws"
  by (auto simp: wbits_def)

lemma finite_wbits [simp]: "finite (wbits ws)"
  by (rule finite_subset [of _ "{..<32 * length ws}"]) (auto dest: wbits_bound)

lemma wbits_append_zeros [simp]: "wbits (ws @ replicate n 0) = wbits ws"
proof -
  have "x \<in> wbits (ws @ replicate n 0) \<longleftrightarrow> x \<in> wbits ws" for x
    by (cases "x div 32 < length ws"; cases "x div 32 < length ws + n")
      (simp_all add: wbits_def nth_append)
  then show ?thesis by blast
qed

lemma wbits_replicate_0 [simp]: "wbits (replicate n 0) = {}"
  by (simp add: wbits_def)

lemma wbits_or_bit:
  assumes "x div 32 < length ws"
  shows "wbits (ws[x div 32 := ws ! (x div 32) OR bit_mask (x mod 32)]) = insert x (wbits ws)"
proof -
  have "y = x" if "y div 32 = x div 32" "y mod 32 = x mod 32" for y
    using that by (metis div_mult_mod_eq)
  with assms show ?thesis
    by (auto simp: wbits_def nth_list_update_if bit_or_iff split: if_splits)
qed

lemma wbits_andnot_bit:
  assumes "x div 32 < length ws"
  shows "wbits (ws[x div 32 := ws ! (x div 32) AND NOT (bit_mask (x mod 32))]) = wbits ws - {x}"
proof -
  have "y = x" if "y div 32 = x div 32" "y mod 32 = x mod 32" for y
    using that by (metis div_mult_mod_eq)
  with assms show ?thesis
    by (auto simp: wbits_def nth_list_update_if bit_and_iff bit_not_iff split: if_splits)
qed

lemma wbits_eq_empty_iff: "wbits ws = {} \<longleftrightarrow> (\<forall>w\<in>set ws. w = 0)"
proof
  assume e: "wbits ws = {}"
  show "\<forall>w\<in>set ws. w = 0"
  proof
    fix w assume "w \<in> set ws"
    then obtain i where i: "i < length ws" "ws ! i = w" by (auto simp: in_set_conv_nth)
    have "\<not> bit w n" if "n < 32" for n
    proof
      assume "bit w n"
      with i that have "32 * i + n \<in> wbits ws" by (simp add: wbits_def)
      with e show False by simp
    qed
    then show "w = 0" by (simp add: word_eq_zero_iff_bits)
  qed
qed (force simp: wbits_def dest: nth_mem)

lemma wbits_Cons_eq:
  "wbits (p # ps) = wbits (q # qs) \<longleftrightarrow> p = q \<and> wbits ps = wbits qs"
proof
  assume e: "wbits (p # ps) = wbits (q # qs)"
  have "bit p n \<longleftrightarrow> bit q n" if "n < 32" for n
    using e that by (metis wbits_Cons_iff)
  then have "p = q" by (simp add: u32_eq_iff_bits)
  moreover have "x \<in> wbits ps \<longleftrightarrow> x \<in> wbits qs" for x
    using e wbits_Cons_iff [of "x + 32" p ps] wbits_Cons_iff [of "x + 32" q qs] by simp
  ultimately show "p = q \<and> wbits ps = wbits qs" by blast
qed (auto simp: wbits_Cons_iff set_eq_iff)

subsection \<open>Growth keeps the members\<close>

lemma set_wf_new [simp]: "set_wf set_new"
  by (simp add: set_wf_def set_new_def words_def DEFWORDS_def DEFBITS_def)

lemma members_new [simp]: "members set_new = {}"
  by (simp add: members_def set_new_def words_def)

lemma compl_new [simp]: "compl set_new = 0"
  by (simp add: set_new_def)

lemma set_wf_dup [simp]: "set_wf s \<Longrightarrow> set_wf (set_dup s)"
  by (auto simp: set_wf_def set_dup_def words_def DEFWORDS_def split: option.splits)

lemma members_dup [simp]: "set_wf s \<Longrightarrow> members (set_dup s) = members s"
  by (auto simp: set_wf_def set_dup_def members_def words_def DEFWORDS_def split: option.splits)

lemma compl_dup [simp]: "compl (set_dup s) = compl s"
  by (simp add: set_dup_def split: option.splits)

lemma words_enlarge:
  "set_wf s \<Longrightarrow> words (enlarge s n) = words s @ replicate (n - nwords s) 0"
  by (simp add: enlarge_def words_def set_wf_def split: option.splits)

lemma set_wf_enlarge [simp]: "set_wf s \<Longrightarrow> n \<le> 134217712 \<Longrightarrow> set_wf (enlarge s n)"
  by (auto simp: set_wf_def enlarge_def words_def split: option.splits)

lemma members_enlarge [simp]: "set_wf s \<Longrightarrow> members (enlarge s n) = members s"
  by (simp add: members_def words_enlarge)

lemma compl_enlarge [simp]: "compl (enlarge s n) = compl s"
  by (simp add: enlarge_def)

lemma nwords_enlarge [simp]: "nwords (enlarge s n) = max n (nwords s)"
  by (simp add: enlarge_def)

lemma ROUND_gt: "x div 32 < ROUND x"
  by (simp add: ROUND_def DIV_WSIZE_def)

lemma ROUND_legal: "legal_bit x \<Longrightarrow> ROUND x \<le> 134217712"
  by (simp add: legal_bit_def ROUND_def DIV_WSIZE_def)

subsection \<open>Single bits\<close>

lemmas bit_index_defs = DIV_WSIZE_def MOD_WSIZE_def

lemma gbit_or_effect:
  assumes "set_wf s" and "x < nbits s"
  shows "set_wf (snd (gbit_or s x))" and "members (snd (gbit_or s x)) = insert x (members s)"
    and "compl (snd (gbit_or s x)) = compl s" and "nwords (snd (gbit_or s x)) = nwords s"
proof -
  have "x div 32 < length (words s)" using assms by (simp add: set_wf_def less_mult_imp_div_less)
  with assms(1) show "set_wf (snd (gbit_or s x))"
    "members (snd (gbit_or s x)) = insert x (members s)"
    "compl (snd (gbit_or s x)) = compl s" "nwords (snd (gbit_or s x)) = nwords s"
    by (simp_all add: gbit_or_def Let_def bit_index_defs members_def wbits_or_bit
        set_wf_put_words)
qed

lemma nbits_enlarge_ROUND:
  assumes "set_wf s" and "legal_bit x"
  shows "x < nbits (enlarge s (ROUND x))"
proof -
  have "nbits (enlarge s (ROUND x)) = 32 * max (ROUND x) (nwords s)"
    using set_wf_nbits [OF set_wf_enlarge [OF assms(1) ROUND_legal [OF assms(2)]]] by simp
  moreover have "x < 32 * ROUND x" using ROUND_gt [of x] by (simp add: div_less_iff_less_mult)
  ultimately show ?thesis by (simp add: max_def)
qed

lemma set_wf_SET_ADD [simp]: "set_wf s \<Longrightarrow> legal_bit x \<Longrightarrow> set_wf (SET_ADD s x)"
  by (simp add: SET_ADD_def add_bit_def gbit_or_effect nbits_enlarge_ROUND ROUND_legal)

lemma members_SET_ADD [simp]:
  "set_wf s \<Longrightarrow> legal_bit x \<Longrightarrow> members (SET_ADD s x) = insert x (members s)"
  by (simp add: SET_ADD_def add_bit_def gbit_or_effect nbits_enlarge_ROUND ROUND_legal)

lemma compl_SET_ADD [simp]: "compl (SET_ADD s x) = compl s"
  by (simp add: SET_ADD_def add_bit_def gbit_or_def Let_def)

lemma SET_REMOVE_effect:
  assumes "set_wf s"
  shows "set_wf (SET_REMOVE s x)" and "members (SET_REMOVE s x) = members s - {x}"
    and "nbits (SET_REMOVE s x) = nbits s" and "compl (SET_REMOVE s x) = compl s"
proof -
  have "x < nbits s \<Longrightarrow> x div 32 < length (words s)"
    using assms by (simp add: set_wf_def less_mult_imp_div_less)
  moreover have "x \<notin> members s" if "nbits s \<le> x"
    using assms that by (auto simp: set_wf_def members_def dest: wbits_bound)
  ultimately show "set_wf (SET_REMOVE s x)" "members (SET_REMOVE s x) = members s - {x}"
    "nbits (SET_REMOVE s x) = nbits s" "compl (SET_REMOVE s x) = compl s"
    using assms by (auto simp: SET_REMOVE_def gbit_andnot_def Let_def bit_index_defs members_def
        wbits_andnot_bit set_wf_put_words)
qed

lemmas SET_REMOVE_simps [simp] = SET_REMOVE_effect

lemma SET_MEMBER_iff [simp]:
  assumes "set_wf s" shows "SET_MEMBER s x \<longleftrightarrow> x \<in> members s"
proof (cases "nbits s \<le> x")
  case True
  then have "x \<notin> members s"
    using assms by (auto simp: set_wf_def members_def dest: wbits_bound)
  with True show ?thesis by (simp add: SET_MEMBER_def)
next
  case False
  then have "x div 32 < length (words s)"
    using assms by (simp add: set_wf_def less_mult_imp_div_less)
  with False show ?thesis
    by (simp add: SET_MEMBER_def gbit_and_def bit_index_defs and_bit_mask_eq_0 members_def wbits_def)
qed

lemma SET_TEST_plain [simp]: "set_wf s \<Longrightarrow> compl s = 0 \<Longrightarrow> SET_TEST s x \<longleftrightarrow> x \<in> members s"
  by (simp add: SET_TEST_def)

lemma SET_TEST_compl [simp]: "set_wf s \<Longrightarrow> compl s \<noteq> 0 \<Longrightarrow> SET_TEST s x \<longleftrightarrow> x \<notin> members s"
  by (simp add: SET_TEST_def)

lemma members_less_nbits: "set_wf s \<Longrightarrow> x \<in> members s \<Longrightarrow> x < nbits s"
  by (auto simp: set_wf_def members_def dest: wbits_bound)

lemma finite_members [simp]: "finite (members s)"
  by (simp add: members_def)

lemma SET_CLEAR_effect:
  "set_wf s \<Longrightarrow> set_wf (SET_CLEAR s) \<and> members (SET_CLEAR s) = {}"
  by (simp add: SET_CLEAR_def members_def set_wf_put_words set_wf_length)

lemma SET_FILL_effect:
  "set_wf s \<Longrightarrow> set_wf (SET_FILL s) \<and> members (SET_FILL s) = {..<nbits s}"
  by (auto simp: SET_FILL_def members_def set_wf_put_words set_wf_length set_wf_nbits wbits_def
      div_less_iff_less_mult)

lemma SET_COMPLEMENT_effect:
  "set_wf s \<Longrightarrow> set_wf (SET_COMPLEMENT s) \<and> members (SET_COMPLEMENT s) = members s"
  by (simp add: SET_COMPLEMENT_def set_wf_def members_def words_def split: option.splits)

subsection \<open>Counting\<close>

text \<open>The table doubles: its second half is its first half plus one.\<close>

primrec count_tab :: "nat \<Rightarrow> nat list" where
  "count_tab 0 = [0]"
| "count_tab (Suc k) = count_tab k @ map ((+) 1) (count_tab k)"

lemma nbits_tab_eq: "nbits_tab = count_tab 8"
proof -
  have "nbits_tab = count_tab (Suc (Suc (Suc (Suc (Suc (Suc (Suc (Suc 0))))))))"
    by (simp add: nbits_tab_def)
  then show ?thesis by (simp only: eval_nat_numeral BitM.simps)
qed

lemma length_count_tab [simp]: "length (count_tab k) = 2 ^ k"
  by (induction k) simp_all

lemma bit_pow2_add:
  fixes c :: nat
  assumes "c < 2 ^ k"
  shows "j < k \<Longrightarrow> bit (2 ^ k + c) j \<longleftrightarrow> bit c j" and "bit (2 ^ k + c) k"
proof -
  have "take_bit k (2 ^ k + c) = c" using assms by (simp add: take_bit_eq_mod)
  then show "j < k \<Longrightarrow> bit (2 ^ k + c) j \<longleftrightarrow> bit c j"
    using bit_take_bit_iff [of k "2 ^ k + c" j] by simp
  have "(2 ^ k + c) div 2 ^ k = 1" using assms by (simp add: div_nat_eqI)
  then show "bit (2 ^ k + c) k" by (simp add: bit_iff_odd)
qed

lemma nth_count_tab: "b < 2 ^ k \<Longrightarrow> count_tab k ! b = card {j. j < k \<and> bit b j}"
proof (induction k arbitrary: b)
  case 0
  then show ?case by simp
next
  case (Suc k)
  show ?case
  proof (cases "b < 2 ^ k")
    case True
    then have "\<not> bit b k" by (simp add: bit_iff_odd)
    then have "{j. j < Suc k \<and> bit b j} = {j. j < k \<and> bit b j}" by (auto simp: less_Suc_eq)
    with True show ?thesis by (simp add: nth_append Suc.IH)
  next
    case False
    then obtain c where c: "b = 2 ^ k + c" by (metis le_iff_add not_less)
    with Suc.prems have ck: "c < 2 ^ k" by simp
    have "{j. j < Suc k \<and> bit b j} = insert k {j. j < k \<and> bit c j}"
      using bit_pow2_add [OF ck] by (auto simp: c less_Suc_eq)
    with c ck show ?thesis by (simp add: nth_append Suc.IH)
  qed
qed

lemma nbits_tab_correct: "b < 256 \<Longrightarrow> nbits_tab ! b = card {j. j < 8 \<and> bit b j}"
  using nth_count_tab [of b 8] by (simp add: nbits_tab_eq)

lemma bytes_of_nth:
  "i < 4 \<Longrightarrow> bytes_of w ! i = unat (take_bit 8 (drop_bit (8 * i) w))"
  by (cases i; cases "i - 1"; cases "i - 2"; cases "i - 3") (auto simp: bytes_of_def)

lemma byte_count:
  "nbits_tab ! unat (take_bit 8 (drop_bit n w)) = card {j. j < 8 \<and> bit (w :: u32) (n + j)}"
proof -
  have lt: "unat (take_bit 8 (drop_bit n w)) < 256"
    using take_bit_nat_less_exp [of 8 "unat (drop_bit n w)"] by (simp add: unsigned_take_bit_eq)
  have "bit (unat (take_bit 8 (drop_bit n w))) j \<longleftrightarrow> bit w (n + j)" if "j < 8" for j
    using that bit_imp_le_length [of w "n + j"]
    by (auto simp: bit_unsigned_iff bit_take_bit_iff bit_drop_bit_eq)
  then show ?thesis by (simp add: nbits_tab_correct [OF lt] cong: conj_cong)
qed

lemma card_below_add:
  "card {j :: nat. j < m + n \<and> P j} = card {j. j < m \<and> P j} + card {j. j < n \<and> P (m + j)}"
proof -
  have "{j. j < m + n \<and> P j} = {j. j < m \<and> P j} \<union> (+) m ` {j. j < n \<and> P (m + j)}"
    by (auto simp: image_iff) (metis add_less_cancel_left le_Suc_ex not_le)
  moreover have "card ({j. j < m \<and> P j} \<union> (+) m ` {j. j < n \<and> P (m + j)}) =
      card {j. j < m \<and> P j} + card {j. j < n \<and> P (m + j)}"
    by (subst card_Un_disjoint) (auto simp: card_image)
  ultimately show ?thesis by simp
qed

lemma word_count:
  "card {j. j < 32 \<and> bit (w :: u32) j} = sum_list (map ((!) nbits_tab) (bytes_of w))"
proof -
  have b0: "nbits_tab ! unat (take_bit 8 w) = card {j. j < 8 \<and> bit w j}"
    using byte_count [of 0 w] by simp
  show ?thesis
    using card_below_add [of 8 24 "bit w"] card_below_add [of 8 16 "\<lambda>j. bit w (8 + j)"]
      card_below_add [of 8 8 "\<lambda>j. bit w (16 + j)"]
    by (simp add: bytes_of_def b0 byte_count add.assoc flip: add.assoc)
qed

lemma wbits_Cons: "wbits (w # ws) = {j. j < 32 \<and> bit w j} \<union> (+) 32 ` wbits ws"
proof (rule set_eqI)
  fix x
  show "x \<in> wbits (w # ws) \<longleftrightarrow> x \<in> {j. j < 32 \<and> bit w j} \<union> (+) 32 ` wbits ws"
  proof (cases "x < 32")
    case False
    then obtain y where "x = 32 + y" by (metis le_Suc_ex not_le)
    then show ?thesis by (auto simp: wbits_Cons_iff)
  qed (auto simp: wbits_Cons_iff)
qed

lemma card_wbits_Cons: "card (wbits (w # ws)) = card {j. j < 32 \<and> bit w j} + card (wbits ws)"
proof -
  have "card ({j. j < 32 \<and> bit w j} \<union> (+) 32 ` wbits ws) =
      card {j. j < 32 \<and> bit w j} + card (wbits ws)"
    by (subst card_Un_disjoint) (auto simp: card_image)
  then show ?thesis by (simp only: wbits_Cons)
qed

lemma count_bytes_sum:
  "c < 2 ^ 32 \<Longrightarrow> count_bytes bs c = (c + sum_list (map ((!) nbits_tab) bs)) mod 2 ^ 32"
  by (induction bs arbitrary: c) (simp_all add: mod_simps add.assoc)

lemma sum_bytes_card:
  "sum_list (map ((!) nbits_tab) (concat (map bytes_of ws))) = card (wbits ws)"
  by (induction ws) (simp_all add: card_wbits_Cons word_count)

lemma card_wbits_le: "card (wbits ws) \<le> 32 * length ws"
proof -
  have "card (wbits ws) \<le> card {..<32 * length ws}"
    by (rule card_mono) (auto dest: wbits_bound)
  then show ?thesis by simp
qed

lemma set_num_ele_card:
  assumes "set_wf s" shows "set_num_ele (Some s) = card (members s)"
proof -
  have "card (wbits (words s)) < 2 ^ 32"
    using card_wbits_le [of "words s"] assms by (simp add: set_wf_def)
  then show ?thesis
    by (simp add: set_num_ele_def count_bytes_sum sum_bytes_card members_def)
qed

lemma SET_IS_EMPTY_iff [simp]: "set_wf s \<Longrightarrow> SET_IS_EMPTY s \<longleftrightarrow> members s = {}"
  by (simp add: SET_IS_EMPTY_def set_num_ele_card)

subsection \<open>Comparison\<close>

lemma wbits_cong_tail: "wbits (p # ps) = {} \<longleftrightarrow> p = 0 \<and> wbits ps = {}"
  by (auto simp: wbits_eq_empty_iff)

lemma cmp_tail_eq_0: "r \<noteq> 0 \<Longrightarrow> cmp_tail ws r = 0 \<longleftrightarrow> wbits ws = {}"
  by (induction ws) (simp_all add: wbits_cong_tail)

lemma cmp_words_eq_0: "cmp_words ps qs = 0 \<longleftrightarrow> wbits ps = wbits qs"
proof (induction ps qs rule: cmp_words.induct)
  case (1 p ps q qs)
  then show ?case by (simp add: wbits_Cons_eq sub_eq_0_iff_sint)
next
  case (2 ps)
  then show ?case by (simp add: cmp_tail_eq_0)
next
  case (3 q qs)
  then show ?case by (simp add: wbits_cong_tail cmp_tail_eq_0 eq_commute [of "{}"])
qed

lemma SET_IS_EQUIV_iff [simp]: "SET_IS_EQUIV s1 s2 \<longleftrightarrow> members s1 = members s2"
  by (simp add: SET_IS_EQUIV_def set_compare_def cmp_words_eq_0 members_def)

lemma sum_words_sum: "sum_words ws acc = acc + sum_list ws"
  by (induction ws arbitrary: acc) (simp_all add: add.assoc)

lemma sum_list_zero_words: "wbits ws = {} \<Longrightarrow> sum_list ws = 0"
  by (induction ws) (simp_all add: wbits_cong_tail)

lemma wbits_eq_sum: "wbits ps = wbits qs \<Longrightarrow> sum_list ps = sum_list qs"
proof (induction ps qs rule: cmp_words.induct)
  case (1 p ps q qs)
  then show ?case by (simp add: wbits_Cons_eq)
next
  case (2 ps)
  then show ?case by (simp add: sum_list_zero_words)
next
  case (3 q qs)
  then show ?case using sum_list_zero_words [of "q # qs"] by simp
qed

lemma wbits_Cons_subset:
  "wbits (p # ps) \<subseteq> wbits (q # qs) \<longleftrightarrow> p AND q = p \<and> wbits ps \<subseteq> wbits qs"
proof
  assume e: "wbits (p # ps) \<subseteq> wbits (q # qs)"
  have "bit p n \<longrightarrow> bit q n" if "n < 32" for n
    using subsetD [OF e, of n] that by (simp add: wbits_Cons_iff)
  then have "p AND q = p" by (auto simp: u32_eq_iff_bits bit_and_iff)
  moreover have "x \<in> wbits ps \<longrightarrow> x \<in> wbits qs" for x
    using e subsetD [OF e, of "x + 32"] by (simp add: wbits_Cons_iff)
  ultimately show "p AND q = p \<and> wbits ps \<subseteq> wbits qs" by blast
next
  assume a: "p AND q = p \<and> wbits ps \<subseteq> wbits qs"
  then have e: "p = p AND q" by simp
  have "bit p n \<Longrightarrow> bit q n" for n by (subst (asm) e) (simp add: bit_and_iff)
  with conjunct2 [OF a] show "wbits (p # ps) \<subseteq> wbits (q # qs)" by (auto simp: wbits_Cons)
qed

lemma subset_words_iff: "subset_words cs ws \<longleftrightarrow> wbits cs \<subseteq> wbits ws"
proof (induction cs ws rule: subset_words.induct)
  case (1 c cs w ws)
  then show ?case by (simp add: wbits_Cons_subset)
qed (auto simp: wbits_cong_tail)

lemma set_subset_iff [simp]: "set_subset (Some s) (Some c) = Inr (members c \<subseteq> members s)"
  by (simp add: set_subset_def subset_words_iff members_def)

subsection \<open>Binary operations\<close>

lemma length_zip_keep [simp]: "length (zip_keep f ds ss) = length ds"
  by (induction f ds ss rule: zip_keep.induct) simp_all

lemma length_zip_clear [simp]: "length (zip_clear f ds ss) = length ds"
  by (induction f ds ss rule: zip_clear.induct) simp_all

lemma wbits_zip_or:
  "length ss \<le> length ds \<Longrightarrow> wbits (zip_keep (OR) ds ss) = wbits ds \<union> wbits ss"
proof (induction "(OR) :: u32 \<Rightarrow> u32 \<Rightarrow> u32" ds ss rule: zip_keep.induct)
  case (1 d ds s ss)
  then show ?case by (auto simp: wbits_Cons_iff bit_or_iff)
qed auto

lemma wbits_zip_xor:
  "length ss \<le> length ds \<Longrightarrow>
   wbits (zip_keep (XOR) ds ss) = (wbits ds - wbits ss) \<union> (wbits ss - wbits ds)"
proof (induction "(XOR) :: u32 \<Rightarrow> u32 \<Rightarrow> u32" ds ss rule: zip_keep.induct)
  case (1 d ds s ss)
  then show ?case by (auto simp: wbits_Cons_iff bit_xor_iff split: if_splits)
qed auto

lemma wbits_zip_and: "wbits (zip_clear (AND) ds ss) = wbits ds \<inter> wbits ss"
proof (induction "(AND) :: u32 \<Rightarrow> u32 \<Rightarrow> u32" ds ss rule: zip_clear.induct)
  case (1 d ds s ss)
  then show ?case by (auto simp: wbits_Cons_iff bit_and_iff)
next
  case (2 d ds)
  then show ?case by (simp add: wbits_cong_tail)
qed auto

lemma wbits_zip_assign:
  "length ss \<le> length ds \<Longrightarrow> wbits (zip_clear (\<lambda>d s. s) ds ss) = wbits ss"
proof (induction "\<lambda>(d :: u32) (s :: u32). s" ds ss rule: zip_clear.induct)
  case (1 d ds s ss)
  then show ?case by (auto simp: wbits_Cons_iff)
next
  case (2 d ds)
  then show ?case by (simp add: wbits_cong_tail)
qed auto

text \<open>The destination after it has been grown to the size of the source.\<close>

lemma set_op_dest:
  assumes "set_wf d" and "set_wf s"
  defines "d' \<equiv> (if nwords d < nwords s then enlarge d (nwords s) else d)"
  shows "set_wf d'" and "members d' = members d" and "compl d' = compl d"
    and "length (words s) \<le> length (words d')"
proof -
  have "nwords s \<le> 134217712" using assms(2) by (simp add: set_wf_def)
  with assms(1) show wf: "set_wf d'" and "members d' = members d" and "compl d' = compl d"
    by (simp_all add: d'_def)
  show "length (words s) \<le> length (words d')"
    using set_wf_length [OF wf] set_wf_length [OF assms(2)] by (simp add: d'_def)
qed

lemma set_op_to_effect:
  assumes "set_wf d" and "set_wf s"
  shows "set_wf (set_op_to op d s)" and "compl (set_op_to op d s) = compl d"
    and "members (set_op_to op d s) =
      (if op = UNION_OP then members d \<union> members s
       else if op = INTERSECT_OP then members d \<inter> members s
       else if op = DIFFERENCE_OP then (members d - members s) \<union> (members s - members d)
       else if op = ASSIGN_OP then members s else members d)"
proof -
  define d' where "d' = (if nwords d < nwords s then enlarge d (nwords s) else d)"
  note d' = set_op_dest [OF assms, folded d'_def]
  have eq: "set_op_to op d s = put_words d' (op_words op (words d') (words s))"
    by (simp add: set_op_to_def d'_def Let_def)
  show "set_wf (set_op_to op d s)" "compl (set_op_to op d s) = compl d"
    using d' by (simp_all add: eq set_wf_put_words op_words_def)
  have "members (set_op_to op d s) = wbits (op_words op (words d') (words s))"
    by (simp add: eq members_def)
  moreover have "wbits (words d') = members d" "wbits (words s) = members s"
    using d'(2) by (simp_all add: members_def)
  ultimately show "members (set_op_to op d s) =
      (if op = UNION_OP then members d \<union> members s
       else if op = INTERSECT_OP then members d \<inter> members s
       else if op = DIFFERENCE_OP then (members d - members s) \<union> (members s - members d)
       else if op = ASSIGN_OP then members s else members d)"
    using d'(4) by (simp add: op_words_def wbits_zip_or wbits_zip_and wbits_zip_xor
        wbits_zip_assign)
qed

lemmas op_codes = UNION_OP_def INTERSECT_OP_def DIFFERENCE_OP_def ASSIGN_OP_def

lemma SET_UNION_effect [simp]:
  assumes "set_wf d" and "set_wf s"
  shows "set_wf (SET_UNION d s)" and "members (SET_UNION d s) = members d \<union> members s"
    and "compl (SET_UNION d s) = compl d"
  using set_op_to_effect [OF assms, of UNION_OP] by (simp_all add: SET_UNION_def)

lemma SET_ASSIGN_effect [simp]:
  assumes "set_wf d" and "set_wf s"
  shows "set_wf (SET_ASSIGN d s)" and "members (SET_ASSIGN d s) = members s"
    and "compl (SET_ASSIGN d s) = compl d"
  using set_op_to_effect [OF assms, of ASSIGN_OP] by (simp_all add: SET_ASSIGN_def op_codes)

lemma wbits_map_NOT: "wbits (map NOT ws) = {..<32 * length ws} - wbits ws"
  by (auto simp: wbits_def bit_not_iff div_less_iff_less_mult less_mult_imp_div_less)

lemma set_invert_effect:
  assumes "set_wf s"
  obtains s' where "set_invert (Some s) = Some s'" "set_wf s'"
    "members s' = {..<nbits s} - members s"
  using assms by (simp add: set_invert_def set_wf_put_words members_def wbits_map_NOT set_wf_def)

lemma set_truncate_effect:
  assumes "set_wf s"
  obtains s' where "set_truncate (Some s) = Some s'" "set_wf s'" "members s' = {}"
    "compl s' = compl s"
  using assms by (simp add: set_truncate_def set_wf_def members_def words_def
      DEFWORDS_def DEFBITS_def split: option.splits)

subsection \<open>\<open>set_test\<close>\<close>

lemma test_words_EQUIV:
  "length ps = length qs \<Longrightarrow> test_words ps qs r = SET_EQUIV \<longleftrightarrow> r = SET_EQUIV \<and> ps = qs"
  by (induction ps qs r rule: test_words.induct)
    (auto simp: SET_EQUIV_def SET_DISJ_def SET_INTER_def)

lemma test_words_INTER:
  "test_words ps qs r = SET_INTER \<Longrightarrow> r \<noteq> SET_INTER \<Longrightarrow> wbits ps \<inter> wbits qs \<noteq> {}"
proof (induction ps qs r rule: test_words.induct)
  case (1 p ps q qs r)
  show ?case
  proof (cases "p \<noteq> q \<and> p AND q \<noteq> 0")
    case True
    then obtain n where "n < 32" "bit p n" "bit q n"
      by (auto simp: word_eq_zero_iff_bits bit_and_iff)
    then have "n \<in> wbits (p # ps) \<inter> wbits (q # qs)" by (simp add: wbits_Cons_iff)
    then show ?thesis by blast
  next
    case False
    with 1 have "wbits ps \<inter> wbits qs \<noteq> {}"
      by (auto simp: SET_DISJ_def SET_INTER_def split: if_splits)
    then show ?thesis by (force simp: wbits_Cons)
  qed
qed auto

lemma set_test_words:
  assumes "set_wf s1" and "set_wf s2"
  obtains ps qs where "fst (set_test s1 s2) = test_words ps qs SET_EQUIV"
    "length ps = length qs" "wbits ps = members s1" "wbits qs = members s2"
proof
  let ?i = "max (nwords s1) (nwords s2)"
  have i: "?i \<le> 134217712" using assms by (simp add: set_wf_def)
  show "fst (set_test s1 s2) =
      test_words (words (enlarge s1 ?i)) (words (enlarge s2 ?i)) SET_EQUIV"
    by (simp add: set_test_def Let_def)
  show "length (words (enlarge s1 ?i)) = length (words (enlarge s2 ?i))"
    using assms i by (simp add: set_wf_length)
  show "wbits (words (enlarge s1 ?i)) = members s1" "wbits (words (enlarge s2 ?i)) = members s2"
    using members_enlarge [OF assms(1)] members_enlarge [OF assms(2)]
    by (simp_all add: members_def)
qed

section \<open>The interface of the clients\<close>

text \<open>
  What the lexer and parser generators rely on: membership of a value that is tested,
  added and removed by position.  \<open>legal\<close> is the range in which a position can be added.
\<close>

locale bit_set =
  fixes inv :: "'s \<Rightarrow> bool"
    and elems :: "'s \<Rightarrow> nat set"
    and legal :: "nat \<Rightarrow> bool"
    and empty :: 's
    and add :: "'s \<Rightarrow> nat \<Rightarrow> 's"
    and remove :: "'s \<Rightarrow> nat \<Rightarrow> 's"
    and has :: "'s \<Rightarrow> nat \<Rightarrow> bool"
  assumes inv_empty: "inv empty"
    and elems_empty: "elems empty = {}"
    and inv_add: "inv s \<Longrightarrow> legal x \<Longrightarrow> inv (add s x)"
    and elems_add: "inv s \<Longrightarrow> legal x \<Longrightarrow> elems (add s x) = insert x (elems s)"
    and inv_remove: "inv s \<Longrightarrow> inv (remove s x)"
    and elems_remove: "inv s \<Longrightarrow> elems (remove s x) = elems s - {x}"
    and has_iff: "inv s \<Longrightarrow> has s x \<longleftrightarrow> x \<in> elems s"
begin

lemma add_all:
  "inv s \<Longrightarrow> \<forall>x\<in>set xs. legal x \<Longrightarrow>
   inv (foldl add s xs) \<and> elems (foldl add s xs) = elems s \<union> set xs"
  by (induction xs arbitrary: s) (auto simp: inv_add elems_add)

lemma add_all_empty:
  "\<forall>x\<in>set xs. legal x \<Longrightarrow> inv (foldl add empty xs) \<and> elems (foldl add empty xs) = set xs"
  using add_all [OF inv_empty, of xs] by (simp add: elems_empty)

lemma add_remove: "inv s \<Longrightarrow> legal x \<Longrightarrow> x \<notin> elems s \<Longrightarrow> elems (remove (add s x) x) = elems s"
  by (simp add: elems_remove inv_add elems_add)

lemma has_add: "inv s \<Longrightarrow> legal x \<Longrightarrow> has (add s x) y \<longleftrightarrow> y = x \<or> has s y"
  by (simp add: has_iff inv_add elems_add)

end

text \<open>
  The interface with the set algebra, and the step \<open>grow\<close> that every fixpoint
  computation of the parser generators makes: take the union unless it adds nothing.
\<close>

locale bit_set_algebra = bit_set +
  fixes union :: "'s \<Rightarrow> 's \<Rightarrow> 's"
    and assign :: "'s \<Rightarrow> 's \<Rightarrow> 's"
    and equiv_sets :: "'s \<Rightarrow> 's \<Rightarrow> bool"
  assumes inv_union: "inv d \<Longrightarrow> inv s \<Longrightarrow> inv (union d s)"
    and elems_union: "inv d \<Longrightarrow> inv s \<Longrightarrow> elems (union d s) = elems d \<union> elems s"
    and inv_assign: "inv d \<Longrightarrow> inv s \<Longrightarrow> inv (assign d s)"
    and elems_assign: "inv d \<Longrightarrow> inv s \<Longrightarrow> elems (assign d s) = elems s"
    and equiv_iff: "equiv_sets d s \<longleftrightarrow> elems d = elems s"
begin

lemma union_all:
  "inv s \<Longrightarrow> \<forall>t\<in>set ts. inv t \<Longrightarrow>
   inv (foldl union s ts) \<and> elems (foldl union s ts) = elems s \<union> (\<Union>t\<in>set ts. elems t)"
  by (induction ts arbitrary: s) (auto simp: inv_union elems_union)

lemma assign_copy: "inv d \<Longrightarrow> inv s \<Longrightarrow> equiv_sets (assign d s) s"
  by (simp add: equiv_iff elems_assign)

end

interpretation bs: bit_set set_wf members legal_bit set_new SET_ADD SET_REMOVE SET_MEMBER
  by unfold_locales simp_all

interpretation bsa: bit_set_algebra set_wf members legal_bit set_new SET_ADD SET_REMOVE
    SET_MEMBER SET_UNION SET_ASSIGN SET_IS_EQUIV
  by unfold_locales simp_all

section \<open>Properties\<close>

text \<open>C21.
  Adding a position to a set, by the macro or by \<open>set_add\<close>, keeps the invariant, grows the
  map where needed, and makes the position a member without touching any other member.
\<close>

theorem set_add_correct:
  assumes "set_wf s" and "legal_bit x"
  shows "set_wf (SET_ADD s x) \<and> members (SET_ADD s x) = insert x (members s) \<and>
    (\<forall>y. SET_MEMBER (SET_ADD s x) y \<longleftrightarrow> y = x \<or> SET_MEMBER s y) \<and>
    (\<exists>w s'. set_add (Some s) x = (w, Some s') \<and> w \<noteq> 0 \<and> set_wf s' \<and>
       members s' = insert x (members s))"
proof -
  let ?e = "enlarge s (ROUND x)"
  have e: "set_wf ?e" "x < nbits ?e"
    using assms by (simp_all add: ROUND_legal nbits_enlarge_ROUND)
  have "fst (gbit_or ?e x) AND bit_mask (x mod 32) \<noteq> 0"
    by (subst and_bit_mask_eq_0) (simp_all add: gbit_or_def Let_def bit_index_defs bit_or_iff)
  then have nz: "fst (gbit_or ?e x) \<noteq> 0" by auto
  have eq: "set_add (Some s) x = (fst (gbit_or ?e x), Some (snd (gbit_or ?e x)))"
    by (simp add: set_add_def add_bit_def split_beta)
  have "members (snd (gbit_or ?e x)) = insert x (members s)"
    using gbit_or_effect(2) [OF e] assms(1) by simp
  with eq nz gbit_or_effect(1) [OF e]
  have "\<exists>w s'. set_add (Some s) x = (w, Some s') \<and> w \<noteq> 0 \<and> set_wf s' \<and>
      members s' = insert x (members s)" by blast
  with bs.has_add [OF assms] set_wf_SET_ADD [OF assms] members_SET_ADD [OF assms]
  show ?thesis by blast
qed

theorem set_add_correct_witness:
  "members (SET_ADD set_new 1000) = {1000} \<and> SET_MEMBER (SET_ADD set_new 1000) 1000"
proof -
  have "legal_bit 1000" by (simp add: legal_bit_def)
  from set_add_correct [OF set_wf_new this] show ?thesis by simp
qed

text \<open>C22.
  The last 512 positions an \<open>unsigned\<close> can name wrap \<open>nbits\<close> around to 0: after such an
  addition the macros find no member at all, not even those that were there before.  A
  character class with a byte above 127 reaches this, since its value is a negative \<open>char\<close>.
\<close>

theorem set_add_wraps_nbits:
  assumes "set_wf s" and "2 ^ 32 - 512 \<le> x" and "x < 2 ^ 32"
  shows "nbits (SET_ADD s x) = 0 \<and> \<not> SET_MEMBER (SET_ADD s x) y"
proof -
  have "x div 32 + 16 \<ge> 134217728" "x div 32 + 16 < 134217744" using assms(2,3) by simp_all
  then have r: "ROUND x = 134217728"
    by (simp add: ROUND_def DIV_WSIZE_def)
  have w: "nwords s \<le> 134217712" using assms(1) by (simp add: set_wf_def)
  have "nbits s \<le> x" using assms(1,2) w by (simp add: set_wf_def)
  moreover have "nbits (enlarge s 134217728) = 0" using w by (simp add: enlarge_def)
  ultimately have "nbits (SET_ADD s x) = 0"
    by (simp add: SET_ADD_def add_bit_def gbit_or_def Let_def r)
  then show ?thesis by (simp add: SET_MEMBER_def)
qed

theorem set_add_wraps_nbits_witness:
  "SET_MEMBER (SET_ADD set_new 5) 5 \<and>
   \<not> SET_MEMBER (SET_ADD (SET_ADD set_new 5) (uns (- 23))) 5"
proof -
  have l: "legal_bit 5" by (simp add: legal_bit_def)
  have wf: "set_wf (SET_ADD set_new 5)" using l by simp
  have "uns (- 23) = 4294967273" by (simp add: uns_def)
  then have "\<not> SET_MEMBER (SET_ADD (SET_ADD set_new 5) (uns (- 23))) 5"
    using set_add_wraps_nbits [OF wf, of "uns (- 23)" 5] by simp
  with l show ?thesis by simp
qed

text \<open>C23.
  The binary operations compute, on the members, union, intersection, symmetric
  difference and copy; an unknown operation code leaves the members alone; a null operand
  ends the program with status 1.  The comment at \<open>_DIFFERENCE_OP\<close> in \<open>set.h\<close> describes the
  difference, \<open>(x in s1) && (x not in s2)\<close>; the code is an exclusive or, so that the members
  of the second set that are not in the first are added, and the two agree exactly if the
  second set is included in the first (\<open>difference_op_is_difference\<close>).
\<close>

theorem set_op_refines_sets:
  assumes "set_wf d" and "set_wf s"
  shows "\<exists>r. set_op op (Some d) (Some s) = Inr r \<and> set_wf r \<and> compl r = compl d \<and>
    members r =
      (if op = UNION_OP then members d \<union> members s
       else if op = INTERSECT_OP then members d \<inter> members s
       else if op = DIFFERENCE_OP then (members d - members s) \<union> (members s - members d)
       else if op = ASSIGN_OP then members s else members d) \<and>
    set_op op None (Some s) = Inl (Exit 1) \<and> set_op op (Some d) None = Inl (Exit 1)"
  using set_op_to_effect [OF assms] by (simp add: set_op_def)

theorem set_op_refines_sets_witness:
  "\<exists>r. set_op DIFFERENCE_OP (Some (SET_ADD set_new 3)) (Some (SET_ADD set_new 600)) = Inr r \<and>
     members r = {3, 600}"
proof -
  have "set_wf (SET_ADD set_new 3)" "set_wf (SET_ADD set_new 600)"
    by (simp_all add: legal_bit_def)
  from set_op_refines_sets [OF this, of DIFFERENCE_OP] show ?thesis
    by (auto simp: legal_bit_def op_codes)
qed

lemma difference_op_is_difference:
  assumes "set_wf d" and "set_wf s" and "set_op DIFFERENCE_OP (Some d) (Some s) = Inr r"
  shows "members r = members d - members s \<longleftrightarrow> members s \<subseteq> members d"
  using set_op_to_effect [OF assms(1,2), of DIFFERENCE_OP] assms(3) by (auto simp: set_op_def op_codes)

text \<open>C24.
  \<open>set_compare\<close> returns 0 exactly for sets with the same members, whatever their sizes;
  sets that compare equal have the same \<open>set_hash\<close>; and \<open>set_subset\<close> decides inclusion.
\<close>

theorem set_compare_decides_equality:
  "(set_compare (Some s1) (Some s2) = 0 \<longleftrightarrow> members s1 = members s2) \<and>
   (set_hash (Some s1) \<noteq> set_hash (Some s2) \<longrightarrow> set_compare (Some s1) (Some s2) \<noteq> 0) \<and>
   set_subset (Some s1) (Some s2) = Inr (members s2 \<subseteq> members s1)"
  using wbits_eq_sum [of "words s1" "words s2"]
  by (auto simp: set_compare_def cmp_words_eq_0 members_def set_hash_def sum_words_sum
      set_subset_def subset_words_iff)

theorem set_compare_decides_equality_witness:
  "set_compare (Some (SET_ADD set_new 1)) (Some (SET_ADD set_new 2)) \<noteq> 0"
proof -
  have "members (SET_ADD set_new 1) \<noteq> members (SET_ADD set_new 2)"
    by (simp add: legal_bit_def)
  then show ?thesis
    using set_compare_decides_equality [of "SET_ADD set_new 1" "SET_ADD set_new 2"] by blast
qed

text \<open>
  The sign of \<open>set_compare\<close> is not an order, although it "works like strcmp": the
  difference of the first unequal words is an \<open>unsigned\<close> returned as an \<open>int\<close>, so the set
  of position 31 and the empty set are each smaller than the other.
\<close>

theorem set_compare_not_antisymmetric:
  "set_compare (Some (SET_ADD set_new 31)) (Some set_new) < 0 \<and>
   set_compare (Some set_new) (Some (SET_ADD set_new 31)) < 0"
  by code_simp

text \<open>
  \<open>set_num_ele\<close>, which counts through a table of byte counts, returns the number of
  members, and 0 for a null pointer.
\<close>

theorem set_num_ele_counts_members:
  assumes "set_wf s"
  shows "set_num_ele (Some s) = card (members s) \<and> set_num_ele None = 0 \<and>
    (SET_IS_EMPTY s \<longleftrightarrow> members s = {})"
  using assms by (simp add: set_num_ele_card) (simp add: set_num_ele_def)

theorem set_num_ele_counts_members_witness:
  "set_num_ele (Some (SET_ADD (SET_ADD set_new 7) 700)) = 2"
proof -
  have l: "legal_bit 7" "legal_bit 700" by (simp_all add: legal_bit_def)
  then have "set_wf (SET_ADD (SET_ADD set_new 7) 700)" by simp
  from set_num_ele_counts_members [OF this] l show ?thesis by simp
qed

text \<open>
  What \<open>set_test\<close> tells of two sets: "equivalent" implies the same members, "intersect"
  implies a common member, and "disjoint" implies that they differ.  It does not imply
  that they are disjoint: two sets that agree on a nonzero word and have disjoint rest
  are called disjoint.
\<close>

theorem set_test_answers:
  assumes "set_wf s1" and "set_wf s2"
  shows "(fst (set_test s1 s2) = SET_EQUIV \<longleftrightarrow> members s1 = members s2) \<and>
    (SET_IS_INTERSECT s1 s2 \<longrightarrow> members s1 \<inter> members s2 \<noteq> {}) \<and>
    (\<exists>t1 t2. SET_IS_DISJOINT t1 t2 \<and> members t1 \<inter> members t2 = {0})"
proof -
  obtain ps qs where pq: "fst (set_test s1 s2) = test_words ps qs SET_EQUIV"
    "length ps = length qs" "wbits ps = members s1" "wbits qs = members s2"
    using set_test_words [OF assms] by blast
  have "ps = qs \<longleftrightarrow> wbits ps = wbits qs"
    using pq(2) by (induction ps qs rule: list_induct2) (simp_all add: wbits_Cons_eq)
  moreover have "SET_IS_INTERSECT s1 s2 \<Longrightarrow> members s1 \<inter> members s2 \<noteq> {}"
    using test_words_INTER [of ps qs SET_EQUIV] pq
    by (simp add: SET_IS_INTERSECT_def SET_EQUIV_def SET_INTER_def)
  moreover have "SET_IS_DISJOINT (SET_ADD (SET_ADD set_new 0) 40) (SET_ADD (SET_ADD set_new 0) 50)"
    by code_simp
  moreover have "members (SET_ADD (SET_ADD set_new 0) 40) \<inter>
      members (SET_ADD (SET_ADD set_new 0) 50) = {0}"
    by (simp add: legal_bit_def)
  ultimately show ?thesis using pq test_words_EQUIV [OF pq(2), of SET_EQUIV] by auto
qed

theorem set_test_answers_witness:
  "fst (set_test set_new (SET_ADD set_new 9)) \<noteq> SET_EQUIV"
proof -
  have "set_wf (SET_ADD set_new 9)" by (simp add: legal_bit_def)
  from set_test_answers [OF set_wf_new this] show ?thesis by (simp add: legal_bit_def)
qed

end
