(* ===== verification/SetIter.thy ===== *)
theory SetIter
  imports BitSet
begin

text \<open>
  Enumeration of bit sets: \<open>set_next_member\<close> and \<open>set_print\<close> of
  \<open>src/compiler/lib/set.c\<close>.  The two static variables of \<open>set_next_member\<close> are the
  record \<open>set_iter\<close>; a set is passed as its address and its contents, because the routine
  recognises a new set by its address.  \<open>drain\<close> is the loop
  \<open>while((i = set_next_member(s)) >= 0)\<close> of its callers.
\<close>

section \<open>Operations\<close>

text \<open>
  \<open>current_member\<close> is an \<open>int\<close> that is compared with the \<open>unsigned\<close> number of bits: its bit
  pattern is a word that wraps, compared unsigned and returned signed.  \<open>reads\<close> is not in the code: it
  counts the words of the map that the loop over the leading zero words has read in the last call.
\<close>

record set_iter =
  lastSet :: "nat option"
  current_member :: u32
  reads :: nat

definition iter_init :: set_iter where
  "iter_init = \<lparr>lastSet = None, current_member = 0, reads = 0\<rparr>"

text \<open>
  The loop that skips leading zero words, with the number of words it reads.  The word behind
  the last one is read before the bound is tested; whatever it holds, the loop stops there,
  since \<open>current_member = nbits\<close>.
\<close>

fun skip_zero_words :: "u32 list \<Rightarrow> u32 \<Rightarrow> u32 \<Rightarrow> nat \<times> u32" where
  "skip_zero_words (w # ws) nb c =
     (if w = 0 \<and> c < nb then (case skip_zero_words ws nb (c + 32) of (n, d) \<Rightarrow> (Suc n, d)) else (1, c))"
| "skip_zero_words [] nb c = (1, c)"

definition bits_of :: "SET_S \<Rightarrow> u32" where
  "bits_of s = of_nat (nbits s)"

lemma unat_pos: "x < 2 ^ 32 \<Longrightarrow> unat (of_nat x :: u32) = x"
  by (simp add: unat_of_nat take_bit_nat_eq_self)

lemma unat_u32: "unat (w :: u32) < 2 ^ 32"
  using unsigned_less [of w, where ?'a = nat] by simp

lemma unat_next:
  assumes "c < (w :: u32)"
  shows "unat (c + 1) = Suc (unat c)"
proof -
  have "Suc (unat c) < 2 ^ 32" using assms unat_u32 [of w] by (simp add: word_less_nat_alt)
  then have "unat (of_nat (Suc (unat c)) :: u32) = Suc (unat c)" by (rule unat_pos)
  then show ?thesis by (simp add: add.commute)
qed

function next_from :: "SET_S \<Rightarrow> u32 \<Rightarrow> int \<times> u32" where
  "next_from s c =
     (if c < bits_of s then (if SET_TEST s (unat c) then (sint c, c + 1) else next_from s (c + 1))
      else (- 1, c + 1))"
  by pat_completeness auto
termination
  by (relation "measure (\<lambda>(s, c). unat (bits_of s) - unat c)") (auto simp: unat_next word_less_nat_alt)

declare next_from.simps [simp del]

definition set_next_member :: "set_iter \<Rightarrow> (nat \<times> SET_S) option \<Rightarrow> int \<times> set_iter" where
  "set_next_member st p =
     (case p of
        None \<Rightarrow> (0, st\<lparr>lastSet := None, reads := 0\<rparr>)
      | Some (a, s) \<Rightarrow>
          (let st1 = (if lastSet st \<noteq> Some a
                      then (case skip_zero_words (words s) (bits_of s) 0 of
                              (n, c) \<Rightarrow> \<lparr>lastSet = Some a, current_member = c, reads = n\<rparr>)
                      else st\<lparr>reads := 0\<rparr>);
               (r, c) = next_from s (current_member st1)
           in (r, st1\<lparr>current_member := c\<rparr>)))"

section \<open>The sequence of answers\<close>

text \<open>The number of bits, and a position as the \<open>int\<close> that is returned.\<close>

definition lim :: "SET_S \<Rightarrow> nat" where
  "lim s = unat (bits_of s)"

definition to_int :: "nat \<Rightarrow> int" where
  "to_int x = sint (of_nat x :: u32)"

lemma lim_less: "lim s < 2 ^ 32"
  unfolding lim_def by (rule unat_u32)

lemma lim_wf:
  assumes "set_wf s"
  shows "lim s = nbits s"
proof -
  have "nbits s < 2 ^ 32" using assms by (simp add: set_wf_def)
  then show ?thesis by (simp add: lim_def bits_of_def unat_pos)
qed

lemma lim_cong: "nbits s = nbits t \<Longrightarrow> lim s = lim t"
  by (simp add: lim_def bits_of_def)

lemma to_int_shift: "x < 2 ^ 32 \<Longrightarrow> to_int x = (if x < 2 ^ 31 then int x else int x - 2 ^ 32)"
proof -
  assume x: "x < 2 ^ 32"
  have "sint (word_of_int (int x) :: u32) = signed_take_bit 31 (int x)" by transfer simp
  also have "\<dots> = (int x + 2 ^ 31) mod 2 ^ 32 - 2 ^ 31"
    by (simp add: signed_take_bit_eq_take_bit_shift take_bit_eq_mod)
  also have "\<dots> = (if x < 2 ^ 31 then int x else int x - 2 ^ 32)"
  proof (cases "x < 2 ^ 31")
    case False
    have "int x + 2 ^ 31 = (int x - 2 ^ 31) + 2 ^ 32" by simp
    then have "(int x + 2 ^ 31) mod 2 ^ 32 = (int x - 2 ^ 31) mod 2 ^ 32" by (simp only: mod_add_self2)
    also have "\<dots> = int x - 2 ^ 31" using False x by (intro mod_pos_pos_trivial) simp_all
    finally show ?thesis using False by simp
  qed (simp add: mod_pos_pos_trivial)
  finally show ?thesis by (simp add: to_int_def)
qed

lemma to_int_small [simp]: "x < 2 ^ 31 \<Longrightarrow> to_int x = int x"
  by (simp add: to_int_shift)

lemma to_int_neg: "x < 2 ^ 32 \<Longrightarrow> to_int x < 0 \<longleftrightarrow> 2 ^ 31 \<le> x"
  by (simp add: to_int_shift)

lemma next_from_filter:
  "next_from s c =
     (case filter (SET_TEST s) [unat c..<lim s] of
        [] \<Rightarrow> (- 1, of_nat (Suc (max (unat c) (lim s))))
      | x # _ \<Rightarrow> (to_int x, of_nat (Suc x)))"
proof (induction s c rule: next_from.induct)
  case (1 s c)
  show ?case
  proof (cases "c < bits_of s")
    case True
    then have lt: "unat c < lim s" by (simp add: lim_def word_less_nat_alt)
    then have u: "[unat c..<lim s] = unat c # [Suc (unat c)..<lim s]" by (simp add: upt_conv_Cons)
    have m: "max (Suc (unat c)) (lim s) = max (unat c) (lim s)" using lt by (simp add: max_def)
    show ?thesis
    proof (cases "SET_TEST s (unat c)")
      case test: True
      have "of_nat (Suc (unat c)) = c + 1" by simp
      with True test show ?thesis by (simp add: next_from.simps [of s c] u to_int_def)
    next
      case test: False
      from 1 [OF True test] have "next_from s (c + 1) =
          (case filter (SET_TEST s) [Suc (unat c)..<lim s] of
            [] \<Rightarrow> (- 1, of_nat (Suc (max (unat c) (lim s))))
          | x # _ \<Rightarrow> (to_int x, of_nat (Suc x)))" by (simp only: m unat_next [OF True])
      with True test show ?thesis by (simp add: next_from.simps [of s c] u)
    qed
  next
    case False
    then have "lim s \<le> unat c" by (simp add: lim_def word_less_nat_alt)
    with False show ?thesis by (simp add: next_from.simps [of s c] max_def)
  qed
qed

lemma filter_upt_Cons:
  "filter P [c..<n] = x # xs \<Longrightarrow> c \<le> x \<and> x < n \<and> xs = filter P [Suc x..<n]"
proof (induction "n - c" arbitrary: c)
  case 0
  then show ?case by simp
next
  case (Suc k)
  then have u: "[c..<n] = c # [Suc c..<n]" by (simp add: upt_conv_Cons)
  show ?case
  proof (cases "P c")
    case True
    with Suc u show ?thesis by auto
  next
    case False
    with Suc.prems u have "filter P [Suc c..<n] = x # xs" by simp
    with Suc.hyps(1) [of "Suc c"] Suc.hyps(2) have "Suc c \<le> x \<and> x < n \<and> xs = filter P [Suc x..<n]" by simp
    then show ?thesis by simp
  qed
qed

definition iter_start :: "SET_S \<Rightarrow> nat" where
  "iter_start s = unat (snd (skip_zero_words (words s) (bits_of s) 0))"

text \<open>What is left to enumerate in a given state.\<close>

definition pending :: "nat \<Rightarrow> SET_S \<Rightarrow> set_iter \<Rightarrow> nat list" where
  "pending a s st =
     filter (SET_TEST s)
       [(if lastSet st = Some a then unat (current_member st) else iter_start s)..<lim s]"

lemma set_next_member_simp:
  "set_next_member st (Some (a, s)) =
     (let c = (if lastSet st = Some a then current_member st else snd (skip_zero_words (words s) (bits_of s) 0));
          n = (if lastSet st = Some a then 0 else fst (skip_zero_words (words s) (bits_of s) 0))
      in (fst (next_from s c), \<lparr>lastSet = Some a, current_member = snd (next_from s c), reads = n\<rparr>))"
  by (cases st) (simp add: set_next_member_def Let_def split_beta)

lemma pending_next:
  "pending a s st =
     filter (SET_TEST s)
       [unat (if lastSet st = Some a then current_member st else snd (skip_zero_words (words s) (bits_of s) 0))..<lim s]"
  by (simp add: pending_def iter_start_def)

lemma set_next_member_end:
  assumes "pending a s st = []"
  shows "\<exists>st'. set_next_member st (Some (a, s)) = (- 1, st')"
  using assms unfolding set_next_member_simp pending_next by (simp add: Let_def next_from_filter)

lemma set_next_member_pending:
  assumes "pending a s st = x # xs"
  obtains st' where "set_next_member st (Some (a, s)) = (to_int x, st')" and "lastSet st' = Some a"
    and "x < lim s" and "unat (current_member st') = Suc x" and "pending a s st' = xs"
proof -
  let ?c = "if lastSet st = Some a then current_member st else snd (skip_zero_words (words s) (bits_of s) 0)"
  let ?st = "snd (set_next_member st (Some (a, s)))"
  have f: "filter (SET_TEST s) [unat ?c..<lim s] = x # xs" using assms by (simp only: pending_next)
  note u = filter_upt_Cons [OF f]
  have n: "next_from s ?c = (to_int x, of_nat (Suc x))" unfolding next_from_filter f by simp
  have st: "set_next_member st (Some (a, s)) = (to_int x, ?st)" "lastSet ?st = Some a" "current_member ?st = of_nat (Suc x)"
    unfolding set_next_member_simp Let_def n by simp_all
  have pos: "unat (current_member ?st) = Suc x" unfolding st(3) by (rule unat_pos) (use u lim_less [of s] in simp)
  have "pending a s ?st = xs" using u by (simp add: pending_def st(2) pos)
  with st(1,2) pos u show thesis using that by blast
qed

text \<open>The callers' loop, as the list of the members it sees and the state it leaves.\<close>

function drain :: "nat \<Rightarrow> SET_S \<Rightarrow> set_iter \<Rightarrow> int list \<times> set_iter" where
  "drain a s st =
     (let (i, st') = set_next_member st (Some (a, s))
      in if 0 \<le> i then (let (is, st'') = drain a s st' in (i # is, st'')) else ([], st'))"
  by pat_completeness auto
termination
proof (relation "measure (\<lambda>(a, s, st). length (pending a s st))", goal_cases)
  case (2 a s st p i st')
  then have step: "set_next_member st (Some (a, s)) = (i, st')" "0 \<le> i" by auto
  show ?case
  proof (cases "pending a s st")
    case Nil
    then show ?thesis using set_next_member_end [of a s st] step by auto
  next
    case (Cons x xs)
    then obtain st2 where "set_next_member st (Some (a, s)) = (to_int x, st2)" "pending a s st2 = xs"
      by (rule set_next_member_pending)
    then show ?thesis using step Cons by simp
  qed
qed simp

declare drain.simps [simp del]

lemma pending_sorted: "sorted (pending a s st)" "distinct (pending a s st)" "x \<in> set (pending a s st) \<Longrightarrow> x < 2 ^ 32"
  using lim_less [of s] by (auto simp: pending_def sorted_wrt_filter)

lemma drain_pending: "fst (drain a s st) = map int (filter (\<lambda>x. x < 2 ^ 31) (pending a s st))"
proof (induction "pending a s st" arbitrary: st)
  case Nil
  then obtain st' where "set_next_member st (Some (a, s)) = (- 1, st')"
    using set_next_member_end [of a s st] by auto
  with Nil show ?case by (simp add: drain.simps [of a s st])
next
  case (Cons x xs)
  then have p: "pending a s st = x # xs" by simp
  then obtain st' where n: "set_next_member st (Some (a, s)) = (to_int x, st')" "pending a s st' = xs" "x < lim s"
    by (rule set_next_member_pending)
  show ?case
  proof (cases "x < 2 ^ 31")
    case True
    have "fst (drain a s st') = map int (filter (\<lambda>x. x < 2 ^ 31) xs)" using Cons.hyps(1) [of st'] n(2) by simp
    then show ?thesis using True by (simp add: p drain.simps [of a s st] n(1) split_beta)
  next
    case False
    then have neg: "to_int x < 0" using n(3) lim_less [of s] by (simp add: to_int_neg)
    have "\<forall>y\<in>set xs. x < y" using pending_sorted(1,2) [of a s st] p by (auto simp: le_less)
    then have "filter (\<lambda>x. x < 2 ^ 31) (x # xs) = []" using False by (auto simp: filter_empty_conv)
    then show ?thesis using neg by (simp add: p drain.simps [of a s st] n(1))
  qed
qed

section \<open>Enumeration in order\<close>

lemma skip_zero_words_spec:
  assumes "unat c + 32 * length ws = unat nb"
  shows "unat (snd (skip_zero_words ws nb c)) \<le> unat nb"
    and "\<And>x. x \<in> wbits ws \<Longrightarrow> unat (snd (skip_zero_words ws nb c)) \<le> unat c + x"
    and "length ws < fst (skip_zero_words ws nb c) \<longleftrightarrow> wbits ws = {}"
proof -
  have "unat (snd (skip_zero_words ws nb c)) \<le> unat nb \<and>
      (\<forall>x\<in>wbits ws. unat (snd (skip_zero_words ws nb c)) \<le> unat c + x) \<and>
      (length ws < fst (skip_zero_words ws nb c) \<longleftrightarrow> wbits ws = {})"
    using assms
  proof (induction ws nb c rule: skip_zero_words.induct)
    case (1 w ws nb c)
    show ?case
    proof (cases "w = 0")
      case True
      have "unat c + 32 < 2 ^ 32" using 1(2) unat_u32 [of nb] by simp
      then have "unat (of_nat (unat c + 32) :: u32) = unat c + 32" by (rule unat_pos)
      then have u: "unat (c + 32) = unat c + 32" by simp
      have c: "c < nb" using 1(2) by (simp add: word_less_nat_alt)
      have IH: "unat (snd (skip_zero_words ws nb (c + 32))) \<le> unat nb"
        "\<forall>x\<in>wbits ws. unat (snd (skip_zero_words ws nb (c + 32))) \<le> unat c + 32 + x"
        "length ws < fst (skip_zero_words ws nb (c + 32)) \<longleftrightarrow> wbits ws = {}"
        using 1(1) True c 1(2) u by simp_all
      have "unat (snd (skip_zero_words ws nb (c + 32))) \<le> unat c + x" if "x \<in> wbits (w # ws)" for x
      proof -
        have "32 \<le> x" "x - 32 \<in> wbits ws" using that True by (auto simp: wbits_Cons_iff split: if_splits)
        then show ?thesis using bspec [OF IH(2), of "x - 32"] by simp
      qed
      moreover have "wbits (w # ws) = {} \<longleftrightarrow> wbits ws = {}" using True by (auto simp: wbits_cong_tail)
      ultimately show ?thesis using True c IH(1,3) by (simp add: split_beta)
    next
      case False
      then show ?thesis using 1(2) by (auto simp: wbits_cong_tail)
    qed
  qed auto
  then show "unat (snd (skip_zero_words ws nb c)) \<le> unat nb"
    "\<And>x. x \<in> wbits ws \<Longrightarrow> unat (snd (skip_zero_words ws nb c)) \<le> unat c + x"
    "length ws < fst (skip_zero_words ws nb c) \<longleftrightarrow> wbits ws = {}" by blast+
qed

lemma iter_start_le:
  assumes "set_wf s" and "x \<in> members s"
  shows "iter_start s \<le> x"
proof -
  have "unat (bits_of s) = 32 * length (words s)" using lim_wf [OF assms(1)] assms(1) by (simp add: lim_def set_wf_def)
  then show ?thesis
    using skip_zero_words_spec(2) [of 0 "words s" "bits_of s" x] assms(2) by (simp add: iter_start_def members_def)
qed

lemma pending_members:
  assumes "set_wf s" and "compl s = 0" and "lastSet st \<noteq> Some a"
  shows "pending a s st = sorted_list_of_set (members s)"
proof -
  have "set (pending a s st) = members s"
    using assms iter_start_le [OF assms(1)] members_less_nbits [OF assms(1)]
    by (auto simp: pending_def lim_wf)
  moreover have "sorted (pending a s st)" "distinct (pending a s st)" by (rule pending_sorted)+
  ultimately show ?thesis using sorted_list_of_set.idem_if_sorted_distinct by metis
qed

text \<open>
  The list a client gets by a reset followed by the loop; the address is immaterial.
\<close>

definition set_elems :: "SET_S \<Rightarrow> nat list" where
  "set_elems s = filter (\<lambda>x. x < 2 ^ 31) (pending 0 s iter_init)"

lemma set_elems_sorted:
  "set_wf s \<Longrightarrow> compl s = 0 \<Longrightarrow> set_elems s = filter (\<lambda>x. x < 2 ^ 31) (sorted_list_of_set (members s))"
  by (simp add: set_elems_def pending_members iter_init_def)

lemma set_set_elems [simp]: "set_wf s \<Longrightarrow> compl s = 0 \<Longrightarrow> set (set_elems s) = {x \<in> members s. x < 2 ^ 31}"
  by (simp add: set_elems_sorted)

lemma set_elems_small: "set_wf s \<Longrightarrow> compl s = 0 \<Longrightarrow> \<forall>x\<in>members s. x < 2 ^ 31 \<Longrightarrow> set (set_elems s) = members s"
  by auto

lemma distinct_set_elems: "distinct (set_elems s)"
  by (simp add: set_elems_def pending_sorted)

lemma drain_set_elems:
  "lastSet st \<noteq> Some a \<Longrightarrow> fst (drain a s st) = map int (set_elems s)"
  by (simp add: drain_pending set_elems_def pending_def iter_init_def)

section \<open>Printing\<close>

text \<open>
  \<open>set_print\<close> as the sequence of its calls of the print function, each a format and a
  value.
\<close>

definition print_members :: "nat \<Rightarrow> SET_S \<Rightarrow> set_iter \<Rightarrow> (string \<times> int) list" where
  "print_members a s st =
     (let st0 = snd (set_next_member st None)
      in map (\<lambda>i. (''%d '', i)) (fst (drain a s st0)))"

definition set_print :: "set_iter \<Rightarrow> (nat \<times> SET_S) option \<Rightarrow> (string \<times> int) list" where
  "set_print st p =
     (case p of
        None \<Rightarrow> [(''NULL'' @ [CHR 0x0A], - 1), (''empty'' @ [CHR 0x0A], - 2)]
      | Some (a, s) \<Rightarrow>
          (let calls = print_members a s st
           in calls @ (if calls = [] then [(''empty'' @ [CHR 0x0A], - 2)] else [])))"

section \<open>Properties\<close>

text \<open>C25.
  After a reset, the loop over \<open>set_next_member\<close> ends and delivers, in increasing order and
  each once, the members of a set that is not complemented which an \<open>int\<close> can hold.  A member
  from \<open>2 ^ 31\<close> on is returned as a negative number, so that the loop ends in front of it; a set
  without such members is enumerated completely.
\<close>

theorem set_next_member_enumerates:
  assumes "set_wf s" and "compl s = 0"
  shows "fst (drain a s (snd (set_next_member st None))) =
      map int (filter (\<lambda>x. x < 2 ^ 31) (sorted_list_of_set (members s)))"
proof -
  have "lastSet (snd (set_next_member st None)) \<noteq> Some a"
    by (simp add: set_next_member_def)
  with assms show ?thesis by (simp add: drain_set_elems set_elems_sorted)
qed

theorem set_next_member_enumerates_witness:
  "fst (drain 1 (SET_ADD (SET_ADD set_new 600) 3) (snd (set_next_member iter_init None))) = [3, 600] \<and>
   fst (drain 1 (SET_ADD (SET_ADD set_new (2 ^ 31)) 3) (snd (set_next_member iter_init None))) = [3]"
proof -
  have a: "set_wf (SET_ADD (SET_ADD set_new 600) 3)" "compl (SET_ADD (SET_ADD set_new 600) 3) = 0"
    and b: "set_wf (SET_ADD (SET_ADD set_new (2 ^ 31)) 3)" "compl (SET_ADD (SET_ADD set_new (2 ^ 31)) 3) = 0"
    by (simp_all add: legal_bit_def)
  from set_next_member_enumerates [OF a, of 1 iter_init] set_next_member_enumerates [OF b, of 1 iter_init]
  show ?thesis by (simp add: legal_bit_def)
qed

text \<open>C26.
  A call of \<open>set_next_member\<close> reads one word behind the map of the set exactly if no bit of the
  map is set and the set is not the one of the last call: the loop over the leading zero words
  tests its bound after the read.
\<close>

theorem set_next_member_reads_past_end:
  assumes "set_wf s"
  shows "reads (snd (set_next_member st (Some (a, s)))) > nwords s \<longleftrightarrow> members s = {} \<and> lastSet st \<noteq> Some a"
proof -
  have "unat (bits_of s) = 32 * length (words s)" using lim_wf [OF assms] assms by (simp add: lim_def set_wf_def)
  then have "length (words s) < fst (skip_zero_words (words s) (bits_of s) 0) \<longleftrightarrow> members s = {}"
    using skip_zero_words_spec(3) [of 0 "words s" "bits_of s"] by (simp add: members_def)
  then show ?thesis using assms by (auto simp: set_next_member_simp Let_def set_wf_def)
qed

theorem set_next_member_reads_past_end_witness:
  "reads (snd (set_next_member iter_init (Some (1, set_new)))) > 16"
proof -
  have "nwords set_new = 16" by (simp add: set_new_def DEFWORDS_def)
  with set_next_member_reads_past_end [OF set_wf_new, of iter_init 1] show ?thesis by (simp add: iter_init_def)
qed

text \<open>
  On a complemented set the enumeration leaves members out: the words that are skipped as
  empty are full of members of the complement.  The first answer for the complement of
  \<open>{40}\<close> is 32, although \<open>SET_TEST\<close> accepts every position below.
\<close>

theorem set_next_member_skips_complement:
  "fst (set_next_member iter_init (Some (1, SET_COMPLEMENT (SET_ADD set_new 40)))) = 32 \<and>
   {x. x < 32 \<and> SET_TEST (SET_COMPLEMENT (SET_ADD set_new 40)) x} = {..<32}"
proof -
  have "set_wf (SET_ADD set_new 40)" by (simp add: legal_bit_def)
  then have "\<forall>x<32. SET_TEST (SET_COMPLEMENT (SET_ADD set_new 40)) x"
    using SET_COMPLEMENT_effect [of "SET_ADD set_new 40"]
    by (simp add: SET_COMPLEMENT_def legal_bit_def)
  moreover have "fst (set_next_member iter_init (Some (1, SET_COMPLEMENT (SET_ADD set_new 40)))) = 32"
    by code_simp
  ultimately show ?thesis by auto
qed

end
