(* ===== verification/NfaData.thy ===== *)
theory NfaData
  imports SetIter
begin

text \<open>
  The nondeterministic automaton of the lexer generator (\<open>src/compiler/lex/nfa.h\<close>) and
  what it means: one array of states, each with one labelled edge or up to two epsilon
  edges.  Pointers into the array are indices, null is \<open>None\<close>; the accept string of a
  state is the position of the string in the array of accept strings, so that two states
  have the same string exactly when they have the same pointer.
\<close>

section \<open>States\<close>

record NFA =
  edge :: int
  bitset :: "SET_S option"
  nfa_next :: "nat option"
  nfa_next2 :: "nat option"
  accept :: "nat option"
  anchor :: int

definition EPSILON :: int where "EPSILON = - 1"

definition CCL :: int where "CCL = - 2"

definition EMPTY :: int where "EMPTY = - 3"

definition NONE :: int where "NONE = 0"

definition START :: int where "START = 1"

definition END_ANCHOR :: int where "END_ANCHOR = 2"

definition NFA_MAX :: nat where "NFA_MAX = 768"

lemmas edge_codes = EPSILON_def CCL_def EMPTY_def

section \<open>Semantics\<close>

text \<open>
  The states an epsilon state leads to; the states a labelled state leads to on a
  character; the closure of a set of states.
\<close>

definition eps_succ :: "NFA list \<Rightarrow> nat \<Rightarrow> nat set" where
  "eps_succ nfa i =
     (if edge (nfa ! i) = EPSILON
      then set_option (nfa_next (nfa ! i)) \<union> set_option (nfa_next2 (nfa ! i)) else {})"

definition eps_rel :: "NFA list \<Rightarrow> (nat \<times> nat) set" where
  "eps_rel nfa = {(i, j). i < length nfa \<and> j \<in> eps_succ nfa i}"

definition eps_closure :: "NFA list \<Rightarrow> nat set \<Rightarrow> nat set" where
  "eps_closure nfa S = (eps_rel nfa)\<^sup>* `` S"

definition matches :: "NFA \<Rightarrow> nat \<Rightarrow> bool" where
  "matches p c \<longleftrightarrow> edge p = int c \<or>
     (edge p = CCL \<and> (case bitset p of None \<Rightarrow> False | Some b \<Rightarrow> SET_TEST b c))"

definition char_step :: "NFA list \<Rightarrow> nat set \<Rightarrow> nat \<Rightarrow> nat set" where
  "char_step nfa S c =
     {j. \<exists>i\<in>S. i < length nfa \<and> matches (nfa ! i) c \<and> nfa_next (nfa ! i) = Some j}"

text \<open>The states the automaton can be in after reading a string.\<close>

definition nfa_states :: "NFA list \<Rightarrow> nat \<Rightarrow> nat list \<Rightarrow> nat set" where
  "nfa_states nfa start w =
     foldl (\<lambda>S c. eps_closure nfa (char_step nfa S c)) (eps_closure nfa {start}) w"

text \<open>
  The accepting state that wins in a set of states: the one with the lowest index, which
  belongs to the rule that comes first in the input.
\<close>

definition acc_states :: "NFA list \<Rightarrow> nat set \<Rightarrow> nat set" where
  "acc_states nfa P = {i \<in> P. accept (nfa ! i) \<noteq> None}"

definition winner :: "NFA list \<Rightarrow> nat set \<Rightarrow> nat option" where
  "winner nfa P = (if acc_states nfa P = {} then None else Some (Min (acc_states nfa P)))"

definition win_accept :: "NFA list \<Rightarrow> nat set \<Rightarrow> nat option" where
  "win_accept nfa P = (case winner nfa P of None \<Rightarrow> None | Some w \<Rightarrow> accept (nfa ! w))"

definition win_anchor :: "NFA list \<Rightarrow> int \<Rightarrow> nat set \<Rightarrow> int" where
  "win_anchor nfa c0 P = (case winner nfa P of None \<Rightarrow> c0 | Some w \<Rightarrow> anchor (nfa ! w))"

section \<open>Well-formed automata\<close>

text \<open>
  What the construction guarantees: all pointers stay in the array, a labelled state has
  a successor, a character class has its set.
\<close>

definition wf_state :: "nat \<Rightarrow> NFA \<Rightarrow> bool" where
  "wf_state n p \<longleftrightarrow>
     (\<forall>j\<in>set_option (nfa_next p) \<union> set_option (nfa_next2 p). j < n) \<and>
     (edge p = CCL \<or> 0 \<le> edge p \<longrightarrow> nfa_next p \<noteq> None) \<and>
     (edge p = CCL \<longrightarrow> (\<exists>b. bitset p = Some b \<and> set_wf b))"

definition wf_nfa :: "NFA list \<Rightarrow> bool" where
  "wf_nfa nfa \<longleftrightarrow> length nfa \<le> NFA_MAX \<and> (\<forall>p\<in>set nfa. wf_state (length nfa) p)"

lemma wf_nfa_nth: "wf_nfa nfa \<Longrightarrow> i < length nfa \<Longrightarrow> wf_state (length nfa) (nfa ! i)"
  by (simp add: wf_nfa_def)

lemma eps_succ_less: "wf_nfa nfa \<Longrightarrow> i < length nfa \<Longrightarrow> j \<in> eps_succ nfa i \<Longrightarrow> j < length nfa"
  by (auto simp: eps_succ_def wf_state_def dest!: wf_nfa_nth split: if_splits)

lemma eps_closure_extensive: "S \<subseteq> eps_closure nfa S"
  by (auto simp: eps_closure_def)

lemma eps_closure_step:
  "i \<in> eps_closure nfa S \<Longrightarrow> i < length nfa \<Longrightarrow> j \<in> eps_succ nfa i \<Longrightarrow> j \<in> eps_closure nfa S"
  by (auto simp: eps_closure_def eps_rel_def intro: rtrancl_into_rtrancl)

lemma eps_closure_least:
  assumes "S \<subseteq> T" and "\<And>i j. i \<in> T \<Longrightarrow> i < length nfa \<Longrightarrow> j \<in> eps_succ nfa i \<Longrightarrow> j \<in> T"
  shows "eps_closure nfa S \<subseteq> T"
proof -
  have "j \<in> T" if "(i, j) \<in> (eps_rel nfa)\<^sup>*" "i \<in> T" for i j
    using that by (induction rule: rtrancl_induct) (auto simp: eps_rel_def intro: assms(2))
  then show ?thesis using assms(1) by (auto simp: eps_closure_def)
qed

lemma eps_closure_less:
  "wf_nfa nfa \<Longrightarrow> S \<subseteq> {..<length nfa} \<Longrightarrow> eps_closure nfa S \<subseteq> {..<length nfa}"
  by (rule eps_closure_least) (auto intro: eps_succ_less)

lemma eps_closure_empty [simp]: "eps_closure nfa {} = {}"
  by (simp add: eps_closure_def)

lemma char_step_less: "wf_nfa nfa \<Longrightarrow> char_step nfa S c \<subseteq> {..<length nfa}"
  by (auto simp: char_step_def wf_state_def dest!: wf_nfa_nth)

lemma char_step_empty [simp]: "char_step nfa {} c = {}"
  by (simp add: char_step_def)

lemma nfa_states_Nil [simp]: "nfa_states nfa start [] = eps_closure nfa {start}"
  by (simp add: nfa_states_def)

lemma nfa_states_snoc [simp]:
  "nfa_states nfa start (w @ [c]) = eps_closure nfa (char_step nfa (nfa_states nfa start w) c)"
  by (simp add: nfa_states_def)

lemma nfa_states_less:
  "wf_nfa nfa \<Longrightarrow> start < length nfa \<Longrightarrow> nfa_states nfa start w \<subseteq> {..<length nfa}"
  by (induction w rule: rev_induct) (simp_all add: eps_closure_less char_step_less)

text \<open>How the winner changes when a state is added.\<close>

lemma winner_empty [simp]: "winner nfa {} = None"
  by (simp add: winner_def acc_states_def)

lemma winner_insert:
  assumes "finite P"
  shows "winner nfa (insert i P) =
    (if accept (nfa ! i) = None then winner nfa P
     else Some (case winner nfa P of None \<Rightarrow> i | Some w \<Rightarrow> min i w))"
proof -
  have "acc_states nfa (insert i P) =
      (if accept (nfa ! i) = None then acc_states nfa P else insert i (acc_states nfa P))"
    by (auto simp: acc_states_def)
  moreover have "finite (acc_states nfa P)" using assms by (simp add: acc_states_def)
  ultimately show ?thesis by (simp add: winner_def)
qed

lemma winner_in:
  assumes "finite P" and "winner nfa P = Some w"
  shows "w \<in> P \<and> accept (nfa ! w) \<noteq> None"
proof -
  have "acc_states nfa P \<noteq> {}" "w = Min (acc_states nfa P)"
    using assms(2) by (simp_all add: winner_def split: if_splits)
  moreover have "finite (acc_states nfa P)" using assms(1) by (simp add: acc_states_def)
  ultimately have "w \<in> acc_states nfa P" by simp
  then show ?thesis by (simp add: acc_states_def)
qed

lemma win_accept_None_iff:
  assumes "finite P"
  shows "win_accept nfa P = None \<longleftrightarrow> (\<forall>i\<in>P. accept (nfa ! i) = None)"
proof (cases "winner nfa P")
  case None
  then show ?thesis by (auto simp: win_accept_def winner_def acc_states_def split: if_splits)
next
  case (Some w)
  with winner_in [OF assms Some] show ?thesis by (auto simp: win_accept_def)
qed

end
