(* ===== verification/Terp.thy ===== *)
theory Terp
  imports NfaData
begin

text \<open>
  The NFA interpreter, \<open>src/compiler/lex/terp.c\<close>: epsilon closure and moves on sets of NFA
  states, represented as bit sets.  The closure runs with an explicit stack of
  \<open>NFA_MAX\<close> entries; a push past its end is \<open>Overflow\<close> in the model, and shown not to
  happen.
\<close>

section \<open>Operations\<close>

definition INT_MAX :: int where "INT_MAX = 2147483647"

text \<open>\<open>*++tos = i\<close> on the stack \<open>int stack[NFA_MAX]\<close>; the head of the list is the top.\<close>

definition push_state :: "nat \<Rightarrow> nat list \<Rightarrow> nat list res" where
  "push_state i stk = (if NFA_MAX \<le> length stk then Inl Overflow else Inr (i # stk))"

fun push_all :: "nat list \<Rightarrow> nat list \<Rightarrow> nat list res" where
  "push_all [] stk = Inr stk"
| "push_all (i # is) stk = bind_res (push_state i stk) (push_all is)"

text \<open>One of the two blocks \<open>if(p->next) \<dots>\<close> of the closure loop.\<close>

definition visit :: "nat option \<Rightarrow> SET_S \<times> nat list \<Rightarrow> (SET_S \<times> nat list) res" where
  "visit p = (\<lambda>(s, stk).
     (case p of
        None \<Rightarrow> Inr (s, stk)
      | Some i \<Rightarrow>
          if \<not> SET_MEMBER s i
          then bind_res (push_state i stk) (\<lambda>stk'. Inr (SET_ADD s i, stk'))
          else Inr (s, stk)))"

partial_function (option) closure_loop ::
  "NFA list \<Rightarrow> SET_S \<Rightarrow> nat list \<Rightarrow> int \<Rightarrow> nat option \<Rightarrow> int
   \<Rightarrow> (SET_S \<times> nat option \<times> int) res option" where
  "closure_loop nfa s stk accept_num acc anch =
     (case stk of
        [] \<Rightarrow> Some (Inr (s, acc, anch))
      | i # rest \<Rightarrow>
          (let p = nfa ! i;
               better = (accept p \<noteq> None \<and> int i < accept_num);
               num' = (if better then int i else accept_num);
               acc' = (if better then accept p else acc);
               anch' = (if better then anchor p else anch)
           in if edge p = EPSILON
              then (case bind_res (visit (nfa_next p) (s, rest)) (visit (nfa_next2 p)) of
                      Inl e \<Rightarrow> Some (Inl e)
                    | Inr (s', stk') \<Rightarrow> closure_loop nfa s' stk' num' acc' anch')
              else closure_loop nfa s rest num' acc' anch'))"

text \<open>
  \<open>*accept\<close> and \<open>*anchor\<close> are output parameters; the values they hold before the call are
  \<open>acc0\<close> and \<open>anch0\<close>.
\<close>

definition e_closure ::
  "NFA list \<Rightarrow> SET_S option \<Rightarrow> nat option \<Rightarrow> int
   \<Rightarrow> (SET_S option \<times> nat option \<times> int) res option" where
  "e_closure nfa input acc0 anch0 =
     (case input of
        None \<Rightarrow> Some (Inr (None, acc0, anch0))
      | Some s \<Rightarrow>
          (case push_all (set_elems s) [] of
             Inl e \<Rightarrow> Some (Inl e)
           | Inr stk \<Rightarrow>
               map_option (map_sum id (\<lambda>(s', acc, anch). (Some s', acc, anch)))
                 (closure_loop nfa s stk INT_MAX None anch0)))"

text \<open>
  \<open>move\<close> runs down from the last state.  Taking the index of a null \<open>next\<close>, or testing a
  null \<open>bitset\<close>, is \<open>Null_deref\<close>.
\<close>

definition move_state :: "NFA list \<Rightarrow> SET_S \<Rightarrow> nat \<Rightarrow> nat \<Rightarrow> SET_S option \<Rightarrow> SET_S option res" where
  "move_state nfa inp_set c i outset =
     (if SET_MEMBER inp_set i
      then (let p = nfa ! i
            in if edge p = CCL \<and> bitset p = None \<and> edge p \<noteq> int c then Inl Null_deref
               else if edge p = int c \<or> (edge p = CCL \<and> SET_TEST (the (bitset p)) c)
               then (case nfa_next p of
                       None \<Rightarrow> Inl Null_deref
                     | Some j \<Rightarrow>
                         Inr (Some (SET_ADD (case outset of None \<Rightarrow> set_new | Some out \<Rightarrow> out) j)))
               else Inr outset)
      else Inr outset)"

fun move_loop :: "NFA list \<Rightarrow> SET_S \<Rightarrow> nat \<Rightarrow> nat \<Rightarrow> SET_S option \<Rightarrow> SET_S option res" where
  "move_loop nfa inp_set c 0 outset = Inr outset"
| "move_loop nfa inp_set c (Suc i) outset =
     bind_res (move_state nfa inp_set c i outset) (move_loop nfa inp_set c i)"

definition move :: "NFA list \<Rightarrow> SET_S \<Rightarrow> nat \<Rightarrow> SET_S option res" where
  "move nfa inp_set c = move_loop nfa inp_set c (length nfa) None"

section \<open>The closure loop\<close>

text \<open>A bit set that holds a set of states of the automaton.\<close>

definition state_set :: "NFA list \<Rightarrow> SET_S \<Rightarrow> bool" where
  "state_set nfa s \<longleftrightarrow> set_wf s \<and> compl s = 0 \<and> members s \<subseteq> {..<length nfa}"

lemma legal_state: "wf_nfa nfa \<Longrightarrow> i < length nfa \<Longrightarrow> legal_bit i"
  by (simp add: wf_nfa_def NFA_MAX_def legal_bit_def)

lemma state_set_ADD:
  "wf_nfa nfa \<Longrightarrow> state_set nfa s \<Longrightarrow> i < length nfa \<Longrightarrow>
   state_set nfa (SET_ADD s i) \<and> members (SET_ADD s i) = insert i (members s)"
  by (auto simp: state_set_def legal_state)

lemma distinct_stack_length:
  "distinct stk \<Longrightarrow> set stk \<subseteq> {..<n} \<Longrightarrow> length stk \<le> n"
  using card_mono [of "{..<n}" "set stk"] by (simp add: distinct_card)

lemma push_state_fits:
  assumes "wf_nfa nfa" and "distinct (i # stk)" and "set (i # stk) \<subseteq> {..<length nfa}"
  shows "push_state i stk = Inr (i # stk)"
  using distinct_stack_length [OF assms(2,3)] assms(1)
  by (simp add: push_state_def wf_nfa_def)

lemma visit_effect:
  assumes "wf_nfa nfa" and "state_set nfa s" and "distinct stk" and "set stk \<subseteq> members s"
    and "\<forall>j\<in>set_option p. j < length nfa"
  shows "\<exists>s' stk'. visit p (s, stk) = Inr (s', stk') \<and> state_set nfa s' \<and> distinct stk' \<and>
    members s' = members s \<union> set_option p \<and>
    set stk' = set stk \<union> (set_option p - members s) \<and> set stk' \<subseteq> members s'"
proof (cases p)
  case None
  with assms show ?thesis by (simp add: visit_def)
next
  case (Some i)
  show ?thesis
  proof (cases "i \<in> members s")
    case True
    with assms Some show ?thesis by (auto simp: visit_def state_set_def insert_absorb)
  next
    case False
    have sub: "members s \<subseteq> {..<length nfa}" and wf: "set_wf s"
      using assms(2) by (simp_all add: state_set_def)
    have "push_state i stk = Inr (i # stk)"
      using assms False sub Some by (intro push_state_fits) auto
    then have "visit p (s, stk) = Inr (SET_ADD s i, i # stk)"
      using False wf by (simp add: visit_def Some)
    then show ?thesis
      using assms False Some state_set_ADD [OF assms(1,2), of i] by auto
  qed
qed

text \<open>
  The invariant: the states taken off the stack (\<open>members s - set stk\<close>) have their
  successors in the set and determine the accept values.
\<close>

definition closure_inv ::
  "NFA list \<Rightarrow> nat set \<Rightarrow> int \<Rightarrow> SET_S \<Rightarrow> nat list \<Rightarrow> int \<Rightarrow> nat option \<Rightarrow> int \<Rightarrow> bool" where
  "closure_inv nfa S0 c0 s stk num acc anch \<longleftrightarrow>
     state_set nfa s \<and> distinct stk \<and> set stk \<subseteq> members s \<and>
     S0 \<subseteq> members s \<and> members s \<subseteq> eps_closure nfa S0 \<and>
     (\<forall>i\<in>members s - set stk. eps_succ nfa i \<subseteq> members s) \<and>
     num = (case winner nfa (members s - set stk) of None \<Rightarrow> INT_MAX | Some w \<Rightarrow> int w) \<and>
     acc = win_accept nfa (members s - set stk) \<and>
     anch = win_anchor nfa c0 (members s - set stk)"

lemma visit_both:
  assumes "wf_nfa nfa" and "state_set nfa s" and "distinct rest" and "set rest \<subseteq> members s"
    and "i \<in> members s" and "edge (nfa ! i) = EPSILON"
  shows "\<exists>s' stk'.
    bind_res (visit (nfa_next (nfa ! i)) (s, rest)) (visit (nfa_next2 (nfa ! i))) = Inr (s', stk') \<and>
    state_set nfa s' \<and> distinct stk' \<and> members s' = members s \<union> eps_succ nfa i \<and>
    set stk' = set rest \<union> (eps_succ nfa i - members s)"
proof -
  have "i < length nfa" using assms(2,5) by (auto simp: state_set_def)
  then have wf: "\<forall>j\<in>set_option (nfa_next (nfa ! i)). j < length nfa"
    "\<forall>j\<in>set_option (nfa_next2 (nfa ! i)). j < length nfa"
    using wf_nfa_nth [OF assms(1)] by (simp_all add: wf_state_def)
  obtain s1 st1 where v1: "visit (nfa_next (nfa ! i)) (s, rest) = Inr (s1, st1)"
    "state_set nfa s1" "distinct st1" "set st1 \<subseteq> members s1"
    "members s1 = members s \<union> set_option (nfa_next (nfa ! i))"
    "set st1 = set rest \<union> (set_option (nfa_next (nfa ! i)) - members s)"
    using visit_effect [OF assms(1-4) wf(1)] by blast
  obtain s2 st2 where v2: "visit (nfa_next2 (nfa ! i)) (s1, st1) = Inr (s2, st2)"
    "state_set nfa s2" "distinct st2"
    "members s2 = members s1 \<union> set_option (nfa_next2 (nfa ! i))"
    "set st2 = set st1 \<union> (set_option (nfa_next2 (nfa ! i)) - members s1)"
    using visit_effect [OF assms(1) v1(2-4) wf(2)] by blast
  have "members s2 = members s \<union> eps_succ nfa i"
    "set st2 = set rest \<union> (eps_succ nfa i - members s)"
    using v1(5,6) v2(4,5) assms(6) by (auto simp: eps_succ_def)
  with v1(1) v2(1-3) show ?thesis by auto
qed

lemma winner_step:
  assumes "finite P" and "i < 768"
    and "num = (case winner nfa P of None \<Rightarrow> INT_MAX | Some w \<Rightarrow> int w)"
    and "acc = win_accept nfa P" and "anch = win_anchor nfa c0 P"
  defines "better \<equiv> accept (nfa ! i) \<noteq> None \<and> int i < num"
  shows "(if better then int i else num) =
      (case winner nfa (insert i P) of None \<Rightarrow> INT_MAX | Some w \<Rightarrow> int w)"
    and "(if better then accept (nfa ! i) else acc) = win_accept nfa (insert i P)"
    and "(if better then anchor (nfa ! i) else anch) = win_anchor nfa c0 (insert i P)"
  using assms(1-5) unfolding better_def
  by (auto simp: winner_insert win_accept_def win_anchor_def INT_MAX_def min_def
      split: option.splits)

lemma closure_inv_pop:
  assumes wf: "wf_nfa nfa" and inv: "closure_inv nfa S0 c0 s (i # rest) num acc anch"
    and sub: "members s' = members s \<union> eps_succ nfa i"
    and st: "set stk' = set rest \<union> (eps_succ nfa i - members s)"
    and ok: "state_set nfa s'" "distinct stk'"
  defines "better \<equiv> accept (nfa ! i) \<noteq> None \<and> int i < num"
  shows "closure_inv nfa S0 c0 s' stk' (if better then int i else num)
    (if better then accept (nfa ! i) else acc) (if better then anchor (nfa ! i) else anch)"
proof -
  let ?P = "members s - set (i # rest)"
  from inv have i: "i \<in> members s" "i \<notin> set rest" and rest: "set rest \<subseteq> members s"
    and num: "num = (case winner nfa ?P of None \<Rightarrow> INT_MAX | Some w \<Rightarrow> int w)"
    and acc: "acc = win_accept nfa ?P" and anch: "anch = win_anchor nfa c0 ?P"
    and succ: "\<forall>j\<in>?P. eps_succ nfa j \<subseteq> members s"
    and S0: "S0 \<subseteq> members s" "members s \<subseteq> eps_closure nfa S0"
    and ss: "state_set nfa s"
    by (auto simp: closure_inv_def)
  have P': "members s' - set stk' = insert i ?P" using sub st i rest by auto
  have "i < length nfa" using ss i(1) by (auto simp: state_set_def)
  then have "i < 768" using wf by (simp add: wf_nfa_def NFA_MAX_def)
  note w = winner_step [of ?P i num nfa acc anch c0, OF _ this num acc anch]
  have "members s' \<subseteq> eps_closure nfa S0"
    using S0 sub i(1) eps_closure_step [of i nfa S0] \<open>i < length nfa\<close> by auto
  then show ?thesis
    using w ok sub st S0 succ rest P' unfolding closure_inv_def better_def by auto
qed

lemma closure_loop_correct:
  assumes "wf_nfa nfa" and "closure_inv nfa S0 c0 s stk num acc anch"
  shows "\<exists>s'. closure_loop nfa s stk num acc anch =
      Some (Inr (s', win_accept nfa (eps_closure nfa S0), win_anchor nfa c0 (eps_closure nfa S0))) \<and>
    state_set nfa s' \<and> members s' = eps_closure nfa S0"
  using assms(2)
proof (induction "2 * (length nfa - card (members s)) + card (set stk)"
    arbitrary: s stk num acc anch rule: less_induct)
  case less
  show ?case
  proof (cases stk)
    case Nil
    with less.prems have "members s = eps_closure nfa S0"
      using eps_closure_least [of S0 "members s" nfa] by (auto simp: closure_inv_def)
    with less.prems Nil show ?thesis
      by (auto simp: closure_loop.simps [of nfa s] closure_inv_def)
  next
    case (Cons i rest)
    let ?b = "accept (nfa ! i) \<noteq> None \<and> int i < num"
    let ?num = "if ?b then int i else num"
    let ?acc = "if ?b then accept (nfa ! i) else acc"
    let ?anch = "if ?b then anchor (nfa ! i) else anch"
    note prems = less.prems [unfolded Cons]
    have i: "i \<in> members s" "i \<notin> set rest" "distinct rest" "set rest \<subseteq> members s"
      and ss: "state_set nfa s"
      using prems by (auto simp: closure_inv_def)
    have go: "\<exists>s''. closure_loop nfa s' stk' ?num ?acc ?anch =
        Some (Inr (s'', win_accept nfa (eps_closure nfa S0), win_anchor nfa c0 (eps_closure nfa S0))) \<and>
        state_set nfa s'' \<and> members s'' = eps_closure nfa S0"
      if s': "state_set nfa s'" "distinct stk'" "members s' = members s \<union> eps_succ nfa i"
        "set stk' = set rest \<union> (eps_succ nfa i - members s)" for s' stk'
    proof (rule less.hyps)
      let ?N = "eps_succ nfa i - members s"
      have "card (members s \<union> ?N) = card (members s) + card ?N"
        by (rule card_Un_disjoint) (auto simp: eps_succ_def)
      moreover have "members s' = members s \<union> ?N" using s'(3) by auto
      ultimately have c: "card (members s') = card (members s) + card ?N" by simp
      have "card (members s') \<le> length nfa"
        using s'(1) card_mono [of "{..<length nfa}" "members s'"] by (simp add: state_set_def)
      moreover have "card (set stk') \<le> card (set rest) + card ?N"
        using card_Un_le [of "set rest" ?N] by (simp add: s'(4))
      moreover have "card (set stk) = Suc (card (set rest))" using i(2) by (simp add: Cons)
      ultimately show "2 * (length nfa - card (members s')) + card (set stk') <
          2 * (length nfa - card (members s)) + card (set stk)"
        using c by linarith
      show "closure_inv nfa S0 c0 s' stk' ?num ?acc ?anch"
        by (rule closure_inv_pop [OF assms(1) prems s'(3,4,1,2)])
    qed
    show ?thesis
    proof (cases "edge (nfa ! i) = EPSILON")
      case True
      obtain s' stk' where v:
        "bind_res (visit (nfa_next (nfa ! i)) (s, rest)) (visit (nfa_next2 (nfa ! i))) = Inr (s', stk')"
        "state_set nfa s'" "distinct stk'" "members s' = members s \<union> eps_succ nfa i"
        "set stk' = set rest \<union> (eps_succ nfa i - members s)"
        using visit_both [OF assms(1) ss i(3,4,1) True] by blast
      then show ?thesis
        using go [OF v(2-5)] True by (simp add: Cons closure_loop.simps [of nfa s] Let_def)
    next
      case False
      then have "eps_succ nfa i = {}" by (simp add: eps_succ_def)
      then show ?thesis
        using go [OF ss i(3)] False by (simp add: Cons closure_loop.simps [of nfa s] Let_def)
    qed
  qed
qed

lemma push_all_Inr: "length is + length stk \<le> NFA_MAX \<Longrightarrow> push_all is stk = Inr (rev is @ stk)"
  by (induction "is" arbitrary: stk) (simp_all add: push_state_def)

lemma e_closure_correct:
  assumes "wf_nfa nfa" and "state_set nfa s"
  shows "\<exists>s'. e_closure nfa (Some s) acc0 anch0 =
      Some (Inr (Some s', win_accept nfa (eps_closure nfa (members s)),
        win_anchor nfa anch0 (eps_closure nfa (members s)))) \<and>
    state_set nfa s' \<and> members s' = eps_closure nfa (members s)"
proof -
  let ?els = "set_elems s"
  have s: "set_wf s" "compl s = 0" using assms(2) by (simp_all add: state_set_def)
  have "members s \<subseteq> {..<length nfa}" "length nfa < 2 ^ 31"
    using assms by (auto simp: state_set_def wf_nfa_def NFA_MAX_def)
  then have els: "set ?els = members s" "distinct ?els" using s by (auto simp: distinct_set_elems)
  have "length ?els \<le> length nfa"
    using distinct_stack_length [OF els(2)] els(1) assms(2) by (simp add: state_set_def)
  then have push: "push_all ?els [] = Inr (rev ?els)"
    using push_all_Inr [of ?els "[]"] assms(1) by (simp add: wf_nfa_def)
  have "closure_inv nfa (members s) anch0 s (rev ?els) INT_MAX None anch0"
    using assms(2) els eps_closure_extensive [of "members s" nfa]
    by (simp add: closure_inv_def win_accept_def win_anchor_def)
  from closure_loop_correct [OF assms(1) this] show ?thesis
    by (auto simp: e_closure_def push)
qed

section \<open>Moves\<close>

text \<open>The states that the first \<open>n\<close> states of a set lead to.\<close>

definition step_below :: "NFA list \<Rightarrow> SET_S \<Rightarrow> nat \<Rightarrow> nat set \<Rightarrow> nat set" where
  "step_below nfa s c I = char_step nfa (members s \<inter> I) c"

definition out_set :: "NFA list \<Rightarrow> SET_S option \<Rightarrow> nat set \<Rightarrow> bool" where
  "out_set nfa out T \<longleftrightarrow>
     (case out of None \<Rightarrow> T = {} | Some s \<Rightarrow> state_set nfa s \<and> members s = T \<and> T \<noteq> {})"

lemma move_state_effect:
  assumes wf: "wf_nfa nfa" and s: "state_set nfa s" and out: "out_set nfa out T" and i: "i < length nfa"
  shows "\<exists>out'. move_state nfa s c i out = Inr out' \<and>
    out_set nfa out' (T \<union> char_step nfa (members s \<inter> {i}) c)"
proof (cases "i \<in> members s \<and> matches (nfa ! i) c")
  case True
  have ws: "wf_state (length nfa) (nfa ! i)" using wf_nfa_nth [OF wf i] .
  from True ws obtain j where j: "nfa_next (nfa ! i) = Some j" "j < length nfa"
    by (auto simp: wf_state_def matches_def)
  let ?o = "case out of None \<Rightarrow> set_new | Some o' \<Rightarrow> o'"
  have "state_set nfa ?o" "members ?o = T"
    using out by (auto simp: out_set_def state_set_def split: option.splits)
  then have "out_set nfa (Some (SET_ADD ?o j)) (insert j T)"
    using state_set_ADD [OF wf _ j(2)] by (simp add: out_set_def)
  moreover have "move_state nfa s c i out = Inr (Some (SET_ADD ?o j))"
    using True ws s j(1)
    by (auto simp: move_state_def Let_def matches_def wf_state_def state_set_def)
  moreover have "char_step nfa (members s \<inter> {i}) c = {j}"
    using True i j(1) by (auto simp: char_step_def)
  ultimately show ?thesis by simp
next
  case False
  have ws: "wf_state (length nfa) (nfa ! i)" using wf_nfa_nth [OF wf i] .
  have "move_state nfa s c i out = Inr out"
    using False ws s by (auto simp: move_state_def Let_def matches_def wf_state_def state_set_def)
  moreover have "char_step nfa (members s \<inter> {i}) c = {}"
    using False by (auto simp: char_step_def)
  ultimately show ?thesis using out by simp
qed

lemma char_step_Un: "char_step nfa (S \<union> T) c = char_step nfa S c \<union> char_step nfa T c"
  by (auto simp: char_step_def)

lemma move_loop_effect:
  assumes "wf_nfa nfa" and "state_set nfa s" and "n \<le> length nfa" and "out_set nfa out T"
  shows "\<exists>out'. move_loop nfa s c n out = Inr out' \<and>
    out_set nfa out' (T \<union> char_step nfa (members s \<inter> {..<n}) c)"
  using assms(3,4)
proof (induction n arbitrary: out T)
  case 0
  then show ?case by (simp add: char_step_def)
next
  case (Suc n)
  from move_state_effect [OF assms(1,2) Suc.prems(2), of n c] Suc.prems(1)
  obtain out1 where o1: "move_state nfa s c n out = Inr out1"
    "out_set nfa out1 (T \<union> char_step nfa (members s \<inter> {n}) c)" by auto
  from Suc.IH [OF _ o1(2)] Suc.prems(1) obtain out2 where o2: "move_loop nfa s c n out1 = Inr out2"
    "out_set nfa out2 (T \<union> char_step nfa (members s \<inter> {n}) c \<union>
       char_step nfa (members s \<inter> {..<n}) c)" by auto
  have "members s \<inter> {..<Suc n} = (members s \<inter> {n}) \<union> (members s \<inter> {..<n})" by auto
  then show ?case using o1(1) o2 by (simp add: char_step_Un Un_assoc)
qed

lemma move_correct:
  assumes "wf_nfa nfa" and "state_set nfa s"
  shows "\<exists>out. move nfa s c = Inr out \<and> out_set nfa out (char_step nfa (members s) c)"
proof -
  have "members s \<inter> {..<length nfa} = members s" using assms(2) by (auto simp: state_set_def)
  moreover have "out_set nfa None {}" by (simp add: out_set_def)
  ultimately show ?thesis
    using move_loop_effect [OF assms order.refl, of None "{}" c] by (simp add: move_def)
qed

section \<open>The interface of the subset construction\<close>

text \<open>
  What \<open>dfa.c\<close> relies on: a closure operation and a move operation on representations
  \<open>'s\<close> of sets of states.
\<close>

locale state_engine =
  fixes wf :: "'n \<Rightarrow> bool"
    and ok :: "'n \<Rightarrow> 's \<Rightarrow> bool"
    and st :: "'s \<Rightarrow> nat set"
    and close :: "'n \<Rightarrow> 's option \<Rightarrow> 'a option \<Rightarrow> int \<Rightarrow> ('s option \<times> 'a option \<times> int) res option"
    and mv :: "'n \<Rightarrow> 's \<Rightarrow> nat \<Rightarrow> 's option res"
    and E :: "'n \<Rightarrow> nat set \<Rightarrow> nat set"
    and M :: "'n \<Rightarrow> nat set \<Rightarrow> nat \<Rightarrow> nat set"
    and wacc :: "'n \<Rightarrow> nat set \<Rightarrow> 'a option"
    and wanc :: "'n \<Rightarrow> int \<Rightarrow> nat set \<Rightarrow> int"
  assumes close_law: "wf n \<Longrightarrow> ok n s \<Longrightarrow>
      \<exists>s'. close n (Some s) a c = Some (Inr (Some s', wacc n (E n (st s)), wanc n c (E n (st s)))) \<and>
        ok n s' \<and> st s' = E n (st s)"
    and move_law: "wf n \<Longrightarrow> ok n s \<Longrightarrow>
      \<exists>out. mv n s x = Inr out \<and> (out = None \<longleftrightarrow> M n (st s) x = {}) \<and>
        (\<forall>t\<in>set_option out. ok n t \<and> st t = M n (st s) x)"
begin

lemma subset_step:
  assumes "wf n" and "ok n s"
  obtains (stuck) "M n (st s) x = {}" and "mv n s x = Inr None"
  | (step) t t' where "M n (st s) x \<noteq> {}" and "mv n s x = Inr (Some t)"
      and "close n (Some t) a c = Some (Inr (Some t', wacc n (st t'), wanc n c (st t')))"
      and "ok n t'" and "st t' = E n (M n (st s) x)"
proof -
  obtain out where out: "mv n s x = Inr out" "out = None \<longleftrightarrow> M n (st s) x = {}"
    "\<forall>t\<in>set_option out. ok n t \<and> st t = M n (st s) x"
    using move_law [OF assms] by blast
  show ?thesis
  proof (cases out)
    case None
    then show ?thesis using out stuck by simp
  next
    case (Some t)
    then have "ok n t" "st t = M n (st s) x" using out by simp_all
    with close_law [OF assms(1) this(1), of a c] out Some show ?thesis
      by (metis option.distinct(1) step)
  qed
qed

end

interpretation eng: state_engine wf_nfa state_set members e_closure move eps_closure char_step
    win_accept win_anchor
proof unfold_locales
  fix n s c and a :: "nat option" and x
  assume "wf_nfa n" and "state_set n s"
  then show "\<exists>s'. e_closure n (Some s) a c = Some (Inr (Some s',
      win_accept n (eps_closure n (members s)), win_anchor n c (eps_closure n (members s)))) \<and>
      state_set n s' \<and> members s' = eps_closure n (members s)"
    by (rule e_closure_correct)
next
  fix n s x
  assume "wf_nfa n" and "state_set n s"
  from move_correct [OF this, of x]
  show "\<exists>out. move n s x = Inr out \<and> (out = None \<longleftrightarrow> char_step n (members s) x = {}) \<and>
      (\<forall>t\<in>set_option out. state_set n t \<and> members t = char_step n (members s) x)"
    by (auto simp: out_set_def split: option.splits)
qed

section \<open>What the two operations compute\<close>

text \<open>A small automaton for \<open>a|b\<close> used to apply the theorems.\<close>

definition demo_nfa :: "NFA list" where
  "demo_nfa =
     [\<lparr>edge = EPSILON, bitset = None, nfa_next = Some 1, nfa_next2 = Some 2, accept = None, anchor = 0\<rparr>,
      \<lparr>edge = 97, bitset = None, nfa_next = Some 3, nfa_next2 = None, accept = None, anchor = 0\<rparr>,
      \<lparr>edge = 98, bitset = None, nfa_next = Some 4, nfa_next2 = None, accept = None, anchor = 0\<rparr>,
      \<lparr>edge = EPSILON, bitset = None, nfa_next = Some 4, nfa_next2 = None, accept = Some 7, anchor = 1\<rparr>,
      \<lparr>edge = EMPTY, bitset = None, nfa_next = None, nfa_next2 = None, accept = Some 8, anchor = 2\<rparr>]"

lemma wf_demo_nfa: "wf_nfa demo_nfa" and length_demo_nfa: "length demo_nfa = 5"
  by (simp_all add: wf_nfa_def demo_nfa_def NFA_MAX_def wf_state_def edge_codes)

lemma state_set_demo: "i < 5 \<Longrightarrow> state_set demo_nfa (SET_ADD set_new i)"
  by (simp add: state_set_def length_demo_nfa legal_bit_def)

text \<open>C18.
  On a well-formed automaton \<open>e_closure\<close> returns, never pushes past the end of its stack of
  \<open>NFA_MAX\<close> entries, and turns a set of states into its epsilon closure; the accept string
  and the anchor it stores are those of the accepting state with the lowest index, and
  without an accepting state the string is null and the anchor keeps its old value.
\<close>

theorem e_closure_computes_closure:
  assumes "wf_nfa nfa" and "state_set nfa s"
  shows "\<exists>s'. e_closure nfa (Some s) acc0 anch0 =
      Some (Inr (Some s', win_accept nfa (eps_closure nfa (members s)),
        win_anchor nfa anch0 (eps_closure nfa (members s)))) \<and>
    state_set nfa s' \<and> members s' = (eps_rel nfa)\<^sup>* `` members s"
  using e_closure_correct [OF assms] by (simp add: eps_closure_def)

theorem e_closure_computes_closure_witness:
  "\<exists>s' acc anch. e_closure demo_nfa (Some (SET_ADD set_new 0)) None 0 = Some (Inr (Some s', acc, anch)) \<and>
     {0, 1, 2} \<subseteq> members s'"
proof -
  have "(0, 1) \<in> (eps_rel demo_nfa)\<^sup>*" "(0, 2) \<in> (eps_rel demo_nfa)\<^sup>*"
    by (auto simp: eps_rel_def length_demo_nfa eps_succ_def demo_nfa_def intro!: r_into_rtrancl)
  with e_closure_computes_closure [OF wf_demo_nfa state_set_demo [of 0], of None 0]
  show ?thesis by (auto simp: legal_bit_def)
qed

text \<open>C19.
  On a well-formed automaton \<open>move\<close> never follows a null pointer, and returns the set of the
  states that a state of the set has a transition to on the character, a null pointer
  exactly when there is none.
\<close>

theorem move_computes_successors:
  assumes "wf_nfa nfa" and "state_set nfa s"
  shows "\<exists>out. move nfa s c = Inr out \<and>
    (out = None \<longleftrightarrow> char_step nfa (members s) c = {}) \<and>
    (\<forall>t\<in>set_option out. state_set nfa t \<and> members t = char_step nfa (members s) c)"
  using move_correct [OF assms, of c] by (auto simp: out_set_def split: option.splits)

theorem move_computes_successors_witness:
  "\<exists>t. move demo_nfa (SET_ADD set_new 1) 97 = Inr (Some t) \<and> members t = {3}"
proof -
  have "char_step demo_nfa {1} 97 = {3}"
    by (auto simp: char_step_def length_demo_nfa demo_nfa_def matches_def)
  with move_computes_successors [OF wf_demo_nfa state_set_demo [of 1], of 97]
  show ?thesis by (auto simp: legal_bit_def)
qed

end
