(* ===== verification/Dfa.thy ===== *)
theory Dfa
  imports Terp
begin

text \<open>
  The subset construction, \<open>src/compiler/lex/dfa.c\<close>: the transition table and the accepting
  states of the deterministic automaton.  The static variables \<open>_dstates\<close>, \<open>_nstates\<close>,
  \<open>_dtran\<close> and the two local variables that survive an iteration (\<open>isaccept\<close>, \<open>anchor\<close>) are
  the record \<open>dfa_env\<close>; \<open>dstates\<close> holds the first \<open>_nstates\<close> entries of \<open>_dstates\<close>.
\<close>

section \<open>Operations\<close>

definition DFA_MAX :: nat where "DFA_MAX = 254"

definition DFA_F :: int where "DFA_F = - 1"

definition MAX_CHARS :: nat where "MAX_CHARS = 128"

record DFA_STATE =
  group :: nat
  mark :: bool
  d_accept :: "nat option"
  d_anchor :: int
  d_set :: SET_S

record ACCEPT =
  acc_string :: "nat option"
  acc_anchor :: int

record dfa_env =
  dstates :: "DFA_STATE list"
  dtran :: "int list list"
  isaccept :: "nat option"
  tr_anchor :: int

text \<open>\<open>get_unmarked\<close> moves \<open>_last_marked\<close>; it returns null when that reaches \<open>_nstates\<close>.\<close>

function get_unmarked :: "DFA_STATE list \<Rightarrow> nat \<Rightarrow> nat" where
  "get_unmarked ds lm =
     (if lm < length ds then (if \<not> mark (ds ! lm) then lm else get_unmarked ds (Suc lm)) else lm)"
  by pat_completeness auto
termination
  by (relation "measure (\<lambda>(ds, lm). length ds - lm)") auto

declare get_unmarked.simps [simp del]

fun find_state :: "SET_S \<Rightarrow> DFA_STATE list \<Rightarrow> nat \<Rightarrow> int" where
  "find_state s [] k = - 1"
| "find_state s (p # ps) k = (if SET_IS_EQUIV s (d_set p) then int k else find_state s ps (Suc k))"

definition in_dstates :: "DFA_STATE list \<Rightarrow> SET_S \<Rightarrow> int" where
  "in_dstates ds s = find_state s ds 0"

definition add_to_dstates ::
  "DFA_STATE list \<Rightarrow> SET_S \<Rightarrow> nat option \<Rightarrow> int \<Rightarrow> (nat \<times> DFA_STATE list) res" where
  "add_to_dstates ds s acc anch =
     (if DFA_MAX - 1 < length ds then Inl Ferr
      else Inr (length ds,
             ds @ [\<lparr>group = 0, mark = False, d_accept = acc, d_anchor = anch, d_set = s\<rparr>]))"

definition set_tran :: "int list list \<Rightarrow> nat \<Rightarrow> nat \<Rightarrow> int \<Rightarrow> int list list" where
  "set_tran t i c v = t[i := (t ! i)[c := v]]"

text \<open>The body of the loop over the characters.\<close>

definition trans_char :: "NFA list \<Rightarrow> nat \<Rightarrow> nat \<Rightarrow> dfa_env \<Rightarrow> dfa_env res option" where
  "trans_char nfa cur c env =
     (case move nfa (d_set (dstates env ! cur)) c of
        Inl e \<Rightarrow> Some (Inl e)
      | Inr out \<Rightarrow>
          (case (case out of
                   None \<Rightarrow> Some (Inr (None, isaccept env, tr_anchor env))
                 | Some t \<Rightarrow> e_closure nfa (Some t) (isaccept env) (tr_anchor env)) of
             None \<Rightarrow> None
           | Some (Inl e) \<Rightarrow> Some (Inl e)
           | Some (Inr (NFA_set, acc, anch)) \<Rightarrow>
               (let env1 = env\<lparr>isaccept := acc, tr_anchor := anch\<rparr>
                in case NFA_set of
                     None \<Rightarrow> Some (Inr (env1\<lparr>dtran := set_tran (dtran env) cur c DFA_F\<rparr>))
                   | Some s \<Rightarrow>
                       (let q = in_dstates (dstates env) s
                        in if q \<noteq> - 1
                           then Some (Inr (env1\<lparr>dtran := set_tran (dtran env) cur c q\<rparr>))
                           else (case add_to_dstates (dstates env) s acc anch of
                                   Inl e \<Rightarrow> Some (Inl e)
                                 | Inr (k, ds) \<Rightarrow>
                                     Some (Inr (env1\<lparr>dstates := ds,
                                       dtran := set_tran (dtran env) cur c (int k)\<rparr>)))))))"

fun trans_row :: "NFA list \<Rightarrow> nat \<Rightarrow> nat \<Rightarrow> dfa_env \<Rightarrow> dfa_env res option" where
  "trans_row nfa cur 0 env = Some (Inr env)"
| "trans_row nfa cur (Suc c) env =
     (case trans_char nfa cur c env of
        None \<Rightarrow> None
      | Some (Inl e) \<Rightarrow> Some (Inl e)
      | Some (Inr env1) \<Rightarrow> trans_row nfa cur c env1)"

definition set_mark :: "nat \<Rightarrow> dfa_env \<Rightarrow> dfa_env" where
  "set_mark k env = env\<lparr>dstates := (dstates env)[k := (dstates env ! k)\<lparr>mark := True\<rparr>]\<rparr>"

partial_function (option) make_loop :: "NFA list \<Rightarrow> nat \<Rightarrow> dfa_env \<Rightarrow> dfa_env res option" where
  "make_loop nfa last_marked env =
     (let cur = get_unmarked (dstates env) last_marked
      in if cur < length (dstates env)
         then (case trans_row nfa cur MAX_CHARS (set_mark cur env) of
                 None \<Rightarrow> None
               | Some (Inl e) \<Rightarrow> Some (Inl e)
               | Some (Inr env1) \<Rightarrow> make_loop nfa cur env1)
         else Some (Inr env))"

text \<open>
  \<open>isaccept0\<close> and \<open>anchor0\<close> are the values of the uninitialised local variables.
\<close>

definition make_trans :: "NFA list \<Rightarrow> nat \<Rightarrow> nat option \<Rightarrow> int \<Rightarrow> dfa_env res option" where
  "make_trans nfa sstate isaccept0 anchor0 =
     (case e_closure nfa (Some (SET_ADD set_new sstate)) None 0 of
        None \<Rightarrow> None
      | Some (Inl e) \<Rightarrow> Some (Inl e)
      | Some (Inr (None, acc, anch)) \<Rightarrow> Some (Inl Null_deref)
      | Some (Inr (Some s, acc, anch)) \<Rightarrow>
          make_loop nfa 0
            \<lparr>dstates = [\<lparr>group = 0, mark = False, d_accept = acc, d_anchor = anch, d_set = s\<rparr>],
             dtran = replicate DFA_MAX (replicate MAX_CHARS 0),
             isaccept = isaccept0, tr_anchor = anchor0\<rparr>)"

text \<open>\<open>dfa\<close> after the call of \<open>nfa\<close>: the table cut to \<open>_nstates\<close> rows, and the accepting states.\<close>

definition dfa ::
  "NFA list \<Rightarrow> nat \<Rightarrow> nat option \<Rightarrow> int \<Rightarrow> (int list list \<times> ACCEPT list) res option" where
  "dfa nfa start isaccept0 anchor0 =
     map_option (map_sum id (\<lambda>env.
         (take (length (dstates env)) (dtran env),
          map (\<lambda>p. \<lparr>acc_string = d_accept p, acc_anchor = d_anchor p\<rparr>) (dstates env))))
       (make_trans nfa start isaccept0 anchor0)"

section \<open>Tables as automata\<close>

text \<open>
  How the generated lexer reads the table: from state 0, one entry per character, until
  the failure state.
\<close>

definition dfa_step :: "int list list \<Rightarrow> int \<Rightarrow> nat \<Rightarrow> int" where
  "dfa_step t q c = (if q = DFA_F then DFA_F else t ! nat q ! c)"

definition dfa_run :: "int list list \<Rightarrow> int \<Rightarrow> nat list \<Rightarrow> int" where
  "dfa_run t q w = foldl (dfa_step t) q w"

lemma dfa_run_simps [simp]:
  "dfa_run t q [] = q"
  "dfa_run t q (c # w) = dfa_run t (dfa_step t q c) w"
  "dfa_run t q (w @ [c]) = dfa_step t (dfa_run t q w) c"
  by (simp_all add: dfa_run_def)

lemma dfa_step_F [simp]: "dfa_step t DFA_F c = DFA_F"
  by (simp add: dfa_step_def)

lemma dfa_run_F [simp]: "dfa_run t DFA_F w = DFA_F"
  by (induction w) simp_all

text \<open>Strings over the characters the tables have columns for.\<close>

definition char_string :: "nat list \<Rightarrow> bool" where
  "char_string w \<longleftrightarrow> (\<forall>c\<in>set w. c < MAX_CHARS)"

lemma char_string_simps [simp]:
  "char_string []"
  "char_string (c # w) \<longleftrightarrow> c < MAX_CHARS \<and> char_string w"
  "char_string (v @ w) \<longleftrightarrow> char_string v \<and> char_string w"
  by (auto simp: char_string_def)

text \<open>A table with \<open>n\<close> rows whose entries are states or the failure state.\<close>

definition wf_table :: "nat \<Rightarrow> int list list \<Rightarrow> bool" where
  "wf_table n t \<longleftrightarrow> length t = n \<and>
     (\<forall>i<n. length (t ! i) = MAX_CHARS \<and>
       (\<forall>c<MAX_CHARS. t ! i ! c = DFA_F \<or> 0 \<le> t ! i ! c \<and> t ! i ! c < int n))"

section \<open>Reachable sets\<close>

definition reach_sets :: "NFA list \<Rightarrow> nat \<Rightarrow> nat set set" where
  "reach_sets nfa start = {nfa_states nfa start w | w. char_string w \<and> nfa_states nfa start w \<noteq> {}}"

lemma reach_sets_start: "eps_closure nfa {start} \<in> reach_sets nfa start"
proof -
  have "eps_closure nfa {start} \<noteq> {}" using eps_closure_extensive [of "{start}" nfa] by auto
  then show ?thesis unfolding reach_sets_def by (force intro: exI [of _ "[]"])
qed

lemma reach_sets_step:
  assumes "S \<in> reach_sets nfa start" and "c < MAX_CHARS" and "char_step nfa S c \<noteq> {}"
  shows "eps_closure nfa (char_step nfa S c) \<in> reach_sets nfa start"
proof -
  obtain w where w: "S = nfa_states nfa start w" "char_string w"
    using assms(1) by (auto simp: reach_sets_def)
  have "eps_closure nfa (char_step nfa S c) \<noteq> {}"
    using eps_closure_extensive [of "char_step nfa S c" nfa] assms(3) by auto
  then have "nfa_states nfa start (w @ [c]) \<noteq> {}" "char_string (w @ [c])" using w assms(2) by simp_all
  then show ?thesis unfolding reach_sets_def using w(1) by (force intro: exI [of _ "w @ [c]"])
qed

lemma finite_reach_sets:
  assumes "wf_nfa nfa" and "start < length nfa"
  shows "finite (reach_sets nfa start)"
proof (rule finite_subset)
  show "reach_sets nfa start \<subseteq> Pow {..<length nfa}"
    using nfa_states_less [OF assms] by (auto simp: reach_sets_def)
qed simp

section \<open>The invariant of the construction\<close>

definition good_dstate :: "NFA list \<Rightarrow> nat \<Rightarrow> DFA_STATE \<Rightarrow> bool" where
  "good_dstate nfa start p \<longleftrightarrow>
     state_set nfa (d_set p) \<and> members (d_set p) \<in> reach_sets nfa start \<and>
     d_accept p = win_accept nfa (members (d_set p)) \<and>
     (d_accept p \<noteq> None \<longrightarrow> d_anchor p = win_anchor nfa 0 (members (d_set p)))"

definition state_sets :: "DFA_STATE list \<Rightarrow> nat set list" where
  "state_sets ds = map (\<lambda>p. members (d_set p)) ds"

definition goto_ok :: "NFA list \<Rightarrow> nat set list \<Rightarrow> nat \<Rightarrow> nat \<Rightarrow> int \<Rightarrow> bool" where
  "goto_ok nfa ss i c t \<longleftrightarrow>
     (if char_step nfa (ss ! i) c = {} then t = DFA_F
      else 0 \<le> t \<and> t < int (length ss) \<and> ss ! nat t = eps_closure nfa (char_step nfa (ss ! i) c))"

text \<open>
  \<open>m\<close> states are marked, and the entries of the table that satisfy \<open>P\<close> are filled in.
\<close>

definition dtab_inv ::
  "NFA list \<Rightarrow> nat \<Rightarrow> nat \<Rightarrow> (nat \<Rightarrow> nat \<Rightarrow> bool) \<Rightarrow> dfa_env \<Rightarrow> bool" where
  "dtab_inv nfa start m P env \<longleftrightarrow>
     (let ds = dstates env; ss = state_sets ds in
        ds \<noteq> [] \<and> length ds \<le> DFA_MAX \<and> m \<le> length ds \<and>
        length (dtran env) = DFA_MAX \<and> (\<forall>r\<in>set (dtran env). length r = MAX_CHARS) \<and>
        ss ! 0 = eps_closure nfa {start} \<and> distinct ss \<and>
        (\<forall>p\<in>set ds. good_dstate nfa start p) \<and>
        (\<forall>i<length ds. mark (ds ! i) \<longleftrightarrow> i < m) \<and>
        (\<forall>i<length ds. \<forall>c<MAX_CHARS. P i c \<longrightarrow> goto_ok nfa ss i c (dtran env ! i ! c)))"

lemma length_state_sets [simp]: "length (state_sets ds) = length ds"
  by (simp add: state_sets_def)

lemma nth_state_sets [simp]: "i < length ds \<Longrightarrow> state_sets ds ! i = members (d_set (ds ! i))"
  by (simp add: state_sets_def)

lemma state_sets_append [simp]: "state_sets (xs @ ys) = state_sets xs @ state_sets ys"
  by (simp add: state_sets_def)

lemma goto_ok_append: "i < length ss \<Longrightarrow> goto_ok nfa ss i c t \<Longrightarrow> goto_ok nfa (ss @ ss') i c t"
  by (simp add: goto_ok_def nth_append nat_less_iff split: if_split_asm)

lemma find_state_cases:
  obtains (found) i where "i < length ds" and "find_state s ds k = int (k + i)"
      and "members (d_set (ds ! i)) = members s"
  | (new) "find_state s ds k = - 1" and "members s \<notin> set (state_sets ds)"
proof (induction ds arbitrary: k thesis)
  case Nil
  then show ?case by (simp add: state_sets_def)
next
  case (Cons p ds)
  show ?case
  proof (cases "SET_IS_EQUIV s (d_set p)")
    case True
    then show ?thesis using Cons.prems(1) [of 0] by simp
  next
    case False
    show ?thesis
    proof (rule Cons.IH [of "Suc k"])
      fix i assume "i < length ds" "find_state s ds (Suc k) = int (Suc k + i)"
        "members (d_set (ds ! i)) = members s"
      then show ?thesis using Cons.prems(1) [of "Suc i"] False by simp
    next
      assume "find_state s ds (Suc k) = - 1" "members s \<notin> set (state_sets ds)"
      then show ?thesis using Cons.prems(2) False by (simp add: state_sets_def)
    qed
  qed
qed

lemma set_tran_simps:
  "length (set_tran t k c v) = length t"
  "i < length t \<Longrightarrow> set_tran t k c v ! i = (if i = k then (t ! i)[c := v] else t ! i)"
  by (auto simp: set_tran_def)

lemma set_tran_rows:
  "k < length t \<Longrightarrow> \<forall>r\<in>set t. length r = n \<Longrightarrow> \<forall>r\<in>set (set_tran t k c v). length r = n"
  unfolding set_tran_def by (auto dest!: subsetD [OF set_update_subset_insert])

lemma dtab_inv_fill:
  assumes inv: "dtab_inv nfa start m P env" and k: "k < length (dstates env)" and c: "c < MAX_CHARS"
    and ok: "goto_ok nfa (state_sets (dstates env)) k c v"
  shows "dtab_inv nfa start m (\<lambda>i d. P i d \<or> i = k \<and> d = c)
    (env\<lparr>isaccept := a, tr_anchor := b, dtran := set_tran (dtran env) k c v\<rparr>)"
proof -
  have len: "length (dtran env) = DFA_MAX" "length (dstates env) \<le> DFA_MAX"
    and rows: "\<forall>r\<in>set (dtran env). length r = MAX_CHARS"
    using inv by (simp_all add: dtab_inv_def Let_def)
  have "length (dtran env ! k) = MAX_CHARS" using rows len k by (auto simp: all_set_conv_all_nth)
  moreover have "\<forall>r\<in>set (set_tran (dtran env) k c v). length r = MAX_CHARS"
    using len k by (intro set_tran_rows rows) simp
  ultimately show ?thesis
    using inv k c ok len unfolding dtab_inv_def Let_def
    by (auto simp: set_tran_simps nth_list_update_if)
qed

lemma dtab_inv_add:
  assumes inv: "dtab_inv nfa start m P env" and room: "length (dstates env) < DFA_MAX"
    and new: "members (d_set p) \<notin> set (state_sets (dstates env))"
    and p: "good_dstate nfa start p" "\<not> mark p"
    and P: "\<And>i c. i \<ge> length (dstates env) \<Longrightarrow> \<not> P i c"
  shows "dtab_inv nfa start m P (env\<lparr>dstates := dstates env @ [p]\<rparr>)"
proof -
  have "state_sets [p] = [members (d_set p)]" by (simp add: state_sets_def)
  then show ?thesis
    using assms unfolding dtab_inv_def Let_def
    by (auto simp: nth_append less_Suc_eq goto_ok_append)
qed

lemma card_new_set:
  assumes "finite R" and "distinct ss" and "set ss \<subseteq> R" and "S \<in> R" and "S \<notin> set ss"
  shows "length ss < card R"
proof -
  have "card (insert S (set ss)) \<le> card R" using assms by (intro card_mono) auto
  then show ?thesis using assms by (simp add: distinct_card)
qed

lemma state_sets_reach:
  "dtab_inv nfa start m P env \<Longrightarrow> set (state_sets (dstates env)) \<subseteq> reach_sets nfa start"
  by (auto simp: dtab_inv_def Let_def state_sets_def good_dstate_def)

lemma win_anchor_cong: "win_accept nfa P \<noteq> None \<Longrightarrow> win_anchor nfa a P = win_anchor nfa b P"
  by (auto simp: win_accept_def win_anchor_def split: option.splits)

lemma trans_char_effect:
  assumes wf: "wf_nfa nfa" "start < length nfa" and inv: "dtab_inv nfa start m P env"
    and k: "k < length (dstates env)" and c: "c < MAX_CHARS"
    and P: "\<And>i c. i \<ge> length (dstates env) \<Longrightarrow> \<not> P i c"
  shows "(\<exists>env'. trans_char nfa k c env = Some (Inr env') \<and>
      dtab_inv nfa start m (\<lambda>i d. P i d \<or> i = k \<and> d = c) env' \<and>
      length (dstates env) \<le> length (dstates env')) \<or>
    (trans_char nfa k c env = Some (Inl Ferr) \<and> DFA_MAX < card (reach_sets nfa start))"
proof -
  let ?ds = "dstates env" and ?s = "d_set (dstates env ! k)"
  let ?T = "char_step nfa (members ?s) c"
  have ok: "state_set nfa ?s" and reach: "members ?s \<in> reach_sets nfa start"
    using inv k by (auto simp: dtab_inv_def Let_def good_dstate_def)
  show ?thesis
  proof (rule eng.subset_step [OF wf(1) ok, where x = c and a = "isaccept env" and c = "tr_anchor env"])
    assume T: "?T = {}" and mv: "move nfa ?s c = Inr None"
    have "goto_ok nfa (state_sets ?ds) k c DFA_F" using T k by (simp add: goto_ok_def)
    from dtab_inv_fill [OF inv k c this, where a = "isaccept env" and b = "tr_anchor env"]
    show ?thesis by (simp add: trans_char_def mv)
  next
    fix t t'
    assume T: "?T \<noteq> {}" and mv: "move nfa ?s c = Inr (Some t)"
      and cl: "e_closure nfa (Some t) (isaccept env) (tr_anchor env) =
        Some (Inr (Some t', win_accept nfa (members t'), win_anchor nfa (tr_anchor env) (members t')))"
      and t': "state_set nfa t'" "members t' = eps_closure nfa ?T"
    let ?a = "win_accept nfa (members t')" and ?b = "win_anchor nfa (tr_anchor env) (members t')"
    have reach': "members t' \<in> reach_sets nfa start"
      using reach_sets_step [OF reach c T] t'(2) by simp
    show ?thesis
    proof (rule find_state_cases [of ?ds t' 0])
      fix i
      assume i: "i < length ?ds" "find_state t' ?ds 0 = int (0 + i)"
        "members (d_set (?ds ! i)) = members t'"
      then have "goto_ok nfa (state_sets ?ds) k c (int i)" using T k t'(2) by (simp add: goto_ok_def)
      from dtab_inv_fill [OF inv k c this, where a = ?a and b = ?b] i
      show ?thesis by (simp add: trans_char_def mv cl in_dstates_def)
    next
      assume new: "find_state t' ?ds 0 = - 1" "members t' \<notin> set (state_sets ?ds)"
      show ?thesis
      proof (cases "length ?ds < DFA_MAX")
        case False
        then have "length (state_sets ?ds) = DFA_MAX" using inv by (simp add: dtab_inv_def Let_def)
        moreover have "length (state_sets ?ds) < card (reach_sets nfa start)"
          using inv by (intro card_new_set [OF finite_reach_sets [OF wf] _ state_sets_reach [OF inv] reach' new(2)])
            (simp add: dtab_inv_def Let_def)
        ultimately show ?thesis using False new
          by (simp add: trans_char_def mv cl in_dstates_def add_to_dstates_def DFA_MAX_def)
      next
        case True
        let ?p = "\<lparr>group = 0, mark = False, d_accept = ?a, d_anchor = ?b, d_set = t'\<rparr>"
        have good: "good_dstate nfa start ?p"
          using t'(1) reach' win_anchor_cong by (auto simp: good_dstate_def)
        have inv1: "dtab_inv nfa start m P (env\<lparr>dstates := ?ds @ [?p]\<rparr>)"
          using dtab_inv_add [OF inv True _ good _ P] new(2) by simp
        have "goto_ok nfa (state_sets (?ds @ [?p])) k c (int (length ?ds))"
          using T k t'(2) by (simp add: goto_ok_def nth_append state_sets_def)
        from dtab_inv_fill [OF inv1 _ c, where k = k and v = "int (length ?ds)" and a = ?a and b = ?b] this k
        have "dtab_inv nfa start m (\<lambda>i d. P i d \<or> i = k \<and> d = c)
            (env\<lparr>isaccept := ?a, tr_anchor := ?b, dstates := ?ds @ [?p],
               dtran := set_tran (dtran env) k c (int (length ?ds))\<rparr>)"
          by (cases env) simp
        then show ?thesis using True new
          by (simp add: trans_char_def mv cl in_dstates_def add_to_dstates_def DFA_MAX_def)
      qed
    qed
  qed
qed

definition row_done :: "nat \<Rightarrow> nat \<Rightarrow> nat \<Rightarrow> nat \<Rightarrow> bool" where
  "row_done k n i c \<longleftrightarrow> i < k \<or> i = k \<and> n \<le> c"

lemma trans_row_effect:
  assumes wf: "wf_nfa nfa" "start < length nfa" and "dtab_inv nfa start m (row_done k n) env"
    and "k < length (dstates env)" and "n \<le> MAX_CHARS"
  shows "(\<exists>env'. trans_row nfa k n env = Some (Inr env') \<and>
      dtab_inv nfa start m (row_done k 0) env' \<and> k < length (dstates env')) \<or>
    (trans_row nfa k n env = Some (Inl Ferr) \<and> DFA_MAX < card (reach_sets nfa start))"
  using assms(3-5)
proof (induction n arbitrary: env)
  case 0
  then show ?case by simp
next
  case (Suc n)
  have eq: "(\<lambda>i d. row_done k (Suc n) i d \<or> i = k \<and> d = n) = row_done k n"
    by (auto simp: row_done_def fun_eq_iff)
  have "\<And>i c. i \<ge> length (dstates env) \<Longrightarrow> \<not> row_done k (Suc n) i c"
    using Suc.prems(2) by (simp add: row_done_def)
  from trans_char_effect [OF wf Suc.prems(1,2) _ this, of n] Suc.prems(3)
  consider (ok) env' where "trans_char nfa k n env = Some (Inr env')"
      "dtab_inv nfa start m (row_done k n) env'" "length (dstates env) \<le> length (dstates env')"
    | (full) "trans_char nfa k n env = Some (Inl Ferr)" "DFA_MAX < card (reach_sets nfa start)"
    by (auto simp: eq)
  then show ?case
  proof cases
    case ok
    with Suc.prems Suc.IH [of env'] show ?thesis by simp
  next
    case full
    then show ?thesis by simp
  qed
qed

lemma dtab_inv_weaken:
  assumes "dtab_inv nfa start m P env" and "\<And>i c. c < MAX_CHARS \<Longrightarrow> Q i c \<Longrightarrow> P i c"
  shows "dtab_inv nfa start m Q env"
  using assms by (simp add: dtab_inv_def Let_def)

lemma get_unmarked_eq:
  assumes "\<forall>i<length ds. mark (ds ! i) \<longleftrightarrow> i < m" and "lm \<le> m" and "m \<le> length ds"
  shows "get_unmarked ds lm = m"
  using assms
proof (induction ds lm rule: get_unmarked.induct)
  case (1 ds lm)
  then show ?case by (cases "lm = m") (auto simp: get_unmarked.simps [of ds lm] get_unmarked.simps [of ds m])
qed

lemma state_sets_mark: "state_sets (ds[k := (ds ! k)\<lparr>mark := b\<rparr>]) = state_sets ds"
proof (rule nth_equalityI)
  fix i assume "i < length (state_sets (ds[k := (ds ! k)\<lparr>mark := b\<rparr>]))"
  then show "state_sets (ds[k := (ds ! k)\<lparr>mark := b\<rparr>]) ! i = state_sets ds ! i"
    by (simp add: state_sets_def nth_list_update_if)
qed simp

lemma set_mark_inv:
  assumes inv: "dtab_inv nfa start m P env" and m: "m < length (dstates env)"
  shows "dtab_inv nfa start (Suc m) P (set_mark m env)"
proof -
  have good: "\<forall>p\<in>set (dstates env). good_dstate nfa start p"
    using inv by (simp add: dtab_inv_def Let_def)
  then have "good_dstate nfa start ((dstates env ! m)\<lparr>mark := True\<rparr>)"
    using m by (simp add: good_dstate_def)
  with good have "\<forall>p\<in>set ((dstates env)[m := (dstates env ! m)\<lparr>mark := True\<rparr>]). good_dstate nfa start p"
    using set_update_subset_insert [of "dstates env" m] by blast
  then show ?thesis
    using inv m unfolding dtab_inv_def Let_def
    by (simp add: set_mark_def state_sets_mark nth_list_update_if less_Suc_eq)
qed

lemma make_loop_effect:
  assumes wf: "wf_nfa nfa" "start < length nfa"
    and "dtab_inv nfa start m (\<lambda>i c. i < m) env" and "lm \<le> m"
  shows "(\<exists>env' n. make_loop nfa lm env = Some (Inr env') \<and> n = length (dstates env') \<and>
      dtab_inv nfa start n (\<lambda>i c. i < n) env') \<or>
    (make_loop nfa lm env = Some (Inl Ferr) \<and> DFA_MAX < card (reach_sets nfa start))"
  using assms(3,4)
proof (induction "DFA_MAX - m" arbitrary: m lm env rule: less_induct)
  case less
  let ?ds = "dstates env"
  have lens: "m \<le> length ?ds" "length ?ds \<le> DFA_MAX"
    and marks: "\<forall>i<length ?ds. mark (?ds ! i) \<longleftrightarrow> i < m"
    using less.prems(1) by (simp_all add: dtab_inv_def Let_def)
  have cur: "get_unmarked ?ds lm = m" by (rule get_unmarked_eq [OF marks less.prems(2) lens(1)])
  show ?case
  proof (cases "m < length ?ds")
    case False
    then show ?thesis using less.prems lens by (simp add: make_loop.simps [of nfa lm env] cur)
  next
    case True
    have "dtab_inv nfa start m (row_done m MAX_CHARS) env"
      by (rule dtab_inv_weaken [OF less.prems(1)]) (auto simp: row_done_def)
    from set_mark_inv [OF this True]
    have "dtab_inv nfa start (Suc m) (row_done m MAX_CHARS) (set_mark m env)" .
    moreover have "m < length (dstates (set_mark m env))" using True by (simp add: set_mark_def)
    ultimately consider (ok) env1 where "trans_row nfa m MAX_CHARS (set_mark m env) = Some (Inr env1)"
        "dtab_inv nfa start (Suc m) (row_done m 0) env1"
      | (full) "trans_row nfa m MAX_CHARS (set_mark m env) = Some (Inl Ferr)"
        "DFA_MAX < card (reach_sets nfa start)"
      using trans_row_effect [OF wf, of "Suc m" m MAX_CHARS "set_mark m env"] by auto
    then show ?thesis
    proof cases
      case ok
      have "dtab_inv nfa start (Suc m) (\<lambda>i c. i < Suc m) env1"
        by (rule dtab_inv_weaken [OF ok(2)]) (auto simp: row_done_def)
      with less.hyps [of "Suc m" env1 m] True lens
      show ?thesis by (simp add: make_loop.simps [of nfa lm env] cur ok(1))
    next
      case full
      then show ?thesis using True by (simp add: make_loop.simps [of nfa lm env] cur)
    qed
  qed
qed

lemma make_trans_effect:
  assumes wf: "wf_nfa nfa" "start < length nfa"
  shows "(\<exists>env' n. make_trans nfa start a0 k0 = Some (Inr env') \<and> n = length (dstates env') \<and>
      dtab_inv nfa start n (\<lambda>i c. i < n) env') \<or>
    (make_trans nfa start a0 k0 = Some (Inl Ferr) \<and> DFA_MAX < card (reach_sets nfa start))"
proof -
  have s: "state_set nfa (SET_ADD set_new start)" "members (SET_ADD set_new start) = {start}"
    using wf state_set_ADD [OF wf(1) _ wf(2), of set_new] by (simp_all add: state_set_def)
  let ?P = "eps_closure nfa {start}"
  obtain s' where s': "e_closure nfa (Some (SET_ADD set_new start)) None 0 =
      Some (Inr (Some s', win_accept nfa ?P, win_anchor nfa 0 ?P))"
    "state_set nfa s'" "members s' = ?P"
    using e_closure_correct [OF wf(1) s(1), of None 0] unfolding s(2) by blast
  let ?p = "\<lparr>group = 0, mark = False, d_accept = win_accept nfa ?P,
    d_anchor = win_anchor nfa 0 ?P, d_set = s'\<rparr>"
  let ?env = "\<lparr>dstates = [?p], dtran = replicate DFA_MAX (replicate MAX_CHARS 0),
    isaccept = a0, tr_anchor = k0\<rparr>"
  have "good_dstate nfa start ?p"
    using s'(2,3) reach_sets_start by (simp add: good_dstate_def)
  then have "dtab_inv nfa start 0 (\<lambda>i c. i < 0) ?env"
    using s'(3) by (simp add: dtab_inv_def state_sets_def DFA_MAX_def)
  from make_loop_effect [OF wf this, of 0] show ?thesis
    by (simp add: make_trans_def s'(1))
qed

section \<open>The finished table\<close>

lemma dtab_inv_run:
  assumes inv: "dtab_inv nfa start n (\<lambda>i c. i < n) env" and n: "n = length (dstates env)"
    and w: "char_string w"
  shows "let q = dfa_run (dtran env) 0 w; S = nfa_states nfa start w in
    if S = {} then q = DFA_F
    else 0 \<le> q \<and> q < int n \<and> members (d_set (dstates env ! nat q)) = S"
  using w
proof (induction w rule: rev_induct)
  case Nil
  have "eps_closure nfa {start} \<noteq> {}" using eps_closure_extensive [of "{start}" nfa] by auto
  moreover have "0 < n" "members (d_set (dstates env ! 0)) = eps_closure nfa {start}"
    using inv n by (auto simp: dtab_inv_def Let_def)
  ultimately show ?case by (simp add: Let_def)
next
  case (snoc c w)
  let ?q = "dfa_run (dtran env) 0 w" and ?S = "nfa_states nfa start w"
  show ?case
  proof (cases "?S = {}")
    case True
    with snoc show ?thesis by (simp add: Let_def)
  next
    case False
    with snoc have q: "0 \<le> ?q" "?q < int n" "members (d_set (dstates env ! nat ?q)) = ?S"
      by (simp_all add: Let_def)
    then have "nat ?q < length (dstates env)" using n by (simp add: nat_less_iff)
    moreover from this have "goto_ok nfa (state_sets (dstates env)) (nat ?q) c (dtran env ! nat ?q ! c)"
      using inv snoc.prems n by (simp add: dtab_inv_def Let_def)
    moreover have "eps_closure nfa T \<noteq> {}" if "T \<noteq> {}" for T
      using that eps_closure_extensive [of T nfa] by auto
    ultimately show ?thesis using q n
      by (auto simp: goto_ok_def dfa_step_def Let_def nat_less_iff DFA_F_def split: if_splits)
  qed
qed

lemma dtab_inv_sets:
  assumes inv: "dtab_inv nfa start n (\<lambda>i c. i < n) env" and n: "n = length (dstates env)"
  shows "set (state_sets (dstates env)) = reach_sets nfa start" and "card (reach_sets nfa start) = n"
proof -
  have "S \<in> set (state_sets (dstates env))" if S: "S \<in> reach_sets nfa start" for S
  proof -
    obtain w where "S = nfa_states nfa start w" "char_string w" "S \<noteq> {}"
      using S unfolding reach_sets_def by blast
    with dtab_inv_run [OF inv n, of w] n show ?thesis
      by (auto simp: Let_def state_sets_def nat_less_iff intro!: imageI nth_mem)
  qed
  with state_sets_reach [OF inv] show eq: "set (state_sets (dstates env)) = reach_sets nfa start"
    by auto
  have "distinct (state_sets (dstates env))" using inv by (simp add: dtab_inv_def Let_def)
  with eq n show "card (reach_sets nfa start) = n" using distinct_card by fastforce
qed

lemma dtab_inv_take_run:
  assumes inv: "dtab_inv nfa start n (\<lambda>i c. i < n) env" and n: "n = length (dstates env)"
    and w: "char_string w"
  shows "dfa_run (take n (dtran env)) 0 w = dfa_run (dtran env) 0 w"
  using w
proof (induction w rule: rev_induct)
  case (snoc c w)
  then have "dfa_run (dtran env) 0 w = DFA_F \<or> nat (dfa_run (dtran env) 0 w) < n"
    using dtab_inv_run [OF inv n, of w] by (auto simp: Let_def nat_less_iff split: if_splits)
  with snoc show ?case by (auto simp: dfa_step_def)
qed simp

lemma dtab_inv_wf_table:
  assumes inv: "dtab_inv nfa start n (\<lambda>i c. i < n) env" and n: "n = length (dstates env)"
  shows "wf_table n (take n (dtran env))"
proof -
  have len: "length (dtran env) = DFA_MAX" "n \<le> DFA_MAX"
    and rows: "\<forall>r\<in>set (dtran env). length r = MAX_CHARS"
    and gt: "\<And>i c. i < n \<Longrightarrow> c < MAX_CHARS \<Longrightarrow>
      goto_ok nfa (state_sets (dstates env)) i c (dtran env ! i ! c)"
    using inv n by (simp_all add: dtab_inv_def Let_def)
  have "dtran env ! i ! c = DFA_F \<or> 0 \<le> dtran env ! i ! c \<and> dtran env ! i ! c < int n"
    if "i < n" "c < MAX_CHARS" for i c
    using gt [OF that] n by (simp add: goto_ok_def split: if_splits)
  then show ?thesis using len rows by (simp add: wf_table_def)
qed

text \<open>What it means that a table reads a string as the nondeterministic automaton does.\<close>

definition reads_as_nfa ::
  "NFA list \<Rightarrow> nat \<Rightarrow> int list list \<Rightarrow> ACCEPT list \<Rightarrow> nat list \<Rightarrow> bool" where
  "reads_as_nfa nfa start t accs w \<longleftrightarrow>
     (let q = dfa_run t 0 w; S = nfa_states nfa start w in
        if S = {} then q = DFA_F
        else 0 \<le> q \<and> q < int (length accs) \<and>
          acc_string (accs ! nat q) = win_accept nfa S \<and>
          (win_accept nfa S \<noteq> None \<longrightarrow> acc_anchor (accs ! nat q) = win_anchor nfa 0 S))"

lemma dtab_inv_reads:
  assumes inv: "dtab_inv nfa start n (\<lambda>i c. i < n) env" and n: "n = length (dstates env)"
    and w: "char_string w"
  shows "reads_as_nfa nfa start (take n (dtran env))
    (map (\<lambda>p. \<lparr>acc_string = d_accept p, acc_anchor = d_anchor p\<rparr>) (dstates env)) w"
proof (cases "nfa_states nfa start w = {}")
  case True
  with dtab_inv_run [OF inv n w] dtab_inv_take_run [OF inv n w] show ?thesis
    by (simp add: reads_as_nfa_def Let_def)
next
  case False
  let ?q = "dfa_run (dtran env) 0 w"
  from False dtab_inv_run [OF inv n w] have q: "0 \<le> ?q" "?q < int n"
    "members (d_set (dstates env ! nat ?q)) = nfa_states nfa start w"
    by (simp_all add: Let_def)
  then have less: "nat ?q < length (dstates env)" using n by (simp add: nat_less_iff)
  then have "good_dstate nfa start (dstates env ! nat ?q)"
    using inv by (simp add: dtab_inv_def Let_def)
  then show ?thesis
    using False q less n dtab_inv_take_run [OF inv n w]
    by (simp add: reads_as_nfa_def Let_def good_dstate_def)
qed

section \<open>Properties\<close>

lemma dfa_result:
  assumes "wf_nfa nfa" and "start < length nfa"
  shows "if DFA_MAX < card (reach_sets nfa start) then dfa nfa start a0 k0 = Some (Inl Ferr)
    else \<exists>t accs. dfa nfa start a0 k0 = Some (Inr (t, accs)) \<and>
      length accs = card (reach_sets nfa start) \<and> wf_table (length accs) t \<and>
      (\<forall>w. char_string w \<longrightarrow> reads_as_nfa nfa start t accs w)"
  using make_trans_effect [OF assms, of a0 k0]
proof (elim disjE exE conjE)
  fix env n
  assume mt: "make_trans nfa start a0 k0 = Some (Inr env)" and n: "n = length (dstates env)"
    and inv: "dtab_inv nfa start n (\<lambda>i c. i < n) env"
  have "card (reach_sets nfa start) = n" by (rule dtab_inv_sets(2) [OF inv n])
  moreover have "n \<le> DFA_MAX" using inv n by (simp add: dtab_inv_def Let_def)
  ultimately show ?thesis
    using dtab_inv_wf_table [OF inv n] dtab_inv_reads [OF inv n] n
    by (simp add: dfa_def mt)
qed (simp add: dfa_def)

text \<open>C12.
  The subset construction returns for every well-formed automaton.  If more than
  \<open>DFA_MAX\<close> nonempty state sets are reachable it ends in the message of \<open>add_to_dstates\<close>;
  otherwise it delivers a table with one state for each of these sets, all entries in
  range, that reads every string as the nondeterministic automaton does: it fails exactly
  when no state is left, and it accepts with the string and the anchor of the winning
  state.  Neither the overflow of the closure's stack nor a null pointer is met, and the
  uninitialised locals of \<open>make_trans\<close> have no influence.
\<close>

theorem dfa_subset_construction:
  assumes "wf_nfa nfa" and "start < length nfa"
  shows "if DFA_MAX < card (reach_sets nfa start) then dfa nfa start a0 k0 = Some (Inl Ferr)
    else \<exists>t accs. dfa nfa start a0 k0 = Some (Inr (t, accs)) \<and>
      length accs = card (reach_sets nfa start) \<and> wf_table (length accs) t \<and>
      (\<forall>w. char_string w \<longrightarrow> reads_as_nfa nfa start t accs w)"
  using dfa_result [OF assms] .

lemma demo_reach_card: "card (reach_sets demo_nfa 0) \<le> DFA_MAX"
proof -
  have "reach_sets demo_nfa 0 \<subseteq> Pow {..<5}"
    using nfa_states_less [OF wf_demo_nfa, of 0] by (auto simp: reach_sets_def length_demo_nfa)
  then have "card (reach_sets demo_nfa 0) \<le> card (Pow {..<5::nat})" by (intro card_mono) simp_all
  then show ?thesis by (simp add: card_Pow DFA_MAX_def)
qed

theorem dfa_subset_construction_witness:
  "\<exists>t accs. dfa demo_nfa 0 None 5 = Some (Inr (t, accs)) \<and> reads_as_nfa demo_nfa 0 t accs [97]"
  using dfa_subset_construction [OF wf_demo_nfa, of 0 None 5] demo_reach_card
  by (auto simp: length_demo_nfa MAX_CHARS_def)

end
