(* ===== verification/MinDfa.thy ===== *)
theory MinDfa
  imports Dfa
begin

text \<open>
  Minimisation of the table, \<open>src/compiler/lex/mindfa.c\<close>.  The static variables \<open>_groups\<close>,
  \<open>_ngroups\<close>, \<open>_ingroup\<close> and the state of \<open>set_next_member\<close> are the record \<open>min_env\<close>; the
  list \<open>groups\<close> holds the first \<open>_ngroups\<close> sets, and the address of a set is its position.
\<close>

section \<open>Operations\<close>

record min_env =
  groups :: "SET_S list"
  ingroup :: "nat list"
  iter :: set_iter

text \<open>The inner loop of \<open>init_groups\<close>: the last state below \<open>i\<close> with the same string.\<close>

fun find_match :: "ACCEPT list \<Rightarrow> nat \<Rightarrow> nat \<Rightarrow> nat option" where
  "find_match accs i 0 = None"
| "find_match accs i (Suc j) =
     (if acc_string (accs ! i) = acc_string (accs ! j) then Some j else find_match accs i j)"

definition init_state :: "ACCEPT list \<Rightarrow> nat \<Rightarrow> min_env \<Rightarrow> min_env res" where
  "init_state accs i env =
     (case find_match accs i i of
        Some j \<Rightarrow>
          (let g = ingroup env ! j
           in Inr (env\<lparr>groups := (groups env)[g := SET_ADD (groups env ! g) i],
                       ingroup := (ingroup env)[i := g]\<rparr>))
      | None \<Rightarrow>
          if DFA_MAX \<le> length (groups env) then Inl Overflow
          else Inr (env\<lparr>groups := groups env @ [SET_ADD set_new i],
                        ingroup := (ingroup env)[i := length (groups env)]\<rparr>))"

fun init_loop :: "ACCEPT list \<Rightarrow> nat list \<Rightarrow> min_env \<Rightarrow> min_env res" where
  "init_loop accs [] env = Inr env"
| "init_loop accs (i # is) env = bind_res (init_state accs i env) (init_loop accs is)"

definition init_groups :: "nat \<Rightarrow> ACCEPT list \<Rightarrow> min_env \<Rightarrow> min_env res" where
  "init_groups nstates accs env = init_loop accs [0..<nstates] (env\<lparr>groups := []\<rparr>)"

text \<open>The loop over the characters that compares two states of a group.\<close>

fun differ :: "int list list \<Rightarrow> nat list \<Rightarrow> nat \<Rightarrow> nat \<Rightarrow> nat \<Rightarrow> bool" where
  "differ t ing i j 0 = False"
| "differ t ing i j (Suc c) =
     (let goto_first = t ! i ! c; goto_next = t ! j ! c
      in if goto_first \<noteq> goto_next \<and>
            (goto_first = DFA_F \<or> goto_next = DFA_F \<or>
             ing ! nat goto_first \<noteq> ing ! nat goto_next)
         then True else differ t ing i j c)"

partial_function (option) split_loop ::
  "int list list \<Rightarrow> nat \<Rightarrow> nat \<Rightarrow> nat \<Rightarrow> set_iter \<Rightarrow> SET_S \<Rightarrow> SET_S \<Rightarrow> nat list
   \<Rightarrow> (SET_S \<times> SET_S \<times> nat list \<times> set_iter) option" where
  "split_loop t a ng first st current new ing =
     (case set_next_member st (Some (a, current)) of (i, st') \<Rightarrow>
        if 0 \<le> i
        then (if differ t ing first (nat i) MAX_CHARS
              then split_loop t a ng first st' (SET_REMOVE current (nat i))
                     (SET_ADD new (nat i)) (ing[nat i := ng])
              else split_loop t a ng first st' current new ing)
        else Some (current, new, ing, st'))"

definition split_group :: "int list list \<Rightarrow> nat \<Rightarrow> min_env \<Rightarrow> min_env res option" where
  "split_group t g env =
     (let current = groups env ! g; ng = length (groups env)
      in if set_num_ele (Some current) \<le> 1 then Some (Inr env)
         else if DFA_MAX \<le> ng then Some (Inl Overflow)
         else (case set_next_member (snd (set_next_member (iter env) None)) (Some (g, current)) of
                 (first, st) \<Rightarrow>
                   (case split_loop t g ng (nat first) st current set_new (ingroup env) of
                      None \<Rightarrow> None
                    | Some (current', new, ing, st') \<Rightarrow>
                        Some (Inr \<lparr>groups = (groups env)[g := current'] @
                                     (if \<not> SET_IS_EMPTY new then [new] else []),
                                   ingroup = ing, iter = st'\<rparr>))))"

partial_function (option) pass_loop ::
  "int list list \<Rightarrow> nat \<Rightarrow> min_env \<Rightarrow> min_env res option" where
  "pass_loop t g env =
     (if g < length (groups env)
      then (case split_group t g env of
              None \<Rightarrow> None
            | Some (Inl e) \<Rightarrow> Some (Inl e)
            | Some (Inr env') \<Rightarrow> pass_loop t (Suc g) env')
      else Some (Inr env))"

partial_function (option) refine_loop :: "int list list \<Rightarrow> min_env \<Rightarrow> min_env res option" where
  "refine_loop t env =
     (case pass_loop t 0 env of
        None \<Rightarrow> None
      | Some (Inl e) \<Rightarrow> Some (Inl e)
      | Some (Inr env') \<Rightarrow>
          if length (groups env) \<noteq> length (groups env') then refine_loop t env'
          else Some (Inr env'))"

text \<open>\<open>fix_dtran\<close>: one row per group, read off the first state of the group.\<close>

definition fix_row :: "nat list \<Rightarrow> int list \<Rightarrow> int list" where
  "fix_row ing src = map (\<lambda>v. if v = DFA_F then DFA_F else int (ing ! nat v)) (take MAX_CHARS src)"

fun fix_loop ::
  "int list list \<Rightarrow> ACCEPT list \<Rightarrow> nat list \<Rightarrow> nat \<Rightarrow> SET_S list \<Rightarrow> set_iter
   \<Rightarrow> int list list \<times> ACCEPT list" where
  "fix_loop t accs ing g [] st = ([], [])"
| "fix_loop t accs ing g (s # ss) st =
     (let (state, st') = set_next_member st (Some (g, s));
          (rows, accs') = fix_loop t accs ing (Suc g) ss st'
      in (fix_row ing (t ! nat state) # rows, accs ! nat state # accs'))"

definition fix_dtran ::
  "int list list \<Rightarrow> ACCEPT list \<Rightarrow> min_env \<Rightarrow> int list list \<times> ACCEPT list" where
  "fix_dtran t accs env =
     fix_loop t accs (ingroup env) 0 (groups env) (snd (set_next_member (iter env) None))"

definition minimize ::
  "nat \<Rightarrow> int list list \<Rightarrow> ACCEPT list \<Rightarrow> min_env \<Rightarrow> (int list list \<times> ACCEPT list) res option" where
  "minimize nstates t accs env0 =
     (case init_groups nstates accs env0 of
        Inl e \<Rightarrow> Some (Inl e)
      | Inr env \<Rightarrow>
          map_option (map_sum id (fix_dtran t accs)) (refine_loop t env))"

text \<open>\<open>min_dfa\<close>, on the automaton that the parser has built; \<open>st\<close> is the state \<open>set_next_member\<close> is in.\<close>

definition min_dfa ::
  "NFA list \<Rightarrow> nat \<Rightarrow> nat option \<Rightarrow> int \<Rightarrow> set_iter
   \<Rightarrow> (int list list \<times> ACCEPT list) res option" where
  "min_dfa nfa start a0 k0 st =
     (case dfa nfa start a0 k0 of
        None \<Rightarrow> None
      | Some (Inl e) \<Rightarrow> Some (Inl e)
      | Some (Inr (t, accs)) \<Rightarrow>
          minimize (length accs) t accs
            \<lparr>groups = [], ingroup = replicate DFA_MAX 0, iter = st\<rparr>)"

section \<open>Splitting a group\<close>

text \<open>Two states have the same transitions up to the grouping.\<close>

definition agree :: "int list list \<Rightarrow> nat list \<Rightarrow> nat \<Rightarrow> nat \<Rightarrow> bool" where
  "agree t ing i j \<longleftrightarrow> (\<forall>c<MAX_CHARS. t ! i ! c = t ! j ! c \<or>
     t ! i ! c \<noteq> DFA_F \<and> t ! j ! c \<noteq> DFA_F \<and> ing ! nat (t ! i ! c) = ing ! nat (t ! j ! c))"

lemma differ_iff:
  "differ t ing i j n \<longleftrightarrow> (\<exists>c<n. t ! i ! c \<noteq> t ! j ! c \<and>
     (t ! i ! c = DFA_F \<or> t ! j ! c = DFA_F \<or> ing ! nat (t ! i ! c) \<noteq> ing ! nat (t ! j ! c)))"
  by (induction n) (auto simp: Let_def less_Suc_eq)

lemma differ_agree: "differ t ing i j MAX_CHARS \<longleftrightarrow> \<not> agree t ing i j"
  by (auto simp: differ_iff agree_def)

lemma agree_refl [simp]: "agree t ing i i"
  by (simp add: agree_def)

lemma agree_sym: "agree t ing i j \<Longrightarrow> agree t ing j i"
  by (auto simp: agree_def)

lemma agree_trans: "agree t ing i j \<Longrightarrow> agree t ing j k \<Longrightarrow> agree t ing i k"
  unfolding agree_def by metis

lemma set_next_member_reset [simp]: "snd (set_next_member st None) = st\<lparr>lastSet := None, reads := 0\<rparr>"
  by (simp add: set_next_member_def)

text \<open>The list of group numbers after the states of \<open>M\<close> have moved to group \<open>g\<close>.\<close>

definition moved :: "nat set \<Rightarrow> nat \<Rightarrow> nat list \<Rightarrow> nat list \<Rightarrow> bool" where
  "moved M g ing ing' \<longleftrightarrow> length ing' = length ing \<and>
     (\<forall>i<length ing. ing' ! i = (if i \<in> M then g else ing ! i))"

lemma moved_empty [simp]: "moved {} g ing ing' \<longleftrightarrow> ing' = ing"
  by (auto simp: moved_def intro: nth_equalityI)

lemma pending_remove:
  assumes "set_wf s" and "compl s = 0"
    and "lastSet st = Some a" and "unat (current_member st) = Suc x"
  shows "pending a (SET_REMOVE s x) st = pending a s st"
proof -
  have "lim (SET_REMOVE s x) = lim s" by (rule lim_cong) (simp add: SET_REMOVE_def gbit_andnot_def Let_def put_words_def split: option.split)
  then show ?thesis using assms by (auto simp: pending_def intro!: filter_cong)
qed

text \<open>The group numbers after a run over a list of states.\<close>

definition split_states :: "int list list \<Rightarrow> nat \<Rightarrow> nat \<Rightarrow> nat list \<Rightarrow> nat list \<Rightarrow> nat list" where
  "split_states t first ng ing xs =
     foldl (\<lambda>ing x. if agree t ing first x then ing else ing[x := ng]) ing xs"

lemma split_states_simps [simp]:
  "split_states t first ng ing [] = ing"
  "split_states t first ng ing (x # xs) =
     split_states t first ng (if agree t ing first x then ing else ing[x := ng]) xs"
  by (simp_all add: split_states_def)

lemma split_loop_effect:
  assumes "pending a cur st = xs" and "set_wf cur" and "compl cur = 0"
    and "set_wf new" and "compl new = 0" and "\<forall>x\<in>set xs. x < length ing \<and> legal_bit x \<and> x < 2 ^ 31"
  shows "\<exists>cur' new' ing' st' M. split_loop t a ng first st cur new ing = Some (cur', new', ing', st') \<and>
    set_wf cur' \<and> compl cur' = 0 \<and> set_wf new' \<and> compl new' = 0 \<and>
    M \<subseteq> set xs \<and> members cur' = members cur - M \<and> members new' = members new \<union> M \<and>
    moved M ng ing ing' \<and> (M = {} \<longrightarrow> (\<forall>x\<in>set xs. agree t ing first x)) \<and>
    ing' = split_states t first ng ing xs"
  using assms
proof (induction xs arbitrary: st cur new ing)
  case Nil
  then obtain st' where "set_next_member st (Some (a, cur)) = (- 1, st')"
    using set_next_member_end by blast
  with Nil show ?case by (simp add: split_loop.simps [of t a ng first st cur])
next
  case (Cons x xs)
  obtain st1 where st1: "set_next_member st (Some (a, cur)) = (to_int x, st1)" "lastSet st1 = Some a"
    "unat (current_member st1) = Suc x" and p: "pending a cur st1 = xs"
    using set_next_member_pending [OF Cons.prems(1)] by metis
  have n: "set_next_member st (Some (a, cur)) = (int x, st1)" using st1(1) Cons.prems(6) by simp
  show ?case
  proof (cases "agree t ing first x")
    case True
    then have eq: "split_loop t a ng first st cur new ing = split_loop t a ng first st1 cur new ing"
      by (simp add: split_loop.simps [of t a ng first st cur] n differ_agree)
    have "\<forall>x\<in>set xs. x < length ing \<and> legal_bit x \<and> x < 2 ^ 31" using Cons.prems(6) by simp
    from Cons.IH [OF p Cons.prems(2-5) this] obtain cur' new' ing' st' M where r:
      "split_loop t a ng first st1 cur new ing = Some (cur', new', ing', st')"
      "set_wf cur'" "compl cur' = 0" "set_wf new'" "compl new' = 0" "M \<subseteq> set xs"
      "members cur' = members cur - M" "members new' = members new \<union> M" "moved M ng ing ing'"
      "M = {} \<longrightarrow> (\<forall>x\<in>set xs. agree t ing first x)" "ing' = split_states t first ng ing xs"
      by blast
    have "ing' = split_states t first ng ing (x # xs)" using r(11) True by simp
    moreover from r(10) True have "M = {} \<longrightarrow> (\<forall>x\<in>set (x # xs). agree t ing first x)" by simp
    moreover have "M \<subseteq> set (x # xs)" using r(6) by auto
    ultimately show ?thesis using r(1-9) unfolding eq by blast
  next
    case False
    let ?cur = "SET_REMOVE cur x" and ?new = "SET_ADD new x" and ?ing = "ing[x := ng]"
    have eq: "split_loop t a ng first st cur new ing = split_loop t a ng first st1 ?cur ?new ?ing"
      using False by (simp add: split_loop.simps [of t a ng first st cur] n differ_agree)
    have p': "pending a ?cur st1 = xs" using pending_remove [OF Cons.prems(2,3) st1(2,3)] p by simp
    have ok: "set_wf ?cur" "compl ?cur = 0" "set_wf ?new" "compl ?new = 0"
      "\<forall>y\<in>set xs. y < length ?ing \<and> legal_bit y \<and> y < 2 ^ 31"
      using Cons.prems by simp_all
    from Cons.IH [OF p' ok] obtain cur' new' ing' st' M where r:
      "split_loop t a ng first st1 ?cur ?new ?ing = Some (cur', new', ing', st')"
      "set_wf cur'" "compl cur' = 0" "set_wf new'" "compl new' = 0" "M \<subseteq> set xs"
      "members cur' = members ?cur - M" "members new' = members ?new \<union> M" "moved M ng ?ing ing'"
      "ing' = split_states t first ng ?ing xs"
      by blast
    have "ing' = split_states t first ng ing (x # xs)" using r(10) False by simp
    moreover have "moved (insert x M) ng ing ing'"
      using r(9) Cons.prems(6) by (auto simp: moved_def nth_list_update_if)
    moreover have "members cur' = members cur - insert x M" "members new' = members new \<union> insert x M"
      using r(7,8) Cons.prems by auto
    moreover have "insert x M \<subseteq> set (x # xs)" using r(6) by auto
    ultimately show ?thesis using r(1-5) unfolding eq by blast
  qed
qed

section \<open>The partition\<close>

text \<open>
  The groups are the classes of \<open>ingroup\<close>, none is empty, the states of a group have the
  same string, and the start state is in the first group.
\<close>

definition part_inv :: "nat \<Rightarrow> ACCEPT list \<Rightarrow> min_env \<Rightarrow> bool" where
  "part_inv n accs env \<longleftrightarrow>
     n \<le> DFA_MAX \<and> length (ingroup env) = DFA_MAX \<and>
     (\<forall>g<length (groups env). set_wf (groups env ! g) \<and> compl (groups env ! g) = 0 \<and>
        members (groups env ! g) = {i. i < n \<and> ingroup env ! i = g} \<and>
        members (groups env ! g) \<noteq> {}) \<and>
     (\<forall>i<n. ingroup env ! i < length (groups env)) \<and>
     (\<forall>i<n. \<forall>j<n. ingroup env ! i = ingroup env ! j \<longrightarrow>
        acc_string (accs ! i) = acc_string (accs ! j)) \<and>
     (0 < n \<longrightarrow> ingroup env ! 0 = 0)"

definition stable_group :: "int list list \<Rightarrow> nat \<Rightarrow> min_env \<Rightarrow> nat \<Rightarrow> bool" where
  "stable_group t n env g \<longleftrightarrow>
     (\<forall>i<n. \<forall>j<n. ingroup env ! i = g \<longrightarrow> ingroup env ! j = g \<longrightarrow> agree t (ingroup env) i j)"

lemma legal_small: "i < n \<Longrightarrow> n \<le> DFA_MAX \<Longrightarrow> legal_bit i"
  by (simp add: legal_bit_def DFA_MAX_def)

text \<open>Nonempty classes: there are no more of them than states, and fewer if one is larger.\<close>

lemma classes_le:
  fixes f :: "nat \<Rightarrow> nat"
  assumes "\<And>i. i < n \<Longrightarrow> f i < G" and "\<And>g. g < G \<Longrightarrow> {i. i < n \<and> f i = g} \<noteq> {}"
  shows "G \<le> n" and "g < G \<Longrightarrow> 2 \<le> card {i. i < n \<and> f i = g} \<Longrightarrow> G < n"
proof -
  let ?c = "\<lambda>g. card {i. i < n \<and> f i = g}"
  have "{..<n} = (\<Union>g<G. {i. i < n \<and> f i = g})" using assms(1) by auto
  then have "card {..<n} = card (\<Union>g<G. {i. i < n \<and> f i = g})" by simp
  also have "\<dots> = (\<Sum>g<G. ?c g)" by (rule card_UN_disjoint) auto
  finally have n: "n = (\<Sum>g<G. ?c g)" by simp
  have one: "1 \<le> ?c g" if "g < G" for g
    using assms(2) [OF that] by (simp add: Suc_le_eq card_gt_0_iff)
  have "(\<Sum>g<G. 1) \<le> (\<Sum>g<G. ?c g)" by (rule sum_mono) (use one in auto)
  with n show "G \<le> n" by simp
  show "G < n" if "g < G" "2 \<le> ?c g"
  proof -
    have "(\<Sum>g<G. 1) < (\<Sum>g<G. ?c g)"
      by (rule sum_strict_mono_ex1) (use one that in \<open>auto intro!: bexI [of _ g]\<close>)
    with n show ?thesis by simp
  qed
qed

lemma part_invI:
  assumes "n \<le> DFA_MAX" and "length (ingroup env) = DFA_MAX"
    and "\<And>g. g < length (groups env) \<Longrightarrow> set_wf (groups env ! g) \<and> compl (groups env ! g) = 0 \<and>
      members (groups env ! g) = {i. i < n \<and> ingroup env ! i = g} \<and> members (groups env ! g) \<noteq> {}"
    and "\<And>i. i < n \<Longrightarrow> ingroup env ! i < length (groups env)"
    and "\<And>i j. i < n \<Longrightarrow> j < n \<Longrightarrow> ingroup env ! i = ingroup env ! j \<Longrightarrow>
      acc_string (accs ! i) = acc_string (accs ! j)"
    and "0 < n \<longrightarrow> ingroup env ! 0 = 0"
  shows "part_inv n accs env"
  using assms unfolding part_inv_def by blast

lemma part_inv_group:
  assumes "part_inv n accs env" and "g < length (groups env)"
  shows "set_wf (groups env ! g)" and "compl (groups env ! g) = 0"
    and "members (groups env ! g) = {i. i < n \<and> ingroup env ! i = g}"
    and "members (groups env ! g) \<noteq> {}"
  using assms unfolding part_inv_def by blast+

lemma part_inv_groups_le:
  assumes inv: "part_inv n accs env"
  shows "length (groups env) \<le> n"
    and "g < length (groups env) \<Longrightarrow> 2 \<le> card (members (groups env ! g)) \<Longrightarrow> length (groups env) < n"
proof -
  have lt: "ingroup env ! i < length (groups env)" if "i < n" for i
    using inv that by (simp add: part_inv_def)
  have ne: "{i. i < n \<and> ingroup env ! i = g} \<noteq> {}" if "g < length (groups env)" for g
    using part_inv_group(3,4) [OF inv that] by simp
  note le = classes_le [of n "(!) (ingroup env)" "length (groups env)", OF lt ne]
  show "length (groups env) \<le> n" by (rule le(1))
  show "length (groups env) < n" if "g < length (groups env)" "2 \<le> card (members (groups env ! g))"
    using le(2) [OF _ _ that(1)] that(2) part_inv_group(3) [OF inv that(1)] by simp
qed

lemma first_member:
  assumes "set_wf s" and "compl s = 0" and "members s \<noteq> {}" and "lastSet st \<noteq> Some a"
    and "Min (members s) < 2 ^ 31"
  obtains st' xs where "set_next_member st (Some (a, s)) = (int (Min (members s)), st')"
    and "lastSet st' = Some a"
    and "pending a s st' = xs" and "set xs = members s - {Min (members s)}"
    and "sorted_list_of_set (members s) = Min (members s) # xs"
proof -
  let ?m = "Min (members s)"
  have p: "pending a s st = sorted_list_of_set (members s)"
    using pending_members [OF assms(1,2,4)] .
  have c: "sorted_list_of_set (members s) = ?m # sorted_list_of_set (members s - {?m})"
    using assms(3) by (intro sorted_list_of_set_nonempty) simp_all
  obtain st' where st': "set_next_member st (Some (a, s)) = (to_int ?m, st')" "lastSet st' = Some a"
    "pending a s st' = sorted_list_of_set (members s - {?m})"
    using set_next_member_pending [OF p [unfolded c]] by metis
  have "set_next_member st (Some (a, s)) = (int ?m, st')" using st'(1) assms(5) by simp
  then show ?thesis using st'(2,3) _ c by (rule that) simp
qed

text \<open>The reference for one group: its states in order, the first one fixed.\<close>

definition split_class :: "int list list \<Rightarrow> nat \<Rightarrow> nat \<Rightarrow> nat \<Rightarrow> nat list \<Rightarrow> nat list" where
  "split_class t n ng g ing =
     (case filter (\<lambda>i. ing ! i = g) [0..<n] of
        [] \<Rightarrow> ing
      | first # xs \<Rightarrow> split_states t first ng ing xs)"

lemma filter_upt_sorted_list: "filter P [0..<n] = sorted_list_of_set {i. i < n \<and> P i}"
proof -
  have "set (filter P [0..<n]) = {i. i < n \<and> P i}" by auto
  moreover have "sorted (filter P [0..<n])" "distinct (filter P [0..<n])"
    by (simp_all add: sorted_wrt_filter)
  ultimately show ?thesis using sorted_list_of_set.idem_if_sorted_distinct by metis
qed

lemma split_group_effect:
  assumes inv: "part_inv n accs env" and g: "g < length (groups env)"
  shows "\<exists>env'. split_group t g env = Some (Inr env') \<and> part_inv n accs env' \<and>
    length (groups env) \<le> length (groups env') \<and>
    (length (groups env) = length (groups env') \<longrightarrow>
       ingroup env' = ingroup env \<and> stable_group t n env g) \<and>
    ingroup env' = split_class t n (length (groups env)) g (ingroup env) \<and>
    length (groups env') = length (groups env) + (if ingroup env' = ingroup env then 0 else 1)"
proof -
  let ?ng = "length (groups env)" and ?s = "groups env ! g" and ?ing = "ingroup env"
  have s: "set_wf ?s" "compl ?s = 0" "members ?s = {i. i < n \<and> ?ing ! i = g}" "members ?s \<noteq> {}"
    and n: "n \<le> DFA_MAX" "length ?ing = DFA_MAX"
    using inv part_inv_group [OF inv g] by (simp_all add: part_inv_def)
  let ?m = "Min (members ?s)"
  have m: "?m < n" "?ing ! ?m = g" using Min_in [of "members ?s"] s by auto
  show ?thesis
  proof (cases "set_num_ele (Some ?s) \<le> 1")
    case True
    then have one: "i = j" if "i \<in> members ?s" "j \<in> members ?s" for i j
      using that card_le_Suc0_iff_eq [of "members ?s"] by (simp add: set_num_ele_card s(1))
    have "stable_group t n env g"
      unfolding stable_group_def using one s(3) by (metis (mono_tags) agree_refl mem_Collect_eq)
    moreover have "split_class t n ?ng g ?ing = ?ing"
    proof -
      obtain i where "members ?s = {i}" using one s(4) by blast
      then have "filter (\<lambda>i. ?ing ! i = g) [0..<n] = [i]"
        using s(3) by (simp add: filter_upt_sorted_list)
      then show ?thesis by (simp add: split_class_def)
    qed
    ultimately show ?thesis using True inv by (simp add: split_group_def Let_def)
  next
    case False
    then have "?ng < n"
      using part_inv_groups_le(2) [OF inv g] by (simp add: set_num_ele_card s(1))
    then have room: "\<not> DFA_MAX \<le> ?ng" using n by simp
    have l: "lastSet ((iter env)\<lparr>lastSet := None, reads := 0\<rparr>) \<noteq> Some g" by simp
    have small: "n < 2 ^ 31" using n(1) by (simp add: DFA_MAX_def)
    then have min: "?m < 2 ^ 31" using m(1) by simp
    obtain st' xs where f: "set_next_member ((iter env)\<lparr>lastSet := None, reads := 0\<rparr>) (Some (g, ?s)) = (int ?m, st')"
      "pending g ?s st' = xs" "set xs = members ?s - {?m}"
      "sorted_list_of_set (members ?s) = ?m # xs"
      using first_member [OF s(1,2,4) l min] by blast
    have xs: "\<forall>x\<in>set xs. x < length ?ing \<and> legal_bit x \<and> x < 2 ^ 31"
      using f(3) s(3) n legal_small [OF _ n(1)] small by auto
    obtain cur' new' ing' st'' M where r:
      "split_loop t g ?ng ?m st' ?s set_new ?ing = Some (cur', new', ing', st'')"
      "set_wf cur'" "compl cur' = 0" "set_wf new'" "compl new' = 0" "M \<subseteq> set xs"
      "members cur' = members ?s - M" "members new' = M" "moved M ?ng ?ing ing'"
      "M = {} \<longrightarrow> (\<forall>x\<in>set xs. agree t ?ing ?m x)"
      "ing' = split_states t ?m ?ng ?ing xs"
      using split_loop_effect [OF f(2) s(1,2) set_wf_new compl_new xs, where t = t and first = ?m and ng = ?ng]
      unfolding members_new Un_empty_left by blast
    let ?env' = "\<lparr>groups = (groups env)[g := cur'] @ (if \<not> SET_IS_EMPTY new' then [new'] else []),
      ingroup = ing', iter = st''\<rparr>"
    have sg: "split_group t g env = Some (Inr ?env')"
      using False room f(1) r(1) by (simp add: split_group_def Let_def)
    have Mn: "M \<subseteq> {i. i < n \<and> ?ing ! i = g}" "?m \<notin> M" using r(6) f(3) s(3) by auto
    have ing': "ing' ! i = (if i \<in> M then ?ng else ?ing ! i)" if "i < n" for i
      using r(9) n that by (simp add: moved_def)
    have zero: "0 < n \<longrightarrow> ing' ! 0 = 0"
    proof
      assume "0 < n"
      then have z: "?ing ! 0 = 0" using inv by (simp add: part_inv_def)
      have "0 \<notin> M"
      proof
        assume "0 \<in> M"
        then have "0 \<in> members ?s" using r(6) f(3) by auto
        then have "?m \<le> 0" using Min_le [OF finite_members] by blast
        with \<open>0 \<in> M\<close> Mn(2) show False by simp
      qed
      with z ing' \<open>0 < n\<close> show "ing' ! 0 = 0" by simp
    qed
    have lt: "?ing ! i < ?ng" if "i < n" for i using inv that by (simp add: part_inv_def)
    have acc: "acc_string (accs ! i) = acc_string (accs ! j)" if ij: "i < n" "j < n" "ing' ! i = ing' ! j" for i j
    proof -
      have M: "?ing ! k = g" if "k \<in> M" for k using Mn(1) that by auto
      have "?ing ! i = ?ing ! j"
        using ij(3) lt [OF ij(1)] lt [OF ij(2)] M
        unfolding ing' [OF ij(1)] ing' [OF ij(2)] by (metis less_irrefl)
      with inv ij show ?thesis unfolding part_inv_def by blast
    qed
    have cls: "members (groups env ! k) = {i. i < n \<and> ?ing ! i = k}" "set_wf (groups env ! k)"
      "compl (groups env ! k) = 0" "members (groups env ! k) \<noteq> {}" if "k < ?ng" for k
      using part_inv_group [OF inv that] by simp_all
    have inv': "part_inv n accs ?env'"
    proof (cases "M = {}")
      case True
      then have e: "ing' = ?ing" "members new' = {}" "members cur' = members ?s" using r(7-9) by simp_all
      show ?thesis
      proof (rule part_invI)
        fix k assume "k < length (groups ?env')"
        then have "k < ?ng" using e r(4) by simp
        then show "set_wf (groups ?env' ! k) \<and> compl (groups ?env' ! k) = 0 \<and>
            members (groups ?env' ! k) = {i. i < n \<and> ingroup ?env' ! i = k} \<and>
            members (groups ?env' ! k) \<noteq> {}"
          using cls [of k] e r(2-4) s(3,4) by (cases "k = g") simp_all
      next
        fix i j assume "i < n" "j < n" "ingroup ?env' ! i = ingroup ?env' ! j"
        then show "acc_string (accs ! i) = acc_string (accs ! j)" using acc [of i j] by simp
      qed (use e r(4) n lt zero in simp_all)
    next
      case False
      have c: "members ((groups env)[g := cur'] ! k) = {i. i < n \<and> ing' ! i = k} \<and>
          members ((groups env)[g := cur'] ! k) \<noteq> {} \<and>
          set_wf ((groups env)[g := cur'] ! k) \<and> compl ((groups env)[g := cur'] ! k) = 0"
        if "k < ?ng" for k
      proof (cases "k = g")
        case True
        moreover have "{i. i < n \<and> ing' ! i = g} = members ?s - M"
          using s(3) ing' g by auto
        moreover have "?m \<in> members ?s - M" using m s(3) Mn(2) by simp
        ultimately show ?thesis using r(2,3,7) g by auto
      next
        case ne: False
        have "{i. i < n \<and> ing' ! i = k} = {i. i < n \<and> ?ing ! i = k}"
          using ing' Mn(1) ne that by auto
        then show ?thesis using cls [OF that] ne by simp
      qed
      have "ing' ! i = ?ng \<longleftrightarrow> i \<in> M" if "i < n" for i
        using ing' [OF that] lt [OF that] by (cases "i \<in> M") simp_all
      then have M: "{i. i < n \<and> ing' ! i = ?ng} = M" using Mn(1) by blast
      show ?thesis
      proof (rule part_invI)
        fix k assume "k < length (groups ?env')"
        then have "k < ?ng \<or> k = ?ng" using False r(4,8) by auto
        then show "set_wf (groups ?env' ! k) \<and> compl (groups ?env' ! k) = 0 \<and>
            members (groups ?env' ! k) = {i. i < n \<and> ingroup ?env' ! i = k} \<and>
            members (groups ?env' ! k) \<noteq> {}"
        proof (elim disjE)
          assume k: "k < ?ng"
          have eq: "groups ?env' ! k = (groups env)[g := cur'] ! k" "ingroup ?env' = ing'"
            using k by (simp_all add: nth_append)
          show ?thesis unfolding eq using c [OF k] by blast
        next
          assume k: "k = ?ng"
          have eq: "groups ?env' ! k = new'" "ingroup ?env' = ing'"
            using k False r(4,8) by (simp_all add: nth_append)
          show ?thesis unfolding eq using M False r(4,5,8) k by blast
        qed
      next
        fix i assume "i < n"
        then show "ingroup ?env' ! i < length (groups ?env')"
          using ing' lt [of i] False r(4,8) by simp
      next
        fix i j assume "i < n" "j < n" "ingroup ?env' ! i = ingroup ?env' ! j"
        then show "acc_string (accs ! i) = acc_string (accs ! j)" using acc [of i j] by simp
      qed (use n r(9) zero in \<open>simp_all add: moved_def\<close>)
    qed
    have stable: "stable_group t n env g" if "M = {}"
    proof -
      have "agree t ?ing ?m i" if "i \<in> members ?s" for i
        using r(10) \<open>M = {}\<close> f(3) that by (cases "i = ?m") auto
      then show ?thesis using s(3) agree_sym agree_trans unfolding stable_group_def by blast
    qed
    have cl: "ing' = split_class t n ?ng g ?ing"
      using f(4) r(11) by (simp add: split_class_def filter_upt_sorted_list s(3) [symmetric])
    have "ing' \<noteq> ?ing" if ne: "M \<noteq> {}"
    proof -
      obtain i where "i \<in> M" using ne by blast
      then have "i < n" "?ing ! i = g" "ing' ! i = ?ng" using Mn(1) ing' by auto
      with g show ?thesis by auto
    qed
    then show ?thesis
      using sg inv' stable cl r(4,8,9) by (cases "M = {}") (auto intro!: exI [of _ ?env'])
  qed
qed

section \<open>The loops of \<open>minimize\<close>\<close>

lemma stable_group_cong: "ingroup env' = ingroup env \<Longrightarrow> stable_group t n env' k = stable_group t n env k"
  by (simp add: stable_group_def)

lemma pass_loop_effect:
  assumes "part_inv n accs env"
  shows "\<exists>env'. pass_loop t g env = Some (Inr env') \<and> part_inv n accs env' \<and>
    length (groups env) \<le> length (groups env') \<and>
    (length (groups env) = length (groups env') \<longrightarrow> ingroup env' = ingroup env \<and>
       (\<forall>k. g \<le> k \<longrightarrow> k < length (groups env) \<longrightarrow> stable_group t n env k))"
  using assms
proof (induction "n - g" arbitrary: g env rule: less_induct)
  case less
  show ?case
  proof (cases "g < length (groups env)")
    case False
    with less.prems show ?thesis by (simp add: pass_loop.simps [of t g env])
  next
    case True
    obtain env1 where e1: "split_group t g env = Some (Inr env1)" "part_inv n accs env1"
      "length (groups env) \<le> length (groups env1)"
      "length (groups env) = length (groups env1) \<longrightarrow>
         ingroup env1 = ingroup env \<and> stable_group t n env g"
      using split_group_effect [OF less.prems True] by blast
    have "n - Suc g < n - g" using part_inv_groups_le(1) [OF less.prems] True by simp
    from less.hyps [OF this e1(2)] obtain env2 where e2: "pass_loop t (Suc g) env1 = Some (Inr env2)" "part_inv n accs env2"
      "length (groups env1) \<le> length (groups env2)"
      "length (groups env1) = length (groups env2) \<longrightarrow> ingroup env2 = ingroup env1 \<and>
         (\<forall>k. Suc g \<le> k \<longrightarrow> k < length (groups env1) \<longrightarrow> stable_group t n env1 k)"
      by blast
    have eq: "pass_loop t g env = Some (Inr env2)"
      using True e1(1) e2(1) by (simp add: pass_loop.simps [of t g env])
    have "ingroup env2 = ingroup env \<and>
        (\<forall>k. g \<le> k \<longrightarrow> k < length (groups env) \<longrightarrow> stable_group t n env k)"
      if l: "length (groups env) = length (groups env2)"
    proof -
      have l1: "length (groups env) = length (groups env1)" "length (groups env1) = length (groups env2)"
        using l e1(3) e2(3) by simp_all
      then have i1: "ingroup env1 = ingroup env" "stable_group t n env g" using e1(4) by simp_all
      moreover have "stable_group t n env k" if "g \<le> k" "k < length (groups env)" for k
        using that e2(4) l1 i1 stable_group_cong [OF i1(1), of t n k]
        by (cases "k = g") auto
      moreover have "ingroup env2 = ingroup env" using e2(4) l1 i1(1) by simp
      ultimately show ?thesis by blast
    qed
    then show ?thesis using eq e2(2,3) e1(3) by (intro exI [of _ env2]) simp
  qed
qed

lemma refine_loop_effect:
  assumes "part_inv n accs env"
  shows "\<exists>env'. refine_loop t env = Some (Inr env') \<and> part_inv n accs env' \<and>
    (\<forall>k<length (groups env'). stable_group t n env' k)"
  using assms
proof (induction "n - length (groups env)" arbitrary: env rule: less_induct)
  case less
  obtain env1 where e1: "pass_loop t 0 env = Some (Inr env1)" "part_inv n accs env1"
    "length (groups env) \<le> length (groups env1)"
    "length (groups env) = length (groups env1) \<longrightarrow> ingroup env1 = ingroup env \<and>
       (\<forall>k. 0 \<le> k \<longrightarrow> k < length (groups env) \<longrightarrow> stable_group t n env k)"
    using pass_loop_effect [OF less.prems, where g = 0 and t = t] by blast
  show ?case
  proof (cases "length (groups env) = length (groups env1)")
    case True
    then have "ingroup env1 = ingroup env" "\<forall>k<length (groups env1). stable_group t n env k"
      using e1(4) by simp_all
    then have "\<forall>k<length (groups env1). stable_group t n env1 k"
      using stable_group_cong by blast
    with True e1(1,2) show ?thesis by (simp add: refine_loop.simps [of t env])
  next
    case False
    have "length (groups env1) \<le> n" by (rule part_inv_groups_le(1) [OF e1(2)])
    with False e1(3) have "n - length (groups env1) < n - length (groups env)" by linarith
    from less.hyps [OF this e1(2)] False e1(1) show ?thesis
      by (simp add: refine_loop.simps [of t env])
  qed
qed

text \<open>A reference for one pass: group numbers only, with a bound \<open>k\<close> on the groups to visit.\<close>

fun ref_pass :: "int list list \<Rightarrow> nat \<Rightarrow> nat \<Rightarrow> nat \<Rightarrow> nat \<times> nat list \<Rightarrow> nat \<times> nat list" where
  "ref_pass t n 0 g (ng, ing) = (ng, ing)"
| "ref_pass t n (Suc k) g (ng, ing) =
     (if g < ng
      then let ing' = split_class t n ng g ing
           in ref_pass t n k (Suc g) (if ing' = ing then ng else Suc ng, ing')
      else (ng, ing))"

lemma pass_loop_ref:
  assumes "part_inv n accs env" and "n - g \<le> k"
  shows "\<exists>env'. pass_loop t g env = Some (Inr env') \<and> part_inv n accs env' \<and>
    (length (groups env'), ingroup env') = ref_pass t n k g (length (groups env), ingroup env)"
  using assms
proof (induction k arbitrary: g env)
  case 0
  then have "\<not> g < length (groups env)" using part_inv_groups_le(1) [OF 0(1)] by simp
  with 0 show ?case by (simp add: pass_loop.simps [of t g env])
next
  case (Suc k)
  show ?case
  proof (cases "g < length (groups env)")
    case False
    with Suc.prems show ?thesis by (simp add: pass_loop.simps [of t g env])
  next
    case True
    obtain env1 where e1: "split_group t g env = Some (Inr env1)" "part_inv n accs env1"
      "ingroup env1 = split_class t n (length (groups env)) g (ingroup env)"
      "length (groups env1) = length (groups env) + (if ingroup env1 = ingroup env then 0 else 1)"
      using split_group_effect [OF Suc.prems(1) True, where t = t] by blast
    have "n - Suc g \<le> k" using Suc.prems(2) by simp
    from Suc.IH [OF e1(2) this] True e1(1,3,4) show ?thesis
      by (simp add: pass_loop.simps [of t g env] Let_def split: if_split_asm)
  qed
qed

subsection \<open>The initial partition\<close>

lemma find_match_cases:
  "case find_match accs i n of
     None \<Rightarrow> \<forall>j<n. acc_string (accs ! j) \<noteq> acc_string (accs ! i)
   | Some j \<Rightarrow> j < n \<and> acc_string (accs ! j) = acc_string (accs ! i)"
  by (induction n) (auto simp: less_Suc_eq split: option.splits)

text \<open>The initial partition also has all states of one string in one group.\<close>

definition init_inv :: "nat \<Rightarrow> ACCEPT list \<Rightarrow> min_env \<Rightarrow> bool" where
  "init_inv n accs env \<longleftrightarrow> part_inv n accs env \<and>
     (\<forall>i<n. \<forall>j<n. acc_string (accs ! i) = acc_string (accs ! j) \<longrightarrow>
        ingroup env ! i = ingroup env ! j)"

lemma init_state_effect:
  assumes inv: "init_inv n accs env" and n: "n < DFA_MAX"
  shows "\<exists>env'. init_state accs n env = Inr env' \<and> init_inv (Suc n) accs env'"
proof -
  have part: "part_inv n accs env" and len: "length (ingroup env) = DFA_MAX"
    and lt: "\<And>i. i < n \<Longrightarrow> ingroup env ! i < length (groups env)"
    and eqv: "\<And>i j. i < n \<Longrightarrow> j < n \<Longrightarrow>
      ingroup env ! i = ingroup env ! j \<longleftrightarrow> acc_string (accs ! i) = acc_string (accs ! j)"
    using inv unfolding init_inv_def part_inv_def by blast+
  have zero: "0 < n \<longrightarrow> ingroup env ! 0 = 0" using part by (simp add: part_inv_def)
  have ln: "legal_bit n" using legal_small [of n DFA_MAX] n by simp
  note cls = part_inv_group [OF part]
  have old: "{i. i < Suc n \<and> (ingroup env)[n := h] ! i = k} =
      {i. i < n \<and> ingroup env ! i = k} \<union> (if h = k then {n} else {})" for h k
    using n len by (auto simp: nth_list_update_if less_Suc_eq)
  show ?thesis
  proof (cases "find_match accs n n")
    case (Some j)
    then have j: "j < n" "acc_string (accs ! j) = acc_string (accs ! n)"
      using find_match_cases [where accs = accs and i = n and n = n] by simp_all
    let ?g = "ingroup env ! j"
    let ?env' = "env\<lparr>groups := (groups env)[?g := SET_ADD (groups env ! ?g) n],
      ingroup := (ingroup env)[n := ?g]\<rparr>"
    have eqv': "(ingroup env)[n := ?g] ! i = (ingroup env)[n := ?g] ! k \<longleftrightarrow>
        acc_string (accs ! i) = acc_string (accs ! k)" if "i < Suc n" "k < Suc n" for i k
      using that n len eqv [of i k] eqv [of i j] eqv [of j k] j
      by (auto simp: nth_list_update_if less_Suc_eq)
    have "part_inv (Suc n) accs ?env'"
    proof (rule part_invI)
      fix k assume "k < length (groups ?env')"
      then have k: "k < length (groups env)" by simp
      show "set_wf (groups ?env' ! k) \<and> compl (groups ?env' ! k) = 0 \<and>
          members (groups ?env' ! k) = {i. i < Suc n \<and> ingroup ?env' ! i = k} \<and>
          members (groups ?env' ! k) \<noteq> {}"
        using cls [OF k] ln k by (auto simp: old simp del: not_None_eq)
    next
      fix i assume "i < Suc n"
      then show "ingroup ?env' ! i < length (groups ?env')"
        using lt j(1) n len by (auto simp: nth_list_update_if less_Suc_eq)
    next
      fix i k assume "i < Suc n" "k < Suc n" "ingroup ?env' ! i = ingroup ?env' ! k"
      then show "acc_string (accs ! i) = acc_string (accs ! k)" using eqv' by simp
    qed (use n len zero j in \<open>auto simp: nth_list_update_if\<close>)
    with eqv' Some show ?thesis by (simp add: init_state_def init_inv_def Let_def)
  next
    case None
    then have new: "\<And>j. j < n \<Longrightarrow> acc_string (accs ! j) \<noteq> acc_string (accs ! n)"
      using find_match_cases [where accs = accs and i = n and n = n] by simp
    let ?G = "length (groups env)"
    let ?env' = "env\<lparr>groups := groups env @ [SET_ADD set_new n], ingroup := (ingroup env)[n := ?G]\<rparr>"
    have room: "\<not> DFA_MAX \<le> ?G" using part_inv_groups_le(1) [OF part] n by simp
    have eqv': "(ingroup env)[n := ?G] ! i = (ingroup env)[n := ?G] ! k \<longleftrightarrow>
        acc_string (accs ! i) = acc_string (accs ! k)" if "i < Suc n" "k < Suc n" for i k
      using that n len eqv [of i k] lt [of i] lt [of k] new [of i] new [of k]
      by (auto simp: nth_list_update_if less_Suc_eq)
    have empty: "{i. i < n \<and> ingroup env ! i = ?G} = {}"
      using lt by (metis (mono_tags, lifting) Collect_empty_eq less_irrefl)
    have "part_inv (Suc n) accs ?env'"
    proof (rule part_invI)
      fix k assume "k < length (groups ?env')"
      then have "k < ?G \<or> k = ?G" by auto
      then show "set_wf (groups ?env' ! k) \<and> compl (groups ?env' ! k) = 0 \<and>
          members (groups ?env' ! k) = {i. i < Suc n \<and> ingroup ?env' ! i = k} \<and>
          members (groups ?env' ! k) \<noteq> {}"
      proof
        assume k: "k < ?G"
        have "groups ?env' ! k = groups env ! k" using k by (simp add: nth_append)
        moreover have "{i. i < Suc n \<and> ingroup ?env' ! i = k} = {i. i < n \<and> ingroup env ! i = k}"
          using k by (simp add: old)
        ultimately show ?thesis using cls [OF k] by metis
      next
        assume k: "k = ?G"
        have "groups ?env' ! k = SET_ADD set_new n" using k by simp
        moreover have "{i. i < Suc n \<and> (ingroup env)[n := ?G] ! i = ?G} = {n}"
          using old [of ?G ?G] empty by (simp only: if_True refl Un_empty_left)
        then have "{i. i < Suc n \<and> ingroup ?env' ! i = k} = {n}" by (simp add: k)
        ultimately show ?thesis using ln by simp
      qed
    next
      fix i assume "i < Suc n"
      then show "ingroup ?env' ! i < length (groups ?env')"
        using lt [of i] n len by (auto simp: nth_list_update_if less_Suc_eq)
    next
      fix i k assume "i < Suc n" "k < Suc n" "ingroup ?env' ! i = ingroup ?env' ! k"
      then show "acc_string (accs ! i) = acc_string (accs ! k)" using eqv' by simp
    next
      have "?G = 0" if "n = 0"
        using part_inv_groups_le(1) [OF part] that by simp
      then show "0 < Suc n \<longrightarrow> ingroup ?env' ! 0 = 0"
        using zero n len by (auto simp: nth_list_update_if)
    qed (use n len in simp_all)
    with eqv' None room show ?thesis by (simp add: init_state_def init_inv_def)
  qed
qed

lemma init_loop_effect:
  assumes "init_inv m accs env" and "m \<le> n" and "n \<le> DFA_MAX"
  shows "\<exists>env'. init_loop accs [m..<n] env = Inr env' \<and> init_inv n accs env'"
  using assms
proof (induction "n - m" arbitrary: m env)
  case 0
  then show ?case by simp
next
  case (Suc k)
  then have m: "m < n" and u: "[m..<n] = m # [Suc m..<n]" by (simp_all add: upt_conv_Cons)
  obtain env1 where "init_state accs m env = Inr env1" "init_inv (Suc m) accs env1"
    using init_state_effect [OF Suc.prems(1)] m Suc.prems(3) by auto
  with Suc.hyps(1) [of "Suc m" env1] Suc.hyps(2) Suc.prems m u show ?case by simp
qed

lemma init_groups_effect:
  assumes "n \<le> DFA_MAX" and "length (ingroup env) = DFA_MAX"
  shows "\<exists>env'. init_groups n accs env = Inr env' \<and> init_inv n accs env'"
proof -
  have "init_inv 0 accs (env\<lparr>groups := []\<rparr>)" using assms by (simp add: init_inv_def part_inv_def)
  from init_loop_effect [OF this _ assms(1)] show ?thesis by (simp add: init_groups_def)
qed

subsection \<open>The new table\<close>

lemma fix_loop_effect:
  assumes "\<forall>s\<in>set ss. set_wf s \<and> compl s = 0 \<and> members s \<noteq> {} \<and> Min (members s) < 2 ^ 31"
    and "\<forall>k\<ge>g. lastSet st \<noteq> Some k"
  shows "fix_loop t accs ing g ss st =
    (map (\<lambda>s. fix_row ing (t ! Min (members s))) ss, map (\<lambda>s. accs ! Min (members s)) ss)"
  using assms
proof (induction ss arbitrary: g st)
  case Nil
  then show ?case by simp
next
  case (Cons s ss)
  then have s: "set_wf s" "compl s = 0" "members s \<noteq> {}" "lastSet st \<noteq> Some g" "Min (members s) < 2 ^ 31" by simp_all
  obtain st' where st': "set_next_member st (Some (g, s)) = (int (Min (members s)), st')"
    "lastSet st' = Some g"
    using first_member [OF s] by blast
  then have "\<forall>k\<ge>Suc g. lastSet st' \<noteq> Some k" by simp
  with Cons st' show ?case by simp
qed

definition rep :: "min_env \<Rightarrow> nat \<Rightarrow> nat" where
  "rep env g = Min (members (groups env ! g))"

lemma rep_in_group:
  assumes "part_inv n accs env" and "g < length (groups env)"
  shows "rep env g < n" and "ingroup env ! rep env g = g"
  using Min_in [OF finite_members part_inv_group(4) [OF assms]] part_inv_group(3) [OF assms]
  by (simp_all add: rep_def)

lemma fix_dtran_eq:
  assumes "part_inv n accs env"
  shows "fix_dtran t accs env =
    (map (\<lambda>g. fix_row (ingroup env) (t ! rep env g)) [0..<length (groups env)],
     map (\<lambda>g. accs ! rep env g) [0..<length (groups env)])"
proof -
  have "n \<le> DFA_MAX" using assms by (simp add: part_inv_def)
  then have "Min (members (groups env ! g)) < 2 ^ 31" if "g < length (groups env)" for g
    using rep_in_group(1) [OF assms that] by (simp add: rep_def DFA_MAX_def)
  then have "\<forall>s\<in>set (groups env). set_wf s \<and> compl s = 0 \<and> members s \<noteq> {} \<and> Min (members s) < 2 ^ 31"
    using part_inv_group [OF assms] by (metis in_set_conv_nth)
  then show ?thesis
    by (simp add: fix_dtran_def fix_loop_effect rep_def map_as_upt [of _ "groups env"])
qed

text \<open>Both tables walk in step: the new one is in the group of the state of the old one.\<close>

lemma fix_dtran_simulates:
  assumes inv: "part_inv n accs env" and stable: "\<forall>k<length (groups env). stable_group t n env k"
    and wt: "wf_table n t" and n: "0 < n"
    and fd: "fix_dtran t accs env = (t', accs')" and w: "char_string w"
  shows "dfa_run t 0 w = DFA_F \<and> dfa_run t' 0 w = DFA_F \<or>
    (\<exists>q<n. dfa_run t 0 w = int q \<and> dfa_run t' 0 w = int (ingroup env ! q))"
  using w
proof (induction w rule: rev_induct)
  case Nil
  then show ?case using inv n by (auto simp: part_inv_def intro!: exI [of _ 0])
next
  case (snoc c w)
  have c: "c < MAX_CHARS" using snoc.prems by simp
  from snoc consider (F) "dfa_run t 0 w = DFA_F" "dfa_run t' 0 w = DFA_F"
    | (q) q where "q < n" "dfa_run t 0 w = int q" "dfa_run t' 0 w = int (ingroup env ! q)"
    by auto
  then show ?case
  proof cases
    case F
    then show ?thesis by simp
  next
    case q
    let ?g = "ingroup env ! q" and ?ing = "ingroup env"
    let ?r = "rep env ?g"
    have g: "?g < length (groups env)" using inv q(1) by (simp add: part_inv_def)
    have r: "?r < n" "?ing ! ?r = ?g" using rep_in_group [OF inv g] by simp_all
    have "agree t ?ing q ?r" using stable g q(1) r unfolding stable_group_def by blast
    then have ag: "t ! q ! c = t ! ?r ! c \<or> t ! q ! c \<noteq> DFA_F \<and> t ! ?r ! c \<noteq> DFA_F \<and>
        ?ing ! nat (t ! q ! c) = ?ing ! nat (t ! ?r ! c)"
      using c by (simp add: agree_def)
    have t': "t' ! ?g = fix_row ?ing (t ! ?r)"
      using fd g by (auto simp: fix_dtran_eq [OF inv])
    have row: "fix_row ?ing (t ! ?r) ! c =
        (if t ! ?r ! c = DFA_F then DFA_F else int (?ing ! nat (t ! ?r ! c)))"
      using wt r(1) c by (simp add: fix_row_def wf_table_def)
    have range: "t ! q ! c = DFA_F \<or> 0 \<le> t ! q ! c \<and> t ! q ! c < int n"
      using wt q(1) c by (simp add: wf_table_def)
    have step: "dfa_run t 0 (w @ [c]) = t ! q ! c"
      "dfa_run t' 0 (w @ [c]) = (if t ! q ! c = DFA_F then DFA_F else int (?ing ! nat (t ! q ! c)))"
      using q(2,3) ag t' row by (auto simp: dfa_step_def DFA_F_def)
    show ?thesis
    proof (cases "t ! q ! c = DFA_F")
      case True
      with step show ?thesis by simp
    next
      case False
      with range have "nat (t ! q ! c) < n" "t ! q ! c = int (nat (t ! q ! c))"
        by (simp_all add: nat_less_iff)
      with step False show ?thesis by metis
    qed
  qed
qed

lemma fix_dtran_wf:
  assumes inv: "part_inv n accs env" and wt: "wf_table n t"
    and fd: "fix_dtran t accs env = (t', accs')"
  shows "length accs' = length (groups env)" and "wf_table (length accs') t'"
proof -
  let ?ing = "ingroup env" and ?G = "length (groups env)"
  show len: "length accs' = ?G" using fd by (auto simp: fix_dtran_eq [OF inv])
  have row: "length (t' ! g) = MAX_CHARS \<and> (\<forall>c<MAX_CHARS. t' ! g ! c = DFA_F \<or>
      0 \<le> t' ! g ! c \<and> t' ! g ! c < int ?G)" if g: "g < ?G" for g
  proof -
    have r: "rep env g < n" using rep_in_group [OF inv g] by simp
    have t': "t' ! g = fix_row ?ing (t ! rep env g)"
      using fd g by (auto simp: fix_dtran_eq [OF inv])
    have l: "length (t ! rep env g) = MAX_CHARS" using wt r by (simp add: wf_table_def)
    have "nat (t ! rep env g ! c) < n" if "c < MAX_CHARS" "t ! rep env g ! c \<noteq> DFA_F" for c
    proof -
      have "0 \<le> t ! rep env g ! c \<and> t ! rep env g ! c < int n"
        using wt r that unfolding wf_table_def by blast
      then show ?thesis by (simp add: nat_less_iff)
    qed
    then show ?thesis
      using inv l by (auto simp: t' fix_row_def part_inv_def)
  qed
  have "length t' = ?G" using fd by (auto simp: fix_dtran_eq [OF inv])
  with row len show "wf_table (length accs') t'" by (simp add: wf_table_def)
qed

section \<open>Properties\<close>

lemma minimize_effect:
  assumes wt: "wf_table n t" and n: "0 < n" "n \<le> DFA_MAX"
    and ing: "length (ingroup env) = DFA_MAX"
  obtains env1 t' accs' where "minimize n t accs env = Some (Inr (t', accs'))"
    and "part_inv n accs env1" and "fix_dtran t accs env1 = (t', accs')"
    and "\<forall>k<length (groups env1). stable_group t n env1 k"
proof -
  obtain env0 where e0: "init_groups n accs env = Inr env0" "part_inv n accs env0"
    using init_groups_effect [OF n(2) ing, of accs] by (auto simp: init_inv_def)
  obtain env1 where e1: "refine_loop t env0 = Some (Inr env1)" "part_inv n accs env1"
    "\<forall>k<length (groups env1). stable_group t n env1 k"
    using refine_loop_effect [OF e0(2), where t = t] by blast
  obtain t' accs' where "fix_dtran t accs env1 = (t', accs')" by fastforce
  then show ?thesis using that [OF _ e1(2) _ e1(3)] e0(1) e1(1) by (simp add: minimize_def)
qed

text \<open>Two machines give the same answer to a string: both fail, or both stop with the same string.\<close>

definition same_answer ::
  "int list list \<Rightarrow> ACCEPT list \<Rightarrow> int list list \<Rightarrow> ACCEPT list \<Rightarrow> nat list \<Rightarrow> bool" where
  "same_answer t accs t' accs' w \<longleftrightarrow>
     (let q = dfa_run t 0 w; q' = dfa_run t' 0 w in
        (q = DFA_F \<longleftrightarrow> q' = DFA_F) \<and>
        (q \<noteq> DFA_F \<longrightarrow> acc_string (accs ! nat q) = acc_string (accs' ! nat q')))"

lemma minimize_result:
  assumes "wf_table n t" and "length accs = n" and "0 < n" and "n \<le> DFA_MAX"
    and "length (ingroup env) = DFA_MAX"
  shows "\<exists>t' accs'. minimize n t accs env = Some (Inr (t', accs')) \<and>
    length accs' \<le> n \<and> wf_table (length accs') t' \<and>
    (\<forall>w. char_string w \<longrightarrow> same_answer t accs t' accs' w)"
proof -
  obtain env1 t' accs' where m: "minimize n t accs env = Some (Inr (t', accs'))"
    and inv: "part_inv n accs env1" and fd: "fix_dtran t accs env1 = (t', accs')"
    and st: "\<forall>k<length (groups env1). stable_group t n env1 k"
    using minimize_effect [OF assms(1,3,4,5)] .
  have "same_answer t accs t' accs' w" if w: "char_string w" for w
  proof -
    have "acc_string (accs ! q) = acc_string (accs' ! (ingroup env1 ! q))" if "q < n" for q
    proof -
      let ?g = "ingroup env1 ! q"
      have g: "?g < length (groups env1)" using inv that by (simp add: part_inv_def)
      have r: "rep env1 ?g < n" "ingroup env1 ! rep env1 ?g = ?g"
        using rep_in_group [OF inv g] by simp_all
      have "accs' ! ?g = accs ! rep env1 ?g" using fd g by (auto simp: fix_dtran_eq [OF inv])
      moreover have "acc_string (accs ! rep env1 ?g) = acc_string (accs ! q)"
        using inv r that unfolding part_inv_def by blast
      ultimately show ?thesis by simp
    qed
    with fix_dtran_simulates [OF inv st assms(1,3) fd w]
    show ?thesis by (auto simp: same_answer_def DFA_F_def)
  qed
  then show ?thesis
    using m fix_dtran_wf [OF inv assms(1) fd] part_inv_groups_le(1) [OF inv] by auto
qed

text \<open>C13.
  Minimisation ends for every table of at most \<open>DFA_MAX\<close> states, without writing past
  \<open>_groups\<close>, and keeps the language: the new table, which has no more rows than the old one
  and entries in range, fails on the same strings and stops with the same accept string.
\<close>

theorem minimize_preserves_language:
  assumes "wf_table n t" and "length accs = n" and "0 < n" and "n \<le> DFA_MAX"
    and "length (ingroup env) = DFA_MAX"
  shows "\<exists>t' accs'. minimize n t accs env = Some (Inr (t', accs')) \<and>
    length accs' \<le> n \<and> wf_table (length accs') t' \<and>
    (\<forall>w. char_string w \<longrightarrow> same_answer t accs t' accs' w)"
  using minimize_result [OF assms] .

text \<open>Rows for the examples: the transitions on a few characters.\<close>

definition row_of :: "(nat \<times> int) list \<Rightarrow> int list" where
  "row_of ts = map (\<lambda>c. case map_of ts c of None \<Rightarrow> DFA_F | Some q \<Rightarrow> q) [0..<MAX_CHARS]"

lemma length_row_of [simp]: "length (row_of ts) = MAX_CHARS"
  by (simp add: row_of_def)

lemma row_of_nth: "c < MAX_CHARS \<Longrightarrow> row_of ts ! c = (case map_of ts c of None \<Rightarrow> DFA_F | Some q \<Rightarrow> q)"
  by (simp add: row_of_def)

theorem minimize_preserves_language_witness:
  "\<exists>t' accs'. minimize 2 [row_of [(97, 1)], row_of [(97, 0)]] (replicate 2 \<lparr>acc_string = Some 3, acc_anchor = 0\<rparr>)
      \<lparr>groups = [], ingroup = replicate DFA_MAX 0, iter = iter_init\<rparr> = Some (Inr (t', accs')) \<and>
    same_answer [row_of [(97, 1)], row_of [(97, 0)]] (replicate 2 \<lparr>acc_string = Some 3, acc_anchor = 0\<rparr>)
      t' accs' [97, 97]"
proof -
  have "wf_table 2 [row_of [(97, 1)], row_of [(97, 0)]]"
    by (auto simp: wf_table_def row_of_nth less_Suc_eq numeral_2_eq_2)
  from minimize_preserves_language [OF this, of "replicate 2 \<lparr>acc_string = Some 3, acc_anchor = 0\<rparr>"
      "\<lparr>groups = [], ingroup = replicate DFA_MAX 0, iter = iter_init\<rparr>"]
  show ?thesis by (auto simp: DFA_MAX_def MAX_CHARS_def)
qed

























lemma min_dfa_result:
  assumes "wf_nfa nfa" and "start < length nfa"
  shows "if DFA_MAX < card (reach_sets nfa start) then min_dfa nfa start a0 k0 st = Some (Inl Ferr)
    else \<exists>t accs. min_dfa nfa start a0 k0 st = Some (Inr (t, accs)) \<and>
      length accs \<le> card (reach_sets nfa start) \<and> wf_table (length accs) t \<and>
      (\<forall>w. char_string w \<longrightarrow>
        (dfa_run t 0 w = DFA_F \<longleftrightarrow> nfa_states nfa start w = {}) \<and>
        (dfa_run t 0 w \<noteq> DFA_F \<longrightarrow>
          acc_string (accs ! nat (dfa_run t 0 w)) = win_accept nfa (nfa_states nfa start w)))"
proof (cases "DFA_MAX < card (reach_sets nfa start)")
  case True
  then have "dfa nfa start a0 k0 = Some (Inl Ferr)"
    using dfa_result [OF assms, of a0 k0] by simp
  with True show ?thesis by (simp add: min_dfa_def)
next
  case False
  then obtain t accs where d: "dfa nfa start a0 k0 = Some (Inr (t, accs))"
    "length accs = card (reach_sets nfa start)" "wf_table (length accs) t"
    "\<And>w. char_string w \<Longrightarrow> reads_as_nfa nfa start t accs w"
    using dfa_result [OF assms, of a0 k0] by auto
  have "0 < length accs"
    using d(2) finite_reach_sets [OF assms] reach_sets_start [of nfa start]
    by (metis card_gt_0_iff empty_iff)
  moreover have "length accs \<le> DFA_MAX" using False d(2) by simp
  ultimately obtain t' accs' where m: "minimize (length accs) t accs
        \<lparr>groups = [], ingroup = replicate DFA_MAX 0, iter = st\<rparr> = Some (Inr (t', accs'))"
    "length accs' \<le> length accs" "wf_table (length accs') t'"
    "\<And>w. char_string w \<Longrightarrow> same_answer t accs t' accs' w"
    using minimize_result [OF d(3) refl, of "\<lparr>groups = [], ingroup = replicate DFA_MAX 0, iter = st\<rparr>"]
    by auto
  have "(dfa_run t' 0 w = DFA_F \<longleftrightarrow> nfa_states nfa start w = {}) \<and>
      (dfa_run t' 0 w \<noteq> DFA_F \<longrightarrow>
        acc_string (accs' ! nat (dfa_run t' 0 w)) = win_accept nfa (nfa_states nfa start w))"
    if "char_string w" for w
    using d(4) [OF that] m(4) [OF that]
    by (auto simp: reads_as_nfa_def same_answer_def Let_def DFA_F_def split: if_split_asm)
  with False d m show ?thesis by (simp add: min_dfa_def)
qed

text \<open>C11.
  The whole back end, from the automaton of the regular expressions to the tables that are
  printed: either the message about too many states, exactly when more than \<open>DFA_MAX\<close>
  state sets are reachable, or a table in which a string fails when the automaton has no
  state left for it, and otherwise stops with the accept string of the rule that wins.
\<close>

theorem min_dfa_correct:
  assumes "wf_nfa nfa" and "start < length nfa"
  shows "if DFA_MAX < card (reach_sets nfa start) then min_dfa nfa start a0 k0 st = Some (Inl Ferr)
    else \<exists>t accs. min_dfa nfa start a0 k0 st = Some (Inr (t, accs)) \<and>
      length accs \<le> card (reach_sets nfa start) \<and> wf_table (length accs) t \<and>
      (\<forall>w. char_string w \<longrightarrow>
        (dfa_run t 0 w = DFA_F \<longleftrightarrow> nfa_states nfa start w = {}) \<and>
        (dfa_run t 0 w \<noteq> DFA_F \<longrightarrow>
          acc_string (accs ! nat (dfa_run t 0 w)) = win_accept nfa (nfa_states nfa start w)))"
  using assms by (rule min_dfa_result)

theorem min_dfa_correct_witness:
  "\<exists>t accs. min_dfa demo_nfa 0 None 5 iter_init = Some (Inr (t, accs)) \<and> wf_table (length accs) t \<and>
     (dfa_run t 0 [98] = DFA_F \<longleftrightarrow> nfa_states demo_nfa 0 [98] = {})"
proof -
  have c: "char_string [98]" by (simp add: MAX_CHARS_def)
  have "0 < length demo_nfa" by (simp add: length_demo_nfa)
  note r = min_dfa_correct [OF wf_demo_nfa this, of None 5 iter_init]
  have "\<not> DFA_MAX < card (reach_sets demo_nfa 0)" using demo_reach_card by simp
  with r c show ?thesis unfolding if_not_P by metis
qed

text \<open>
  Two rules with the same action, the second only at the end of a line: state 2 has the
  string of state 1 and another anchor.
\<close>

definition anchor_dfa :: "int list list" where
  "anchor_dfa = [row_of [(97, 1), (98, 2)], row_of [], row_of []]"

definition anchor_acc :: "ACCEPT list" where
  "anchor_acc = [\<lparr>acc_string = None, acc_anchor = NONE\<rparr>, \<lparr>acc_string = Some 0, acc_anchor = NONE\<rparr>,
     \<lparr>acc_string = Some 0, acc_anchor = END_ANCHOR\<rparr>]"

text \<open>
  Anchors do not count in the initial partition: two states with the same accept string
  and different anchors are merged, and the anchor of the first is kept for both.
\<close>

theorem minimize_merges_anchors:
  "map_option (map_sum id snd) (minimize 3 anchor_dfa anchor_acc
      \<lparr>groups = [], ingroup = replicate DFA_MAX 0, iter = iter_init\<rparr>) =
     Some (Inr [\<lparr>acc_string = None, acc_anchor = NONE\<rparr>, \<lparr>acc_string = Some 0, acc_anchor = NONE\<rparr>])"
proof -
  let ?env = "\<lparr>groups = [], ingroup = replicate DFA_MAX 0, iter = iter_init\<rparr>"
  obtain env0 where e0: "init_groups 3 anchor_acc ?env = Inr env0" "part_inv 3 anchor_acc env0"
    using init_groups_effect [of 3 ?env anchor_acc] by (auto simp: init_inv_def DFA_MAX_def)
  have "map_sum id (\<lambda>env. (length (groups env), ingroup env)) (init_groups 3 anchor_acc ?env) =
      Inr (2, (replicate DFA_MAX 0)[1 := 1, 2 := 1])"
    by code_simp
  with e0(1) have g0: "length (groups env0) = 2" "ingroup env0 = (replicate DFA_MAX 0)[1 := 1, 2 := 1]"
    by simp_all
  have k: "3 - 0 \<le> Suc (Suc (Suc 0))" by simp
  have u: "[0..<3] = [0, Suc 0, 2]" by (simp add: upt_rec)
  have ag: "agree anchor_dfa (ingroup env0) (Suc 0) 2" by (simp add: agree_def anchor_dfa_def)
  have "ref_pass anchor_dfa 3 (Suc (Suc (Suc 0))) 0 (2, ingroup env0) = (2, ingroup env0)"
    using ag g0(2) by (simp add: split_class_def u DFA_MAX_def Let_def)
  then obtain env1 where e1: "pass_loop anchor_dfa 0 env0 = Some (Inr env1)" "part_inv 3 anchor_acc env1"
    "length (groups env1) = 2" "ingroup env1 = ingroup env0"
    using pass_loop_ref [OF e0(2) k, where t = anchor_dfa] g0(1) by auto
  have "refine_loop anchor_dfa env0 = Some (Inr env1)"
    using e1 g0 by (simp add: refine_loop.simps [of anchor_dfa env0])
  moreover have "rep env1 0 = 0" "rep env1 (Suc 0) = Suc 0"
  proof -
    have "{i. i < 3 \<and> ingroup env1 ! i = 0} = {0}" "{i. i < 3 \<and> ingroup env1 ! i = Suc 0} = {Suc 0, 2}"
      using e1(4) g0(2) by (auto simp: less_Suc_eq numeral_3_eq_3 numeral_2_eq_2 DFA_MAX_def)
    then show "rep env1 0 = 0" "rep env1 (Suc 0) = Suc 0"
      using part_inv_group(3) [OF e1(2)] e1(3) by (simp_all add: rep_def)
  qed
  moreover have "[0..<2] = [0, Suc 0]" by (simp add: upt_rec)
  ultimately show ?thesis
    using e0(1) e1(3) by (simp add: minimize_def fix_dtran_eq [OF e1(2)]) (simp add: anchor_acc_def)
qed

end
