(* ===== verification/CString.thy ===== *)
theory CString
  imports Prelude
begin

text \<open>
  C strings and the character functions of the standard library.  A string is the list of
  its characters without the terminating null; reading at its end gives 0, and moving the
  pointer beyond the terminator is \<open>Overflow\<close>.  A \<open>char\<close> is signed: \<open>sch\<close> is its value as
  an \<open>int\<close>.
\<close>

definition sch :: "char \<Rightarrow> int" where
  "sch c = (let n = (of_char c :: nat) in if n < 128 then int n else int n - 256)"

definition chr :: "int \<Rightarrow> char" where
  "chr n = char_of (nat (n mod 256))"

definition peek :: "string \<Rightarrow> int" where
  "peek s = (case s of [] \<Rightarrow> 0 | c # _ \<Rightarrow> sch c)"

definition bump :: "string \<Rightarrow> string res" where
  "bump s = (case s of [] \<Rightarrow> Inl Overflow | _ # t \<Rightarrow> Inr t)"

definition isdigit :: "int \<Rightarrow> bool" where
  "isdigit c \<longleftrightarrow> 48 \<le> c \<and> c \<le> 57"

definition isxdigit :: "int \<Rightarrow> bool" where
  "isxdigit c \<longleftrightarrow> isdigit c \<or> 97 \<le> c \<and> c \<le> 102 \<or> 65 \<le> c \<and> c \<le> 70"

definition isspace :: "int \<Rightarrow> bool" where
  "isspace c \<longleftrightarrow> c = 32 \<or> 9 \<le> c \<and> c \<le> 13"

definition toupper :: "int \<Rightarrow> int" where
  "toupper c = (if 97 \<le> c \<and> c \<le> 122 then c - 32 else c)"

lemma code_less: "(of_char c :: nat) < 256"
  by (metis mod_less_divisor of_char_mod_256 zero_less_numeral)

lemma sch_range: "- 128 \<le> sch c \<and> sch c < 128"
proof -
  obtain n where n: "n = (of_char c :: nat)" "n < 256" using code_less by blast
  show ?thesis unfolding sch_def Let_def n(1) [symmetric] using n(2) by auto
qed

lemma sch_chr: "0 \<le> n \<Longrightarrow> n < 128 \<Longrightarrow> sch (chr n) = n"
  by (simp add: sch_def chr_def Let_def nat_less_iff)

lemma sch_inj: "sch c = sch d \<longleftrightarrow> c = d"
proof
  obtain m where m: "m = (of_char c :: nat)" "m < 256" using code_less by blast
  obtain n where n: "n = (of_char d :: nat)" "n < 256" using code_less by blast
  assume "sch c = sch d"
  then have "m = n"
    using m(2) n(2) unfolding sch_def Let_def m(1) [symmetric] n(1) [symmetric]
    by (auto split: if_split_asm)
  then show "c = d" using m(1) n(1) by simp
qed simp

lemma peek_simps [simp]: "peek [] = 0" "peek (c # s) = sch c"
  by (simp_all add: peek_def)

lemma bump_simps [simp]: "bump [] = Inl Overflow" "bump (c # s) = Inr s"
  by (simp_all add: bump_def)

end
