(* ===== verification/Escapes.thy ===== *)
theory Escapes
  imports CString
begin

text \<open>
  Character conversions and string utilities of \<open>src/compiler/lib/syslib.c\<close> and
  \<open>src/compiler/lib/com.c\<close>: printable forms and escape sequences, numbers, truncating
  copies.
\<close>

section \<open>Printable characters and escape sequences\<close>

definition hex2bin :: "int \<Rightarrow> int" where
  "hex2bin c = (if isdigit c then c - 48 else (toupper c - 65 + 10) mod 16)"

definition oct2bin :: "int \<Rightarrow> int" where
  "oct2bin c = (c - 48) mod 8"

definition IS_HEXDIGIT :: "int \<Rightarrow> bool" where
  "IS_HEXDIGIT x \<longleftrightarrow> isdigit x \<or> 97 \<le> x \<and> x \<le> 102 \<or> 65 \<le> x \<and> x \<le> 70"

definition IS_OCTDIGIT :: "int \<Rightarrow> bool" where
  "IS_OCTDIGIT x \<longleftrightarrow> 48 \<le> x \<and> x \<le> 55"

text \<open>The conversions \<open>%03x\<close> and \<open>%03o\<close> for a value below 256.\<close>

definition digit_char :: "int \<Rightarrow> char" where
  "digit_char d = (if d < 10 then chr (48 + d) else chr (97 + d - 10))"

definition digits3 :: "int \<Rightarrow> int \<Rightarrow> string" where
  "digits3 b n = [digit_char (n div (b * b) mod b), digit_char (n div b mod b), digit_char (n mod b)]"

definition sys_bin_to_ascii :: "int \<Rightarrow> bool \<Rightarrow> string" where
  "sys_bin_to_ascii c0 use_hex =
     (let c = c0 mod 256
      in if 32 \<le> c \<and> c < 127 \<and> c \<noteq> 39 \<and> c \<noteq> 92 then [chr c]
         else CHR 0x5C #
           (if c = 92 then [CHR 0x5C]
            else if c = 39 then [CHR 0x27]
            else if c = 8 then ''b''
            else if c = 12 then ''f''
            else if c = 9 then ''t''
            else if c = 13 then ''r''
            else if c = 10 then ''n''
            else if use_hex then CHR ''x'' # digits3 16 c else digits3 8 c))"

text \<open>
  \<open>sys_esc\<close> returns the value and the moved pointer.  \<open>esc_digits\<close> is the run of at most
  \<open>k\<close> digits of the hexadecimal and the octal form.
\<close>

fun esc_digits :: "(int \<Rightarrow> bool) \<Rightarrow> (int \<Rightarrow> int) \<Rightarrow> nat \<Rightarrow> nat \<Rightarrow> int \<Rightarrow> string \<Rightarrow> int \<times> string" where
  "esc_digits is_digit to_bin sh 0 rval s = (rval, s)"
| "esc_digits is_digit to_bin sh (Suc k) rval s =
     (if is_digit (peek s)
      then esc_digits is_digit to_bin sh k (push_bit sh rval OR to_bin (peek s)) (tl s)
      else esc_digits is_digit to_bin sh k rval s)"

definition esc_step :: "int \<Rightarrow> string \<Rightarrow> (int \<times> string) res" where
  "esc_step rval s = bind_res (bump s) (\<lambda>t. Inr (rval, t))"

definition sys_esc :: "string \<Rightarrow> (int \<times> string) res" where
  "sys_esc s =
     (if peek s \<noteq> 92 then esc_step (peek s) s
      else
        (let s1 = tl s; u = toupper (peek s1)
         in if u = 0 then esc_step 92 s1
            else if u = 66 then esc_step 8 s1
            else if u = 70 then esc_step 12 s1
            else if u = 78 then esc_step 10 s1
            else if u = 82 then esc_step 13 s1
            else if u = 83 then esc_step 32 s1
            else if u = 84 then esc_step 9 s1
            else if u = 69 then esc_step 27 s1
            else if u = 94 then
              (let s2 = tl s1 in esc_step (toupper (peek s2) - 64) s2)
            else if u = 88 then Inr (esc_digits IS_HEXDIGIT hex2bin 4 3 0 (tl s1))
            else if \<not> IS_OCTDIGIT (peek s1) then esc_step (peek s1) s1
            else Inr (esc_digits IS_OCTDIGIT oct2bin 3 3 0 s1)))"

section \<open>Numbers\<close>

text \<open>\<open>unsigned long\<close> has 64 bits.\<close>

fun skip_space :: "string \<Rightarrow> string" where
  "skip_space [] = []"
| "skip_space (c # s) = (if isspace (sch c) then skip_space s else c # s)"

fun scan_num :: "(int \<Rightarrow> bool) \<Rightarrow> (int \<Rightarrow> int) \<Rightarrow> int \<Rightarrow> int \<Rightarrow> string \<Rightarrow> int \<times> string" where
  "scan_num ok val b num [] = (num, [])"
| "scan_num ok val b num (c # s) =
     (if ok (sch c) then scan_num ok val b ((num * b + val (sch c)) mod 2 ^ 64) s
      else (num, c # s))"

definition hex_val :: "int \<Rightarrow> int" where
  "hex_val c = (if isdigit c then c - 48 else toupper c - 65 + 10)"

definition sys_stoul :: "string \<Rightarrow> int \<times> string" where
  "sys_stoul instr =
     (let str = skip_space instr
      in if peek str \<noteq> 48 then scan_num isdigit (\<lambda>c. c - 48) 10 0 str
         else (let s1 = tl str
               in if peek s1 = 88 \<or> peek s1 = 120
                  then scan_num isxdigit hex_val 16 0 (tl s1)
                  else scan_num (\<lambda>c. 48 \<le> c \<and> c \<le> 55) (\<lambda>c. c - 48) 8 0 s1))"

text \<open>The conversion of an \<open>unsigned long\<close> to \<open>long\<close>, and the negation of a \<open>long\<close>.\<close>

definition to_long :: "int \<Rightarrow> int" where
  "to_long n = (n + 2 ^ 63) mod 2 ^ 64 - 2 ^ 63"

definition sys_stol :: "string \<Rightarrow> int \<times> string" where
  "sys_stol instr =
     (let str = skip_space instr
      in if peek str \<noteq> 45 then (case sys_stoul str of (n, r) \<Rightarrow> (to_long n, r))
         else (case sys_stoul (tl str) of (n, r) \<Rightarrow> (to_long (- to_long n), r)))"

section \<open>Truncating output\<close>

text \<open>
  \<open>sys_fputstr\<close> as the characters it puts; the inner loop returns what is left of
  \<open>maxlen\<close>, which is \<open>- 1\<close> when it stopped in the middle.
\<close>

fun put_chars :: "string \<Rightarrow> int \<Rightarrow> string \<times> int" where
  "put_chars [] maxlen = ([], maxlen)"
| "put_chars (c # s) maxlen =
     (if 0 \<le> maxlen - 1 then (case put_chars s (maxlen - 1) of (out, m) \<Rightarrow> (c # out, m))
      else ([], maxlen - 1))"

fun sys_fputstr :: "string \<Rightarrow> int \<Rightarrow> string" where
  "sys_fputstr [] maxlen = []"
| "sys_fputstr (c # str) maxlen =
     (if 0 \<le> maxlen
      then (case put_chars (sys_bin_to_ascii (sch c) True) maxlen of
              (out, m) \<Rightarrow> out @ sys_fputstr str m)
      else [])"

text \<open>
  \<open>com_concat\<close> as the text it leaves in the destination, before the null character, and
  its return value.  The argument list ends with a null pointer.
\<close>

fun copy_src :: "string \<Rightarrow> int \<Rightarrow> string \<times> int" where
  "copy_src [] n = ([], n)"
| "copy_src (c # src) n =
     (if 1 < n then (case copy_src src (n - 1) of (out, m) \<Rightarrow> (c # out, m))
      else ([], n - 1))"

fun concat_loop :: "string list \<Rightarrow> int \<Rightarrow> string \<times> int \<times> string option" where
  "concat_loop [] n = ([], n, None)"
| "concat_loop (src # srcs) n =
     (if 1 < n
      then (case copy_src src n of (out, m) \<Rightarrow>
             (case concat_loop srcs m of (rest, r) \<Rightarrow> (out @ rest, r)))
      else ([], n, Some src))"

definition com_concat :: "int \<Rightarrow> string list \<Rightarrow> string \<times> int" where
  "com_concat sz srcs =
     (case concat_loop srcs sz of
        (dst, n, src) \<Rightarrow>
          (dst, if n \<le> 1 \<and> (case src of None \<Rightarrow> False | Some s \<Rightarrow> s \<noteq> []) then - 1 else n))"

section \<open>Digits\<close>

lemma or_digit:
  fixes r d :: int
  assumes "0 \<le> d" and "d < 2 ^ k"
  shows "push_bit k r OR d = r * 2 ^ k + d"
proof -
  have "take_bit k d = d" using assms by (simp add: take_bit_int_eq_self)
  then have "\<not> bit (push_bit k r) n \<or> \<not> bit d n" for n
    by (metis bit_push_bit_iff bit_take_bit_iff not_less)
  then have "push_bit k r + d = push_bit k r OR d" by (rule disjunctive_add)
  then show ?thesis by (simp add: push_bit_eq_mult)
qed

lemma sch_digit_char:
  assumes "0 \<le> d" and "d < 16"
  shows "sch (digit_char d) = (if d < 10 then 48 + d else 87 + d)"
  using assms by (simp add: digit_char_def sch_chr)

lemma hex_digit:
  assumes "0 \<le> d" and "d < 16"
  shows "IS_HEXDIGIT (sch (digit_char d))" and "hex2bin (sch (digit_char d)) = d"
  using assms by (auto simp: sch_digit_char IS_HEXDIGIT_def hex2bin_def isdigit_def toupper_def)

lemma oct_digit:
  assumes "0 \<le> d" and "d < 8"
  shows "IS_OCTDIGIT (sch (digit_char d))" and "oct2bin (sch (digit_char d)) = d"
  using assms by (auto simp: sch_digit_char IS_OCTDIGIT_def oct2bin_def)

lemma esc_digits_3:
  assumes "0 \<le> n" and "n < (2 ^ k) ^ 3"
    and dig: "\<And>d. 0 \<le> d \<Longrightarrow> d < 2 ^ k \<Longrightarrow> is_digit (sch (digit_char d)) \<and> to_bin (sch (digit_char d)) = d"
  shows "esc_digits is_digit to_bin k 3 0 (digits3 (2 ^ k) n @ rest) = (n, rest)"
proof -
  let ?b = "2 ^ k :: int"
  let ?d2 = "n div (?b * ?b) mod ?b" and ?d1 = "n div ?b mod ?b" and ?d0 = "n mod ?b"
  have b: "0 < ?b" by simp
  have r: "0 \<le> ?d2" "?d2 < ?b" "0 \<le> ?d1" "?d1 < ?b" "0 \<le> ?d0" "?d0 < ?b" by simp_all
  have "n div (?b * ?b) < ?b"
  proof (rule ccontr)
    assume "\<not> n div (?b * ?b) < ?b"
    then have "?b * (?b * ?b) \<le> n div (?b * ?b) * (?b * ?b)" by (intro mult_right_mono) simp_all
    also have "\<dots> \<le> n" by (simp add: minus_mod_eq_div_mult [symmetric])
    finally show False using assms(2) by (simp add: power3_eq_cube mult.assoc)
  qed
  moreover have "0 \<le> n div (?b * ?b)" using assms(1) by (simp add: pos_imp_zdiv_nonneg_iff)
  ultimately have d2: "?d2 = n div (?b * ?b)" by simp
  have n: "(?d2 * ?b + ?d1) * ?b + ?d0 = n"
  proof -
    have "?d2 = n div ?b div ?b" using d2 by (simp only: zdiv_zmult2_eq b [THEN less_imp_le])
    then have "?d2 * ?b + ?d1 = n div ?b" by (simp only: div_mult_mod_eq)
    then show ?thesis by (simp only: div_mult_mod_eq)
  qed
  show ?thesis
    using r n dig [OF r(1,2)] dig [OF r(3,4)] dig [OF r(5,6)]
    by (simp add: digits3_def numeral_3_eq_3 or_digit)
qed

section \<open>Truncation\<close>

lemma put_chars_eq:
  "0 \<le> m \<Longrightarrow> put_chars s m = (take (nat m) s, if int (length s) \<le> m then m - int (length s) else - 1)"
proof (induction s arbitrary: m)
  case (Cons c s)
  then show ?case by (cases "nat m") (auto simp: nat_eq_iff2 nat_diff_distrib)
qed simp

lemma sys_fputstr_neg: "sys_fputstr str (- 1) = []"
  by (cases str) simp_all

lemma sys_fputstr_take:
  "0 \<le> m \<Longrightarrow> sys_fputstr str m = take (nat m) (concat (map (\<lambda>c. sys_bin_to_ascii (sch c) True) str))"
proof (induction str arbitrary: m)
  case (Cons c str)
  let ?s = "sys_bin_to_ascii (sch c) True"
  show ?case
  proof (cases "int (length ?s) \<le> m")
    case True
    then show ?thesis using Cons by (simp add: put_chars_eq nat_diff_distrib)
  next
    case False
    then show ?thesis using Cons.prems by (simp add: put_chars_eq sys_fputstr_neg)
  qed
qed simp

lemma copy_src_eq:
  "1 \<le> n \<Longrightarrow> copy_src s n =
     (take (nat (n - 1)) s, if int (length s) \<le> n - 1 then n - int (length s) else 0)"
proof (induction s arbitrary: n)
  case (Cons c s)
  show ?case
  proof (cases "1 < n")
    case True
    then have "nat (n - 1) = Suc (nat (n - 1 - 1))" by arith
    with True Cons.IH [of "n - 1"] show ?thesis by auto
  next
    case False
    with Cons.prems have "n = 1" by simp
    then show ?thesis by simp
  qed
qed simp

lemma concat_loop_text:
  "1 \<le> n \<Longrightarrow> fst (concat_loop srcs n) = take (nat (n - 1)) (concat srcs)"
proof (induction srcs arbitrary: n)
  case (Cons s srcs)
  show ?case
  proof (cases "int (length s) \<le> n - 1")
    case True
    then have "nat (n - int (length s) - 1) = nat (n - 1) - length s" by arith
    with True Cons show ?thesis
      by (cases "1 < n") (auto simp: copy_src_eq split_beta)
  next
    case False
    have "fst (concat_loop srcs 0) = []" by (cases srcs) simp_all
    with False Cons.prems show ?thesis
      by (cases "1 < n") (auto simp: copy_src_eq split_beta)
  qed
qed simp

lemma concat_loop_fits:
  "int (length (concat srcs)) < n \<Longrightarrow>
     \<exists>r. snd (concat_loop srcs n) = (n - int (length (concat srcs)), r) \<and> (r = None \<or> r = Some [])"
proof (induction srcs arbitrary: n)
  case (Cons s srcs)
  show ?case
  proof (cases "1 < n")
    case True
    with Cons.prems have "copy_src s n = (s, n - int (length s))" by (simp add: copy_src_eq)
    with True Cons.prems Cons.IH [of "n - int (length s)"] show ?thesis
      by (auto simp: split_beta algebra_simps)
  next
    case False
    with Cons.prems have "length s = 0" "length (concat srcs) = 0" "n = 1"
      unfolding concat.simps length_append of_nat_add by linarith+
    then show ?thesis by simp
  qed
qed simp

lemma com_concat_text: "1 \<le> n \<Longrightarrow> fst (com_concat n srcs) = take (nat (n - 1)) (concat srcs)"
  using concat_loop_text [of n srcs] by (simp add: com_concat_def split_beta)

lemma com_concat_fits:
  assumes "int (length (concat srcs)) < n"
  shows "snd (com_concat n srcs) = n - int (length (concat srcs))"
  using concat_loop_fits [OF assms] by (auto simp: com_concat_def split_beta)

section \<open>Reading numbers\<close>

definition num_val :: "int \<Rightarrow> int list \<Rightarrow> int" where
  "num_val b ds = foldl (\<lambda>n d. n * b + d) 0 ds"

lemma digit10: "d \<in> {0..9} \<Longrightarrow> isdigit (sch (digit_char d)) \<and> sch (digit_char d) - 48 = d"
  by (simp add: sch_digit_char isdigit_def)

lemma digit16: "d \<in> {0..15} \<Longrightarrow> isxdigit (sch (digit_char d)) \<and> hex_val (sch (digit_char d)) = d"
  by (simp add: sch_digit_char isdigit_def isxdigit_def hex_val_def toupper_def)

lemma digit8: "d \<in> {0..7} \<Longrightarrow>
    (48 \<le> sch (digit_char d) \<and> sch (digit_char d) \<le> 55) \<and> sch (digit_char d) - 48 = d"
  by (simp add: sch_digit_char)

lemma skip_space_append: "\<forall>c\<in>set sp. isspace (sch c) \<Longrightarrow> skip_space (sp @ s) = skip_space s"
  by (induction sp) simp_all

lemma skip_space_digit: "0 \<le> d \<Longrightarrow> d < 16 \<Longrightarrow> skip_space (digit_char d # s) = digit_char d # s"
  by (simp add: sch_digit_char isspace_def)

lemma scan_num_digits:
  assumes "\<forall>d\<in>set ds. ok (sch (digit_char d)) \<and> val (sch (digit_char d)) = d"
    and "rest = [] \<or> \<not> ok (peek rest)"
  shows "scan_num ok val b n (map digit_char ds @ rest) =
    (foldl (\<lambda>n d. (n * b + d) mod 2 ^ 64) n ds, rest)"
  using assms by (induction ds arbitrary: n) (cases rest; simp)+

lemma foldl_mod:
  fixes m b :: int
  shows "foldl (\<lambda>n d. (n * b + d) mod m) (n mod m) ds = foldl (\<lambda>n d. n * b + d) n ds mod m"
proof (induction ds arbitrary: n)
  case (Cons d ds)
  have "(n mod m * b + d) mod m = (n * b + d) mod m" by (metis mod_add_left_eq mod_mult_left_eq)
  then show ?case using Cons [of "n * b + d"] by simp
qed simp

lemma scan_num_val:
  assumes "\<forall>d\<in>set ds. ok (sch (digit_char d)) \<and> val (sch (digit_char d)) = d"
    and "rest = [] \<or> \<not> ok (peek rest)"
  shows "scan_num ok val b 0 (map digit_char ds @ rest) = (num_val b ds mod 2 ^ 64, rest)"
  using scan_num_digits [OF assms, of b 0] foldl_mod [of b "2 ^ 64" 0 ds]
  by (simp add: num_val_def)

lemma sys_stoul_dec:
  "skip_space s = t \<Longrightarrow> peek t \<noteq> 48 \<Longrightarrow> sys_stoul s = scan_num isdigit (\<lambda>c. c - 48) 10 0 t"
  by (simp add: sys_stoul_def)

lemma sys_stoul_hex:
  "skip_space s = ''0x'' @ t \<Longrightarrow> sys_stoul s = scan_num isxdigit hex_val 16 0 t"
  by (simp add: sys_stoul_def sch_def)

lemma sys_stoul_oct:
  "skip_space s = CHR ''0'' # t \<Longrightarrow> peek t \<noteq> 88 \<and> peek t \<noteq> 120 \<Longrightarrow>
   sys_stoul s = scan_num (\<lambda>c. 48 \<le> c \<and> c \<le> 55) (\<lambda>c. c - 48) 8 0 t"
  by (simp add: sys_stoul_def sch_def)

text \<open>What may follow a number.\<close>

definition ends_number :: "string \<Rightarrow> bool" where
  "ends_number rest \<longleftrightarrow> rest = [] \<or> \<not> isxdigit (peek rest) \<and> peek rest \<noteq> 88 \<and> peek rest \<noteq> 120"

section \<open>Properties\<close>

text \<open>C27.
  Reading back what \<open>sys_bin_to_ascii\<close> printed gives the character, in the hexadecimal and
  in the octal form, and leaves the pointer behind it, whatever text follows: \<open>sys_esc\<close>
  takes at most the three digits that are printed.
\<close>

theorem sys_esc_inverts_bin_to_ascii:
  "sys_esc (sys_bin_to_ascii c use_hex @ rest) = Inr (c mod 256, rest)"
proof -
  let ?c = "c mod 256"
  have c: "0 \<le> ?c" "?c < 256" by simp_all
  have hex: "esc_digits IS_HEXDIGIT hex2bin 4 3 0 (digits3 16 ?c @ rest) = (?c, rest)"
    using esc_digits_3 [of ?c 4 IS_HEXDIGIT hex2bin rest] c hex_digit by simp
  have oct: "esc_digits IS_OCTDIGIT oct2bin 3 3 0 (digits3 8 ?c @ rest) = (?c, rest)"
    using esc_digits_3 [of ?c 3 IS_OCTDIGIT oct2bin rest] c oct_digit by simp
  have lead: "peek (digits3 8 ?c @ rest) = 48 + ?c div 64 mod 8" "?c div 64 mod 8 < 8" "0 \<le> ?c div 64 mod 8"
    by (simp_all add: digits3_def sch_digit_char)
  have codes: "sch CHR 0x5C = 92" "sch CHR 0x27 = 39" "sch CHR ''x'' = 120" "sch CHR ''b'' = 98"
    "sch CHR ''f'' = 102" "sch CHR ''t'' = 116" "sch CHR ''r'' = 114" "sch CHR ''n'' = 110"
    by (simp_all add: sch_def)
  have first: "\<not> isdigit 92" "peek (chr ?c # rest) = ?c" if "?c < 127"
    using that c by (simp_all add: isdigit_def sch_chr)
  consider (plain) "32 \<le> ?c" "?c < 127" "?c \<noteq> 39" "?c \<noteq> 92"
    | (named) "?c = 92 \<or> ?c = 39 \<or> ?c = 8 \<or> ?c = 12 \<or> ?c = 9 \<or> ?c = 13 \<or> ?c = 10"
    | (num) "\<not> (32 \<le> ?c \<and> ?c < 127)"
      "?c \<noteq> 92" "?c \<noteq> 39" "?c \<noteq> 8" "?c \<noteq> 12" "?c \<noteq> 9" "?c \<noteq> 13" "?c \<noteq> 10"
    by blast
  then show ?thesis
  proof cases
    case plain
    then show ?thesis using first by (simp add: sys_bin_to_ascii_def sys_esc_def esc_step_def Let_def)
  next
    case named
    then show ?thesis
      by (elim disjE)
        (simp_all add: sys_bin_to_ascii_def sys_esc_def esc_step_def Let_def codes toupper_def
          IS_OCTDIGIT_def)
  next
    case num
    have eq: "sys_bin_to_ascii c use_hex =
        CHR 0x5C # (if use_hex then CHR ''x'' # digits3 16 ?c else digits3 8 ?c)"
      unfolding sys_bin_to_ascii_def Let_def by (simp only: num simp_thms if_False)
    show ?thesis
    proof (cases use_hex)
      case True
      then show ?thesis unfolding eq using hex by (simp add: sys_esc_def Let_def codes toupper_def)
    next
      case False
      let ?s = "digits3 8 ?c @ rest"
      have "IS_OCTDIGIT (peek ?s)" "toupper (peek ?s) = peek ?s" "48 \<le> peek ?s" "peek ?s < 56"
        using lead by (simp_all add: IS_OCTDIGIT_def toupper_def)
      then have "sys_esc (CHR 0x5C # ?s) = Inr (?c, rest)"
        using oct by (simp add: sys_esc_def Let_def codes)
      with False show ?thesis unfolding eq by simp
    qed
  qed
qed

text \<open>C28.
  \<open>sys_stoul\<close> skips leading space, reads a decimal number, a hexadecimal one after \<open>0x\<close> or
  an octal one after \<open>0\<close>, returns its value modulo \<open>2 ^ 64\<close>, and leaves the pointer at the
  first character that is not part of it.
\<close>

theorem sys_stoul_reads_number:
  assumes "\<forall>c\<in>set sp. isspace (sch c)" and "ends_number rest"
  shows "{ds. ds \<noteq> [] \<and> hd ds \<noteq> 0 \<and> set ds \<subseteq> {0..9}} \<subseteq>
      {ds. sys_stoul (sp @ map digit_char ds @ rest) = (num_val 10 ds mod 2 ^ 64, rest)} \<and>
    {ds. set ds \<subseteq> {0..15}} \<subseteq>
      {ds. sys_stoul (sp @ ''0x'' @ map digit_char ds @ rest) = (num_val 16 ds mod 2 ^ 64, rest)} \<and>
    {ds. set ds \<subseteq> {0..7}} \<subseteq>
      {ds. sys_stoul (sp @ ''0'' @ map digit_char ds @ rest) = (num_val 8 ds mod 2 ^ 64, rest)}"
proof (intro conjI subsetI CollectI; elim CollectE conjE)
  have zero: "sch CHR ''0'' = 48" "sch CHR ''x'' = 120" by (simp_all add: sch_def)
  have end10: "rest = [] \<or> \<not> isdigit (peek rest)" and end8: "rest = [] \<or> \<not> (48 \<le> peek rest \<and> peek rest \<le> 55)"
    and end16: "rest = [] \<or> \<not> isxdigit (peek rest)"
    using assms(2) by (auto simp: ends_number_def isxdigit_def isdigit_def)
  {
    fix ds :: "int list"
    assume ds: "ds \<noteq> []" "hd ds \<noteq> 0" "set ds \<subseteq> {0..9}"
    then obtain d ds' where c: "ds = d # ds'" "d \<noteq> 0" "0 \<le> d" "d < 10" by (cases ds) auto
    have "scan_num isdigit (\<lambda>c. c - 48) 10 0 (map digit_char ds @ rest) = (num_val 10 ds mod 2 ^ 64, rest)"
      using subsetD [OF ds(3)] digit10 end10 by (intro scan_num_val) blast+
    then show "sys_stoul (sp @ map digit_char ds @ rest) = (num_val 10 ds mod 2 ^ 64, rest)"
      using c skip_space_digit [of d]
      by (subst sys_stoul_dec [where t = "map digit_char ds @ rest"])
        (simp_all add: skip_space_append [OF assms(1)] sch_digit_char)
  next
    fix ds :: "int list"
    assume ds: "set ds \<subseteq> {0..15}"
    have "scan_num isxdigit hex_val 16 0 (map digit_char ds @ rest) = (num_val 16 ds mod 2 ^ 64, rest)"
      using subsetD [OF ds] digit16 end16 by (intro scan_num_val) blast+
    then show "sys_stoul (sp @ ''0x'' @ map digit_char ds @ rest) = (num_val 16 ds mod 2 ^ 64, rest)"
      by (subst sys_stoul_hex [where t = "map digit_char ds @ rest"])
        (simp_all add: skip_space_append [OF assms(1)] zero isspace_def)
  next
    fix ds :: "int list"
    assume ds: "set ds \<subseteq> {0..7}"
    have s: "scan_num (\<lambda>c. 48 \<le> c \<and> c \<le> 55) (\<lambda>c. c - 48) 8 0 (map digit_char ds @ rest) =
        (num_val 8 ds mod 2 ^ 64, rest)"
      using subsetD [OF ds] digit8 end8 by (intro scan_num_val) blast+
    have "peek (map digit_char ds @ rest) \<noteq> 88 \<and> peek (map digit_char ds @ rest) \<noteq> 120"
      using ds assms(2) by (cases ds; cases rest) (auto simp: sch_digit_char ends_number_def)
    with s show "sys_stoul (sp @ ''0'' @ map digit_char ds @ rest) = (num_val 8 ds mod 2 ^ 64, rest)"
      by (subst sys_stoul_oct [where t = "map digit_char ds @ rest"])
        (simp_all add: skip_space_append [OF assms(1)] zero isspace_def)
  }
qed

theorem sys_stoul_reads_number_witness:
  "sys_stoul '' 0x1f;'' = (31, '';'')"
proof -
  have a: "\<forall>c\<in>set '' ''. isspace (sch c)" "ends_number '';''"
    by (simp_all add: isspace_def sch_def ends_number_def isxdigit_def isdigit_def)
  have "[1, 15] \<in> {ds. sys_stoul ('' '' @ ''0x'' @ map digit_char ds @ '';'') = (num_val 16 ds mod 2 ^ 64, '';'')}"
    using subsetD [OF conjunct1 [OF conjunct2 [OF sys_stoul_reads_number [OF a]]], of "[1, 15]"] by simp
  moreover have "map digit_char [1, 15] = ''1f''" by code_simp
  moreover have "num_val 16 [1, 15] mod 2 ^ 64 = 31" by (simp add: num_val_def)
  ultimately show ?thesis by simp
qed

text \<open>C29.
  \<open>sys_fputstr\<close> never puts more than \<open>maxlen\<close> characters: its output is the printable form
  of the string cut off after that many.
\<close>

theorem sys_fputstr_truncates:
  "sys_fputstr str (int m) = take m (concat (map (\<lambda>c. sys_bin_to_ascii (sch c) True) str))"
  using sys_fputstr_take [of "int m" str] by simp

text \<open>
  \<open>com_concat\<close> leaves the concatenation of its arguments in the destination, cut off after
  \<open>size - 1\<close> characters, and returns what is left of \<open>size\<close> when everything fits.  The
  return value \<open>- 1\<close> for a cut-off text is not reliable: if the last argument is cut off,
  the next one is the null pointer and the value is 0.
\<close>

theorem com_concat_truncates:
  assumes "1 \<le> n"
  shows "fst (com_concat n srcs) = take (nat (n - 1)) (concat srcs) \<and>
    (int (length (concat srcs)) < n \<longrightarrow> snd (com_concat n srcs) = n - int (length (concat srcs))) \<and>
    com_concat 3 [''abc''] = (''ab'', 0) \<and> com_concat 3 [''abc'', ''d''] = (''ab'', - 1)"
  using com_concat_text [OF assms] com_concat_fits by (auto simp: com_concat_def)

theorem com_concat_truncates_witness:
  "com_concat 6 [''ab'', ''c''] = (''abc'', 3)"
  using com_concat_truncates [of 6 "[''ab'', ''c'']"] by (simp add: prod_eq_iff)

end
