(* ===== verification/Tables.thy ===== *)
theory Tables
  imports Escapes
begin

text \<open>
  The table printers of \<open>src/compiler/lib/syslib.c\<close>: \<open>sys_pairs\<close> compresses a transition
  table into character/next-state pairs, \<open>sys_pnext\<close> prints the routine that looks an entry
  up, \<open>sys_print_array\<close> prints an uncompressed table.  The output is a list of pieces, one or
  more per call of \<open>fprintf\<close>; \<open>render\<close> gives their characters, \<open>cells\<close> the numbers that the
  C compiler will put into the array, converted to the \<open>unsigned char\<close> that \<open>YY_TTYPE\<close> is in the
  programs that lex and llama write (\<open>src/libary/lex.m\<close>, \<open>src/libary/llama.m\<close>).
\<close>

section \<open>Output\<close>

datatype piece =
    Text string
  | Num nat int
  | CharNum nat
  | RowHead nat
  | RowRef nat

definition nl :: string where "nl = [CHR 0x0A]"

function dec_nat :: "nat \<Rightarrow> string" where
  "dec_nat n = (if n < 10 then [digit_char (int n)] else dec_nat (n div 10) @ [digit_char (int (n mod 10))])"
  by pat_completeness auto
termination
  by (relation "measure id") auto

declare dec_nat.simps [simp del]

definition dec :: "int \<Rightarrow> string" where
  "dec v = (if v < 0 then CHR ''-'' # dec_nat (nat (- v)) else dec_nat (nat v))"

definition pad_left :: "char \<Rightarrow> nat \<Rightarrow> string \<Rightarrow> string" where
  "pad_left c w s = replicate (w - length s) c @ s"

definition pad_right :: "nat \<Rightarrow> string \<Rightarrow> string" where
  "pad_right w s = s @ replicate (w - length s) CHR '' ''"

fun render :: "string \<Rightarrow> piece \<Rightarrow> string" where
  "render name (Text s) = s"
| "render name (Num w v) = pad_left CHR '' '' w (dec v)"
| "render name (CharNum j) = CHR 0x27 # sys_bin_to_ascii (int j) False @ [CHR 0x27]"
| "render name (RowHead i) = ''YYPRIVATE YY_TTYPE '' @ name @ pad_right 2 (dec (int i)) @ ''[ ] = { ''"
| "render name (RowRef i) = name @ pad_right 2 (dec (int i))"

text \<open>
  The conversion to \<open>YY_TTYPE\<close>.  A character constant shows the low byte of its column only
  (\<open>sys_bin_to_ascii\<close> masks it); whether \<open>char\<close> is signed makes no difference after the conversion.
\<close>

definition ttype :: "int \<Rightarrow> int" where
  "ttype v = v mod 256"

fun cell :: "piece \<Rightarrow> int option" where
  "cell (Num w v) = Some (ttype v)"
| "cell (CharNum j) = Some (ttype (int j))"
| "cell _ = None"

definition cells :: "piece list \<Rightarrow> int list" where
  "cells ps = List.map_filter cell ps"

definition indent :: piece where
  "indent = Text (nl @ ''                               '')"

definition NCOLS :: int where "NCOLS = 10"

section \<open>Compression\<close>

definition ntransitions :: "int list \<Rightarrow> nat" where
  "ntransitions row = length (filter (\<lambda>v. v \<noteq> - 1) row)"

text \<open>The loop over the columns of a row; \<open>arr\<close> is \<open>ntransitions > threshold\<close>.\<close>

fun pairs_cols ::
  "bool \<Rightarrow> bool \<Rightarrow> nat \<Rightarrow> nat \<Rightarrow> int list \<Rightarrow> int \<Rightarrow> int \<Rightarrow> int \<Rightarrow> piece list \<times> int" where
  "pairs_cols arr numbers ncols j [] nprinted ncommas num_cells = ([], num_cells)"
| "pairs_cols arr numbers ncols j (v # p) nprinted ncommas num_cells =
     (let (out, np, nc, cells) =
        (if arr
         then (Num 3 v # (if j < ncols - 1 then [Text '', ''] else []), nprinted - 1, ncommas, num_cells + 1)
         else if v \<noteq> - 1
         then ((if numbers then [Num 3 (int j), Text '', '', Num 3 v]
                else [CharNum j, Text '','', Num 3 v]) @
               (if 0 < ncommas - 1 then [Text '', ''] else []),
               nprinted - 2, ncommas - 1, num_cells + 2)
         else ([], nprinted, ncommas, num_cells));
        (brk, np') = (if np \<le> 0 then ([indent], NCOLS) else ([], np));
        (rest, total) = pairs_cols arr numbers ncols (Suc j) p np' nc cells
      in (out @ brk @ rest, total))"

definition pairs_row :: "nat \<Rightarrow> nat \<Rightarrow> bool \<Rightarrow> nat \<Rightarrow> int list \<Rightarrow> piece list \<times> int" where
  "pairs_row ncols threshold numbers i row =
     (let n = ntransitions row; arr = (threshold < n)
      in if n = 0 then ([], 0)
         else (case pairs_cols arr numbers ncols 0 row NCOLS (int n) 1 of
                 (body, num_cells) \<Rightarrow>
                   (RowHead i #
                    (if arr then [Text '' '', Num 1 0, Text '', /*uncompressed*/'', indent]
                     else [Num 2 (int n), Text '', ''] @
                          (if 5 < threshold then [Text (nl @ ''                '')] else [])) @
                    body @
                    [if arr then Text (nl @ ''                              };'' @ nl @ nl)
                     else Text ('' };'' @ nl @ nl)],
                    num_cells)))"

fun pairs_rows :: "nat \<Rightarrow> nat \<Rightarrow> bool \<Rightarrow> nat \<Rightarrow> int list list \<Rightarrow> piece list \<times> int" where
  "pairs_rows ncols threshold numbers i [] = ([], 0)"
| "pairs_rows ncols threshold numbers i (row # rows) =
     (case pairs_row ncols threshold numbers i row of
        (out, n) \<Rightarrow>
          (case pairs_rows ncols threshold numbers (Suc i) rows of
             (rest, m) \<Rightarrow> (out @ rest, n + m)))"

text \<open>The array of row pointers: the last row is named without a test.\<close>

fun row_index :: "nat \<Rightarrow> int list list \<Rightarrow> int \<Rightarrow> piece list" where
  "row_index i [] nprinted = [RowRef i, Text (nl @ ''};'' @ nl @ nl)]"
| "row_index i [row] nprinted = [RowRef i, Text (nl @ ''};'' @ nl @ nl)]"
| "row_index i (row # rows) nprinted =
     (if 0 < ntransitions row then [RowRef i, Text '',    ''] else [Text ''NULL,    '']) @
     (if nprinted - 1 \<le> 0
      then Text (nl @ ''      '') # row_index (Suc i) rows NCOLS
      else row_index (Suc i) rows (nprinted - 1))"

definition sys_pairs :: "int list list \<Rightarrow> nat \<Rightarrow> nat \<Rightarrow> bool \<Rightarrow> string \<Rightarrow> piece list \<times> int" where
  "sys_pairs rows ncols threshold numbers name =
     (case pairs_rows ncols threshold numbers 0 rows of
        (out, num_cells) \<Rightarrow>
          (out @ [Text (nl @ ''YYPRIVATE YY_TTYPE *'' @ name @ ''[ '' @ dec (int (length rows)) @
                        '' ] ='' @ nl @ ''{'' @ nl @ ''      '')] @
           row_index 0 rows NCOLS, num_cells))"

text \<open>
  The routine \<open>yy_next\<close> that \<open>sys_pnext\<close> prints, on the array of a row or a null pointer.
\<close>

definition YYF :: int where "YYF = ttype (- 1)"

fun find_pair :: "nat \<Rightarrow> int list \<Rightarrow> int \<Rightarrow> int" where
  "find_pair (Suc i) (c0 # s # p) c = (if c = c0 then s else find_pair i p c)"
| "find_pair _ p c = YYF"

definition yy_next :: "int list option \<Rightarrow> nat \<Rightarrow> int" where
  "yy_next p c =
     (case p of
        None \<Rightarrow> YYF
      | Some [] \<Rightarrow> YYF
      | Some (i # q) \<Rightarrow> if i = 0 then q ! c else find_pair (nat i) q (int c))"

section \<open>Uncompressed tables\<close>

fun array_cols :: "nat \<Rightarrow> nat \<Rightarrow> int list \<Rightarrow> piece list" where
  "array_cols ncols col [] = []"
| "array_cols ncols col (v # row) =
     Num 3 v # (if col < ncols - 1 then [Text '', ''] else []) @
     (if int col mod NCOLS = NCOLS - 1 \<and> col \<noteq> ncols - 1 then [Text (nl @ ''          '')] else []) @
     array_cols ncols (Suc col) row"

fun array_rows :: "nat \<Rightarrow> nat \<Rightarrow> nat \<Rightarrow> int list list \<Rightarrow> piece list" where
  "array_rows nrows ncols i [] = []"
| "array_rows nrows ncols i (row # rows) =
     Text (''/* '' @ pad_left CHR ''0'' 2 (dec (int i)) @ '' */ {'') # array_cols ncols 0 row @
     (if NCOLS < int ncols then [Text (nl @ ''         '')] else []) @
     Text (''}'' @ (if i < nrows - 1 then '','' else '' '') @ nl @ nl) #
     array_rows nrows ncols (Suc i) rows"

definition sys_print_array :: "int list list \<Rightarrow> nat \<Rightarrow> piece list" where
  "sys_print_array rows ncols =
     Text (''{'' @ nl) # array_rows (length rows) ncols 0 rows @ [Text (''};'' @ nl)]"

definition sys_printv :: "string list \<Rightarrow> string" where
  "sys_printv argv = concat (map (\<lambda>s. s @ nl) argv)"

definition sys_comment :: "string list \<Rightarrow> string" where
  "sys_comment argv =
     nl @ ''/*-----------------------------------------------------------------------'' @ nl @
     concat (map (\<lambda>s. '' * '' @ s @ nl) argv) @ '' */'' @ nl @ nl"

definition sys_print_defnext :: "string \<Rightarrow> string" where
  "sys_print_defnext name =
     sys_comment [''yy_next(state, c) is given the current state and input character and evaluates to the next state.''] @
     ''#define yy_next(state, c) '' @ name @ ''[ state ][ c ]'' @ nl"

section \<open>The cells that are printed\<close>

lemma cells_simps [simp]:
  "cells [] = []"
  "cells (p # ps) = (case cell p of None \<Rightarrow> cells ps | Some v \<Rightarrow> v # cells ps)"
  "cells (ps @ qs) = cells ps @ cells qs"
  by (simp_all add: cells_def map_filter_simps map_filter_def split: option.splits)

lemma cell_indent [simp]: "cell indent = None"
  by (simp add: indent_def)

text \<open>The pairs of a row from column \<open>j\<close> on.\<close>

fun row_pairs :: "nat \<Rightarrow> int list \<Rightarrow> int list" where
  "row_pairs j [] = []"
| "row_pairs j (v # row) = (if v = - 1 then row_pairs (Suc j) row else int j # v # row_pairs (Suc j) row)"

definition row_cells :: "nat \<Rightarrow> int list \<Rightarrow> int list" where
  "row_cells threshold row =
     map ttype
       (if threshold < ntransitions row then 0 # row
        else int (ntransitions row) # row_pairs 0 row)"

lemma pairs_cols_cells:
  assumes "pairs_cols arr numbers ncols j row np nc n = (out, m)"
  shows "cells out = map ttype (if arr then row else row_pairs j row) \<and> m = n + int (length (cells out))"
  using assms
proof (induction arr numbers ncols j row np nc n arbitrary: out m rule: pairs_cols.induct)
  case (1 arr numbers ncols j np nc n)
  then show ?case by simp
next
  case (2 arr numbers ncols j v p np nc n)
  then show ?case
    by (auto simp: Let_def split: prod.splits if_splits)
qed

lemma length_row_pairs: "length (row_pairs j row) = 2 * ntransitions row"
  by (induction row arbitrary: j) (simp_all add: ntransitions_def)

lemma ttype_small [simp]: "0 \<le> v \<Longrightarrow> v < 256 \<Longrightarrow> ttype v = v"
  by (simp add: ttype_def)

lemma find_pair_none: "c < j \<Longrightarrow> j + length row \<le> 256 \<Longrightarrow> find_pair k (map ttype (row_pairs j row)) (int c) = YYF"
proof (induction row arbitrary: j k)
  case (Cons v row)
  then show ?case by (cases k) auto
qed (cases k; simp)

lemma find_pair_row:
  "j \<le> c \<Longrightarrow> j + length row \<le> 256 \<Longrightarrow> find_pair (ntransitions row) (map ttype (row_pairs j row)) (int c) =
     (if c < j + length row then ttype (row ! (c - j)) else YYF)"
proof (induction row arbitrary: j)
  case Nil
  then show ?case by (simp add: ntransitions_def)
next
  case (Cons v row)
  show ?case
  proof (cases "c = j")
    case True
    then show ?thesis using Cons.prems(2) find_pair_none [of j "Suc j" row]
      by (auto simp: ntransitions_def YYF_def)
  next
    case False
    with Cons.prems have "Suc j \<le> c" "Suc j + length row \<le> 256" by simp_all
    with False Cons.prems(2) Cons.IH [OF this] show ?thesis
      by (simp add: ntransitions_def nth_Cons' Suc_diff_le)
  qed
qed

text \<open>A row whose cells fit: the number of pairs and the columns are less than 256.\<close>

definition row_fits :: "nat \<Rightarrow> int list \<Rightarrow> bool" where
  "row_fits threshold row \<longleftrightarrow> threshold < ntransitions row \<or> length row \<le> 256 \<and> ntransitions row < 256"

lemma yy_next_row_cells:
  assumes "c < length row" and "0 < ntransitions row" and "row_fits threshold row"
  shows "yy_next (Some (row_cells threshold row)) c = ttype (row ! c)"
proof (cases "threshold < ntransitions row")
  case True
  then show ?thesis using assms(1) by (simp add: yy_next_def row_cells_def)
next
  case False
  then have "length row \<le> 256" "ntransitions row < 256" using assms(3) by (simp_all add: row_fits_def)
  then show ?thesis using False assms(1,2) find_pair_row [of 0 c row] by (simp add: yy_next_def row_cells_def)
qed

lemma ntransitions_0: "ntransitions row = 0 \<Longrightarrow> c < length row \<Longrightarrow> row ! c = - 1"
  by (auto simp: ntransitions_def filter_empty_conv)

text \<open>The array that is printed under the name of row \<open>i\<close>, up to its closing brace.\<close>

definition closing :: "piece \<Rightarrow> bool" where
  "closing p \<longleftrightarrow> p = Text (nl @ ''                              };'' @ nl @ nl) \<or>
     p = Text ('' };'' @ nl @ nl)"

definition array_of :: "piece list \<Rightarrow> nat \<Rightarrow> int list option" where
  "array_of out i =
     (case dropWhile (\<lambda>p. p \<noteq> RowHead i) out of
        [] \<Rightarrow> None
      | _ # q \<Rightarrow> Some (cells (takeWhile (\<lambda>p. \<not> closing p) q)))"

definition plain :: "piece \<Rightarrow> bool" where
  "plain p \<longleftrightarrow> \<not> closing p \<and> (\<forall>i. p \<noteq> RowHead i)"

lemma plain_simps [simp]: "plain (Num w v)" "plain (CharNum j)" "plain indent" "plain (Text '', '')"
  "plain (Text '','')" "plain (Text '' '')" "plain (Text '', /*uncompressed*/'')"
  "plain (Text (nl @ ''                ''))"
  by (simp_all add: plain_def closing_def indent_def nl_def)

lemma pairs_cols_plain:
  "\<forall>p\<in>set (fst (pairs_cols arr numbers ncols j row np nc n)). plain p"
proof (induction row arbitrary: j np nc n)
  case (Cons v row)
  then show ?case by (auto simp: Let_def split_beta)
qed simp

lemma pairs_row_shape:
  assumes "0 < ntransitions row"
  obtains body lst where "fst (pairs_row ncols threshold numbers i row) = RowHead i # body @ [lst]"
    and "\<forall>p\<in>set body. plain p" and "closing lst" and "cells body = row_cells threshold row"
    and "snd (pairs_row ncols threshold numbers i row) = int (length (row_cells threshold row))"
proof -
  let ?arr = "threshold < ntransitions row"
  obtain out m where o: "pairs_cols ?arr numbers ncols 0 row NCOLS (int (ntransitions row)) 1 = (out, m)"
    by fastforce
  have c: "cells out = map ttype (if ?arr then row else row_pairs 0 row)" "m = 1 + int (length (cells out))"
    using pairs_cols_cells [OF o] by simp_all
  have pl: "\<forall>p\<in>set out. plain p" using pairs_cols_plain [of ?arr numbers ncols 0 row NCOLS _ 1] o by (metis fst_conv)
  let ?head = "if ?arr then [Text '' '', Num 1 0, Text '', /*uncompressed*/'', indent]
    else [Num 2 (int (ntransitions row)), Text '', ''] @ (if 5 < threshold then [Text (nl @ ''                '')] else [])"
  let ?lst = "if ?arr then Text (nl @ ''                              };'' @ nl @ nl) else Text ('' };'' @ nl @ nl)"
  have "fst (pairs_row ncols threshold numbers i row) = RowHead i # (?head @ out) @ [?lst]"
    using assms o by (simp add: pairs_row_def Let_def)
  moreover have "\<forall>p\<in>set (?head @ out). plain p" using pl by auto
  moreover have "closing ?lst" by (simp add: closing_def)
  moreover have "cells (?head @ out) = row_cells threshold row" using c by (simp add: row_cells_def)
  moreover have "snd (pairs_row ncols threshold numbers i row) = int (length (row_cells threshold row))"
    using assms o c by (simp add: pairs_row_def Let_def row_cells_def)
  ultimately show ?thesis by (rule that)
qed

lemma dropWhile_all: "(\<forall>x\<in>set xs. P x) \<Longrightarrow> dropWhile P (xs @ ys) = dropWhile P ys"
  by (simp add: dropWhile_append)

lemma dropWhile_none: "\<forall>x\<in>set xs. P x \<Longrightarrow> dropWhile P xs = []"
  by simp

lemma takeWhile_body:
  "\<forall>p\<in>set body. plain p \<Longrightarrow> closing lst \<Longrightarrow>
   takeWhile (\<lambda>p. \<not> closing p) (body @ lst # rest) = body"
  by (induction body) (auto simp: plain_def)

lemma array_of_pairs_rows:
  assumes "\<forall>p\<in>set tail. p \<noteq> RowHead (k + i)" and "i < length rows"
  shows "array_of (fst (pairs_rows ncols threshold numbers k rows) @ tail) (k + i) =
    (if ntransitions (rows ! i) = 0 then None else Some (row_cells threshold (rows ! i)))"
  using assms
proof (induction rows arbitrary: k i)
  case Nil
  then show ?case by simp
next
  case (Cons row rows)
  let ?rest = "fst (pairs_rows ncols threshold numbers (Suc k) rows) @ tail"
  have split: "fst (pairs_rows ncols threshold numbers k (row # rows)) @ tail =
      fst (pairs_row ncols threshold numbers k row) @ ?rest"
    by (simp split: prod.splits)
  show ?case
  proof (cases i)
    case 0
    have later: "j < l \<Longrightarrow> RowHead j \<notin> set (fst (pairs_rows ncols threshold numbers l rs))" for j l rs
    proof (induction rs arbitrary: l)
      case (Cons r rs)
      have "RowHead j \<notin> set (fst (pairs_row ncols threshold numbers l r))"
      proof (cases "0 < ntransitions r")
        case True
        then obtain body lst where "fst (pairs_row ncols threshold numbers l r) = RowHead l # body @ [lst]"
          "\<forall>p\<in>set body. plain p" "closing lst" by (rule pairs_row_shape)
        then show ?thesis using Cons.prems by (auto simp: plain_def closing_def)
      qed (simp add: pairs_row_def Let_def)
      moreover have "RowHead j \<notin> set (fst (pairs_rows ncols threshold numbers (Suc l) rs))"
        using Cons.IH [of "Suc l"] Cons.prems by simp
      ultimately show ?case by (simp add: split_beta)
    qed simp
    show ?thesis
    proof (cases "ntransitions row = 0")
      case True
      have "\<forall>p\<in>set ?rest. p \<noteq> RowHead k"
        using later [of k "Suc k" rows] Cons.prems(1) 0 by auto
      then have "dropWhile (\<lambda>p. p \<noteq> RowHead k) ?rest = []" by (simp only: dropWhile_eq_Nil_conv)
      then show ?thesis using True 0 Cons.prems(1) unfolding split
        by (simp add: pairs_row_def array_of_def dropWhile_none)
    next
      case False
      then obtain body lst where b: "fst (pairs_row ncols threshold numbers k row) = RowHead k # body @ [lst]"
        "\<forall>p\<in>set body. plain p" "closing lst" "cells body = row_cells threshold row"
        by (metis neq0_conv pairs_row_shape)
      then show ?thesis using False 0 unfolding split
        by (simp add: array_of_def takeWhile_body)
    qed
  next
    case (Suc i')
    have "\<forall>p\<in>set (fst (pairs_row ncols threshold numbers k row)). p \<noteq> RowHead (k + i)"
    proof (cases "0 < ntransitions row")
      case True
      then obtain body lst where "fst (pairs_row ncols threshold numbers k row) = RowHead k # body @ [lst]"
        "\<forall>p\<in>set body. plain p" "closing lst" by (rule pairs_row_shape)
      then show ?thesis using Suc by (auto simp: plain_def closing_def)
    qed (simp add: pairs_row_def Let_def)
    then have "array_of (fst (pairs_row ncols threshold numbers k row) @ ?rest) (k + i) =
        array_of ?rest (Suc k + i')"
      using Suc by (simp add: array_of_def dropWhile_all)
    with Cons.IH [of "Suc k" i'] Cons.prems Suc show ?thesis unfolding split by simp
  qed
qed

lemma row_index_heads: "\<forall>p\<in>set (row_index k rows np). p \<noteq> RowHead i"
  by (induction k rows np rule: row_index.induct) auto

lemma array_of_sys_pairs:
  assumes "i < length rows"
  shows "array_of (fst (sys_pairs rows ncols threshold numbers name)) i =
    (if ntransitions (rows ! i) = 0 then None else Some (row_cells threshold (rows ! i)))"
proof -
  obtain tail where out: "fst (sys_pairs rows ncols threshold numbers name) =
      fst (pairs_rows ncols threshold numbers 0 rows) @ tail" "\<forall>p\<in>set tail. p \<noteq> RowHead i"
    by (rule that [of "Text (nl @ ''YYPRIVATE YY_TTYPE *'' @ name @ ''[ '' @ dec (int (length rows)) @
        '' ] ='' @ nl @ ''{'' @ nl @ ''      '') # row_index 0 rows NCOLS"])
      (use row_index_heads in \<open>simp_all add: sys_pairs_def split_beta\<close>)
  show ?thesis
    using array_of_pairs_rows [of tail 0 i rows ncols threshold numbers] out assms by simp
qed

lemma pairs_rows_count:
  "snd (pairs_rows ncols threshold numbers k rows) =
     (\<Sum>row\<leftarrow>rows. if ntransitions row = 0 then 0 else int (length (row_cells threshold row)))"
proof (induction rows arbitrary: k)
  case (Cons row rows)
  have "snd (pairs_row ncols threshold numbers k row) =
      (if ntransitions row = 0 then 0 else int (length (row_cells threshold row)))"
    by (cases "0 < ntransitions row")
      (auto elim: pairs_row_shape [of row ncols threshold numbers k], simp add: pairs_row_def)
  with Cons [of "Suc k"] show ?case by (simp add: split_beta)
qed simp

lemma array_cols_cells: "cells (array_cols ncols j row) = map ttype row"
  by (induction row arbitrary: j) simp_all

lemma array_rows_cells: "cells (array_rows nrows ncols i rows) = map ttype (concat rows)"
  by (induction rows arbitrary: i) (simp_all add: array_cols_cells)

section \<open>Properties\<close>

text \<open>C31.
  Compression loses nothing beyond the type of the table: looking up any column in the array
  that \<open>sys_pairs\<close> prints for a row, with the routine \<open>sys_pnext\<close> prints, gives the entry of the
  table converted to \<open>YY_TTYPE\<close>, whether the row is stored as pairs or uncompressed, provided
  that a row that is stored as pairs has at most 256 columns and fewer than 256 transitions; a row
  without an array has no transitions.  So entries below 255 are read back as they are, and only
  the entry for no transition is read as a failure.  The number returned is the number of cells
  that are printed.
\<close>

theorem sys_pairs_lookup:
  assumes "i < length rows" and "c < length (rows ! i)" and "row_fits threshold (rows ! i)"
  shows "yy_next (array_of (fst (sys_pairs rows ncols threshold numbers name)) i) c = ttype (rows ! i ! c) \<and>
    (- 1 \<le> rows ! i ! c \<and> rows ! i ! c < 255 \<longrightarrow>
       yy_next (array_of (fst (sys_pairs rows ncols threshold numbers name)) i) c =
         (if rows ! i ! c = - 1 then YYF else rows ! i ! c) \<and> YYF \<noteq> rows ! i ! c) \<and>
    snd (sys_pairs rows ncols threshold numbers name) =
      (\<Sum>k\<leftarrow>[0..<length rows].
         case array_of (fst (sys_pairs rows ncols threshold numbers name)) k of
           None \<Rightarrow> 0 | Some cs \<Rightarrow> int (length cs))"
proof -
  let ?a = "array_of (fst (sys_pairs rows ncols threshold numbers name))"
  have next_state: "yy_next (?a i) c = ttype (rows ! i ! c)"
    using assms yy_next_row_cells [of c "rows ! i" threshold] ntransitions_0 [of "rows ! i" c]
    by (auto simp: array_of_sys_pairs yy_next_def YYF_def)
  moreover have "- 1 \<le> v \<and> v < 255 \<longrightarrow> ttype v = (if v = - 1 then YYF else v) \<and> YYF \<noteq> v" for v
    by (simp add: YYF_def) (simp add: ttype_def)
  moreover have "(\<Sum>k\<leftarrow>[0..<length rows]. case ?a k of None \<Rightarrow> 0 | Some cs \<Rightarrow> int (length cs)) =
      (\<Sum>k\<leftarrow>[0..<length rows]. (\<lambda>row. if ntransitions row = 0 then 0
         else int (length (row_cells threshold row))) (rows ! k))"
    by (rule arg_cong [of _ _ sum_list], rule map_cong) (simp_all add: array_of_sys_pairs)
  moreover have "\<dots> = (\<Sum>row\<leftarrow>rows. if ntransitions row = 0 then 0 else int (length (row_cells threshold row)))"
    by (rule arg_cong [of _ _ sum_list], rule map_as_upt [symmetric])
  moreover have "(\<Sum>row\<leftarrow>rows. if ntransitions row = 0 then 0 else int (length (row_cells threshold row))) =
      snd (sys_pairs rows ncols threshold numbers name)"
    by (simp add: sys_pairs_def split_beta pairs_rows_count)
  ultimately show ?thesis by (simp add: next_state)
qed

theorem sys_pairs_lookup_witness:
  "yy_next (array_of (fst (sys_pairs [[- 1, 4, - 1], [2, 3, 0]] 3 2 True ''Yy'')) 0) 1 = 4 \<and>
   yy_next (array_of (fst (sys_pairs [[- 1, 4, - 1], [2, 3, 0]] 3 2 True ''Yy'')) 1) 2 = 0"
  using sys_pairs_lookup [of 0 "[[- 1, 4, - 1], [2, 3, 0]]" 1 2 3 True "''Yy''"]
    sys_pairs_lookup [of 1 "[[- 1, 4, - 1], [2, 3, 0]]" 2 2 3 True "''Yy''"]
  by (simp add: row_fits_def ntransitions_def)

text \<open>
  A larger entry is lost.  A grammar of llama may have 512 productions, but the entry for
  production 255 reads as the failure, and the one for production 256 as production 0.
\<close>

theorem sys_pairs_loses_large_entries:
  "yy_next (array_of (fst (sys_pairs [[255, 256]] 2 threshold True ''Yy'')) 0) 0 = YYF \<and>
   yy_next (array_of (fst (sys_pairs [[255, 256]] 2 threshold True ''Yy'')) 0) 1 = 0"
proof -
  have "row_fits threshold [255, 256]" by (simp add: row_fits_def ntransitions_def)
  moreover have "ntransitions [255, 256] = 2" by (simp add: ntransitions_def)
  ultimately show ?thesis
    using yy_next_row_cells [of 0 "[255, 256]" threshold] yy_next_row_cells [of 1 "[255, 256]" threshold]
    by (simp add: array_of_sys_pairs YYF_def ttype_def)
qed

text \<open>
  The array of row pointers names the last row without asking whether an array was printed
  for it: if the last row has no transitions, the output refers to an array that is not
  declared.  Every other row is named exactly if it has transitions.
\<close>

theorem sys_pairs_names_missing_row:
  "RowRef 1 \<in> set (fst (sys_pairs [[2, - 1], [- 1, - 1]] 2 4 True ''Yy'')) \<and>
   array_of (fst (sys_pairs [[2, - 1], [- 1, - 1]] 2 4 True ''Yy'')) 1 = None \<and>
   {i. RowRef i \<in> set (row_index 0 (rows @ [row]) NCOLS)} =
     {i. i < length rows \<and> 0 < ntransitions (rows ! i)} \<union> {length rows}"
proof -
  have idx: "{i. RowRef i \<in> set (row_index k (rows @ [row]) np)} =
      {k + i |i. i < length rows \<and> 0 < ntransitions (rows ! i)} \<union> {k + length rows}" for k np
  proof (induction rows arbitrary: k np)
    case Nil
    then show ?case by auto
  next
    case (Cons r rows)
    have split: "row_index k ((r # rows) @ [row]) np =
        (if 0 < ntransitions r then [RowRef k, Text '',    ''] else [Text ''NULL,    '']) @
        (if np - 1 \<le> 0 then Text (nl @ ''      '') # row_index (Suc k) (rows @ [row]) NCOLS
         else row_index (Suc k) (rows @ [row]) (np - 1))"
      by (cases rows) simp_all
    have "{k + i |i. i < length (r # rows) \<and> 0 < ntransitions ((r # rows) ! i)} =
        (if 0 < ntransitions r then {k} else {}) \<union>
        {Suc k + i |i. i < length rows \<and> 0 < ntransitions (rows ! i)}"
      by (auto simp: less_Suc_eq_0_disj)
    moreover have "{i. RowRef i \<in> set (row_index k ((r # rows) @ [row]) np)} =
        (if 0 < ntransitions r then {k} else {}) \<union>
        {i. RowRef i \<in> set (row_index (Suc k) (rows @ [row]) (if np - 1 \<le> 0 then NCOLS else np - 1))}"
      unfolding split by auto
    ultimately show ?case using Cons [of "Suc k"] by auto
  qed
  have "array_of (fst (sys_pairs [[2, - 1], [- 1, - 1]] 2 4 True ''Yy'')) 1 = None"
    by (simp add: array_of_sys_pairs ntransitions_def)
  moreover have "RowRef 1 \<in> set (fst (sys_pairs [[2, - 1], [- 1, - 1]] 2 4 True ''Yy''))"
    by (simp add: sys_pairs_def split_beta)
  ultimately show ?thesis using idx [of 0 NCOLS] by simp
qed

end
