(* ===== verification/ShellSort.thy ===== *)
theory ShellSort
  imports CString "HOL-Library.Multiset"
begin

text \<open>
  The sort routine and the array fill of \<open>src/compiler/lib/syslib.c\<close>.  \<open>sys_ssort\<close> sorts
  the first \<open>nel\<close> pointers of an array with decreasing gaps; the comparison function is a
  parameter.  The gaps are natural numbers here and an \<open>int\<close> in C, where the first gap overflows
  for arrays of 1743392200 elements and more; the model covers smaller arrays.
\<close>

section \<open>Operations\<close>

function first_gap :: "nat \<Rightarrow> nat \<Rightarrow> nat" where
  "first_gap gap nel = (if gap \<le> nel then first_gap (3 * gap + 1) nel else gap)"
  by pat_completeness auto
termination
  by (relation "measure (\<lambda>(gap, nel). Suc nel - gap)") auto

declare first_gap.simps [simp del]

text \<open>
  The inner loop for \<open>i = j + gap\<close>: it compares positions \<open>j\<close> and \<open>j + gap\<close>, exchanges, and
  goes on \<open>gap\<close> below, until \<open>j\<close> is negative.
\<close>

function sift :: "('a \<Rightarrow> 'a \<Rightarrow> int) \<Rightarrow> nat \<Rightarrow> 'a list \<Rightarrow> nat \<Rightarrow> 'a list" where
  "sift cmp gap base i =
     (if 0 < gap \<and> gap \<le> i
      then (if cmp (base ! (i - gap)) (base ! i) \<le> 0 then base
            else sift cmp gap (base[i - gap := base ! i, i := base ! (i - gap)]) (i - gap))
      else base)"
  by pat_completeness auto
termination
  by (relation "measure (\<lambda>(cmp, gap, base, i). i)") auto

declare sift.simps [simp del]

definition gap_pass :: "('a \<Rightarrow> 'a \<Rightarrow> int) \<Rightarrow> nat \<Rightarrow> nat \<Rightarrow> 'a list \<Rightarrow> 'a list" where
  "gap_pass cmp nel gap base = foldl (sift cmp gap) base [gap..<nel]"

function gap_loop :: "('a \<Rightarrow> 'a \<Rightarrow> int) \<Rightarrow> nat \<Rightarrow> nat \<Rightarrow> 'a list \<Rightarrow> 'a list" where
  "gap_loop cmp nel gap base =
     (if 0 < gap then gap_loop cmp nel (gap div 3) (gap_pass cmp nel gap base) else base)"
  by pat_completeness auto
termination
  by (relation "measure (\<lambda>(cmp, nel, gap, base). gap)") auto

declare gap_loop.simps [simp del]

definition sys_ssort :: "('a \<Rightarrow> 'a \<Rightarrow> int) \<Rightarrow> 'a list \<Rightarrow> nat \<Rightarrow> 'a list" where
  "sys_ssort cmp base nel = gap_loop cmp nel (first_gap 1 nel div 3) base"

fun sys_memiset :: "'a list \<Rightarrow> 'a \<Rightarrow> nat \<Rightarrow> 'a list res" where
  "sys_memiset dst v 0 = Inr dst"
| "sys_memiset [] v (Suc n) = Inl Overflow"
| "sys_memiset (d # dst) v (Suc n) = bind_res (sys_memiset dst v n) (\<lambda>t. Inr (v # t))"

lemma sys_memiset_eq:
  "n \<le> length dst \<Longrightarrow> sys_memiset dst v n = Inr (replicate n v @ drop n dst)"
  by (induction dst v n rule: sys_memiset.induct) simp_all

lemma gap_loop_0 [simp]: "gap_loop cmp nel 0 xs = xs"
  by (simp add: gap_loop.simps)

lemma gap_loop_1: "gap_loop cmp nel (Suc 0) xs = gap_pass cmp nel (Suc 0) xs"
  by (simp add: gap_loop.simps [of cmp nel "Suc 0"])

section \<open>Every pass permutes\<close>

lemma mset_swap_back:
  "i < length xs \<Longrightarrow> j < length xs \<Longrightarrow> mset (xs[i := xs ! j, j := xs ! i]) = mset xs"
  by (rule mset_swap)

lemma sift_mset:
  "i < length xs \<Longrightarrow> mset (sift cmp gap xs i) = mset xs"
proof (induction cmp gap xs i rule: sift.induct)
  case (1 cmp gap xs i)
  show ?case
  proof (cases "0 < gap \<and> gap \<le> i \<and> \<not> cmp (xs ! (i - gap)) (xs ! i) \<le> 0")
    case True
    let ?ys = "xs[i - gap := xs ! i, i := xs ! (i - gap)]"
    have "mset ?ys = mset xs" using 1(2) by (intro mset_swap_back) simp_all
    moreover have "mset (sift cmp gap ?ys (i - gap)) = mset ?ys"
      using True 1(2) by (intro 1(1)) simp_all
    ultimately show ?thesis using True by (simp add: sift.simps [of cmp gap xs i])
  next
    case False
    then show ?thesis by (auto simp: sift.simps [of cmp gap xs i])
  qed
qed

lemma sift_above: "i < k \<Longrightarrow> sift cmp gap xs i ! k = xs ! k"
proof (induction cmp gap xs i rule: sift.induct)
  case (1 cmp gap xs i)
  then show ?case
    by (subst sift.simps) (auto simp: nth_list_update_neq)
qed

lemma gap_pass_perm:
  assumes "nel \<le> length xs"
  shows "mset (gap_pass cmp nel gap xs) = mset xs \<and>
    (\<forall>k. nel \<le> k \<longrightarrow> gap_pass cmp nel gap xs ! k = xs ! k)"
proof -
  have "mset (foldl (sift cmp gap) ys is) = mset ys \<and>
      (\<forall>k. nel \<le> k \<longrightarrow> foldl (sift cmp gap) ys is ! k = ys ! k)"
    if "\<forall>i\<in>set is. i < nel" "nel \<le> length ys" for "is" ys
    using that
  proof (induction "is" arbitrary: ys)
    case (Cons i "is")
    have m: "mset (sift cmp gap ys i) = mset ys" using Cons.prems by (intro sift_mset) simp
    then have "length (sift cmp gap ys i) = length ys" by (rule mset_eq_length)
    moreover have "sift cmp gap ys i ! k = ys ! k" if "nel \<le> k" for k
      using Cons.prems that by (intro sift_above) auto
    ultimately show ?case using Cons.IH [of "sift cmp gap ys i"] Cons.prems m by simp
  qed simp
  from this [of "[gap..<nel]" xs] show ?thesis using assms by (simp add: gap_pass_def)
qed

lemma gap_pass_length: "nel \<le> length xs \<Longrightarrow> length (gap_pass cmp nel gap xs) = length xs"
  using gap_pass_perm mset_eq_length by blast

lemma gap_loop_perm:
  "nel \<le> length xs \<Longrightarrow> mset (gap_loop cmp nel gap xs) = mset xs \<and>
     (\<forall>k. nel \<le> k \<longrightarrow> gap_loop cmp nel gap xs ! k = xs ! k)"
proof (induction cmp nel gap xs rule: gap_loop.induct)
  case (1 cmp nel gap xs)
  then show ?case
    using gap_pass_perm [of nel xs cmp gap] gap_pass_length [of nel xs cmp gap]
    by (cases "gap = 0") (simp_all add: gap_loop.simps [of cmp nel gap xs])
qed

section \<open>The gaps end with 1\<close>

fun gap_seq :: "nat \<Rightarrow> nat" where
  "gap_seq 0 = 1"
| "gap_seq (Suc k) = 3 * gap_seq k + 1"

lemma first_gap_seq:
  "\<exists>l\<ge>k. first_gap (gap_seq k) nel = gap_seq l \<and> nel < gap_seq l"
proof (induction "gap_seq k" nel arbitrary: k rule: first_gap.induct)
  case (1 nel)
  show ?case
  proof (cases "gap_seq k \<le> nel")
    case True
    with 1 [of "Suc k"] obtain l where "Suc k \<le> l" "first_gap (gap_seq (Suc k)) nel = gap_seq l"
      "nel < gap_seq l" by auto
    with True show ?thesis
      by (intro exI [of _ l]) (simp add: first_gap.simps [of "gap_seq k"])
  next
    case False
    then show ?thesis by (intro exI [of _ k]) (simp add: first_gap.simps [of "gap_seq k"])
  qed
qed

lemma gap_loop_last:
  assumes "nel \<le> length xs"
  shows "\<exists>ys. gap_loop cmp nel (gap_seq k) xs = gap_pass cmp nel 1 ys \<and> length ys = length xs"
  using assms
proof (induction k arbitrary: xs)
  case 0
  then show ?case by (auto simp: gap_loop_1)
next
  case (Suc k)
  have "(3 * gap_seq k + 1) div 3 = gap_seq k" by simp
  then have "gap_loop cmp nel (gap_seq (Suc k)) xs =
      gap_loop cmp nel (gap_seq k) (gap_pass cmp nel (gap_seq (Suc k)) xs)"
    by (subst gap_loop.simps) simp
  with Suc gap_pass_length show ?case by metis
qed

section \<open>The last pass is an insertion sort\<close>

text \<open>
  What the routine needs of its comparison: any two elements are comparable, and the
  relation is transitive.
\<close>

locale comparison =
  fixes cmp :: "'a \<Rightarrow> 'a \<Rightarrow> int"
  assumes cmp_total: "0 < cmp a b \<Longrightarrow> cmp b a \<le> 0"
    and cmp_trans: "cmp a b \<le> 0 \<Longrightarrow> cmp b c \<le> 0 \<Longrightarrow> cmp a c \<le> 0"
begin

text \<open>Sorted up to \<open>m\<close>, except that the element at \<open>i\<close> may belong further down.\<close>

definition sorted_but :: "'a list \<Rightarrow> nat \<Rightarrow> nat \<Rightarrow> bool" where
  "sorted_but xs i m \<longleftrightarrow> (\<forall>a b. a < b \<longrightarrow> b \<le> m \<longrightarrow> b \<noteq> i \<longrightarrow> cmp (xs ! a) (xs ! b) \<le> 0)"

lemma sift_sorts:
  "i \<le> m \<Longrightarrow> m < length xs \<Longrightarrow> sorted_but xs i m \<Longrightarrow>
   sorted_but (sift cmp (Suc 0) xs i) 0 m"
proof (induction i arbitrary: xs)
  case 0
  then show ?case by (simp add: sift.simps [of cmp "Suc 0" xs 0])
next
  case (Suc i)
  show ?case
  proof (cases "cmp (xs ! i) (xs ! Suc i) \<le> 0")
    case True
    have "cmp (xs ! a) (xs ! b) \<le> 0" if "a < b" "b \<le> m" for a b
    proof (cases "b = Suc i")
      case b: True
      then have "a = i \<or> a < i" using that by auto
      then show ?thesis
        using True b Suc.prems cmp_trans [of "xs ! a" "xs ! i" "xs ! Suc i"]
        by (auto simp: sorted_but_def)
    next
      case False
      then show ?thesis using Suc.prems(3) that by (simp add: sorted_but_def)
    qed
    then show ?thesis using True by (simp add: sift.simps [of cmp "Suc 0" xs] sorted_but_def)
  next
    case False
    let ?ys = "xs[i := xs ! Suc i, Suc i := xs ! i]"
    have le: "cmp (xs ! Suc i) (xs ! i) \<le> 0" using False by (intro cmp_total) simp
    have "sorted_but ?ys i m"
      unfolding sorted_but_def
    proof (intro allI impI)
      fix a b assume ab: "a < b" "b \<le> m" "b \<noteq> i"
      have s: "cmp (xs ! c) (xs ! d) \<le> 0" if "c < d" "d \<le> m" "d \<noteq> Suc i" for c d
        using Suc.prems(3) that by (simp add: sorted_but_def)
      show "cmp (?ys ! a) (?ys ! b) \<le> 0"
        using ab s le Suc.prems(1,2)
        by (auto simp: nth_list_update)
    qed
    then show ?thesis
      using False Suc.IH [of ?ys] Suc.prems by (simp add: sift.simps [of cmp "Suc 0" xs])
  qed
qed

lemma insertion_pass:
  assumes "nel \<le> length xs"
  shows "sorted_wrt (\<lambda>a b. cmp a b \<le> 0) (take nel (gap_pass cmp nel (Suc 0) xs))"
proof -
  have "m < nel \<longrightarrow> sorted_but (foldl (sift cmp (Suc 0)) xs [Suc 0..<Suc m]) 0 m" for m
  proof (induction m)
    case 0
    then show ?case by (simp add: sorted_but_def)
  next
    case (Suc m)
    show ?case
    proof
      assume m: "Suc m < nel"
      let ?ys = "foldl (sift cmp (Suc 0)) xs [Suc 0..<Suc m]"
      have len: "length ?ys = length xs"
        using gap_pass_length [of "Suc m" xs cmp "Suc 0"] m assms by (simp add: gap_pass_def)
      have "sorted_but ?ys 0 m" using Suc m by simp
      then have "sorted_but ?ys (Suc m) (Suc m)"
        by (auto simp: sorted_but_def le_Suc_eq)
      from sift_sorts [OF _ _ this] m assms len
      show "sorted_but (foldl (sift cmp (Suc 0)) xs [Suc 0..<Suc (Suc m)]) 0 (Suc m)" by simp
    qed
  qed
  from this [of "nel - 1"] show ?thesis
    using assms gap_pass_length [of nel xs cmp "Suc 0"]
    by (cases nel) (auto simp: gap_pass_def sorted_but_def sorted_wrt_iff_nth_less)
qed

lemma ssort_correct:
  assumes "nel \<le> length xs"
  shows "mset (sys_ssort cmp xs nel) = mset xs \<and>
    (\<forall>k. nel \<le> k \<longrightarrow> sys_ssort cmp xs nel ! k = xs ! k) \<and>
    sorted_wrt (\<lambda>a b. cmp a b \<le> 0) (take nel (sys_ssort cmp xs nel))"
proof -
  obtain l where l: "first_gap (gap_seq 0) nel = gap_seq l" "nel < gap_seq l"
    using first_gap_seq [of 0 nel] by blast
  have "sorted_wrt (\<lambda>a b. cmp a b \<le> 0) (take nel (sys_ssort cmp xs nel))"
  proof (cases l)
    case 0
    then show ?thesis using l by simp
  next
    case (Suc k)
    have "(3 * gap_seq k + 1) div 3 = gap_seq k" by simp
    then have "sys_ssort cmp xs nel = gap_loop cmp nel (gap_seq k) xs"
      using l Suc by (simp add: sys_ssort_def)
    with gap_loop_last [OF assms, of cmp k] insertion_pass assms show ?thesis by auto
  qed
  then show ?thesis using gap_loop_perm [OF assms] by (simp add: sys_ssort_def)
qed

end

section \<open>The comparison of the callers\<close>

text \<open>
  \<open>strcmp\<close>, which the symbol tables are sorted by: the first different characters decide,
  and a proper prefix comes first; only the sign of the value is specified.
\<close>

fun strcmp :: "string \<Rightarrow> string \<Rightarrow> int" where
  "strcmp [] [] = 0"
| "strcmp (c # s) [] = 1"
| "strcmp [] (d # t) = - 1"
| "strcmp (c # s) (d # t) = (if c = d then strcmp s t else of_char c - of_char d)"

lemma strcmp_0_iff: "strcmp s t = 0 \<longleftrightarrow> s = t"
  by (induction s t rule: strcmp.induct) simp_all

lemma strcmp_total: "0 < strcmp s t \<Longrightarrow> strcmp t s \<le> 0"
  by (induction s t rule: strcmp.induct) (auto split: if_splits)

lemma of_char_le_antisym: "(of_char c :: int) \<le> of_char d \<Longrightarrow> (of_char d :: int) \<le> of_char c \<Longrightarrow> c = d"
  by (metis of_char_eq_iff order_antisym)

lemma strcmp_trans: "strcmp s t \<le> 0 \<Longrightarrow> strcmp t u \<le> 0 \<Longrightarrow> strcmp s u \<le> 0"
proof (induction s t arbitrary: u rule: strcmp.induct)
  case (3 d t)
  then show ?case by (cases u) auto
next
  case (4 c s d t)
  show ?case
  proof (cases u)
    case (Cons e w)
    then show ?thesis
      using 4 of_char_le_antisym [of c d] of_char_le_antisym [of d e]
      by (auto split: if_splits)
  qed (use 4 in auto)
qed simp_all

interpretation by_name: comparison strcmp
  by unfold_locales (use strcmp_total strcmp_trans in blast)+

section \<open>Properties\<close>

lemma ssort_result:
  assumes "\<And>a b. 0 < cmp a b \<Longrightarrow> cmp b a \<le> 0"
    and "\<And>a b c. cmp a b \<le> 0 \<Longrightarrow> cmp b c \<le> 0 \<Longrightarrow> cmp a c \<le> 0"
    and "nel \<le> length xs"
  shows "mset (sys_ssort cmp xs nel) = mset xs \<and>
    (\<forall>k. nel \<le> k \<longrightarrow> sys_ssort cmp xs nel ! k = xs ! k) \<and>
    sorted_wrt (\<lambda>a b. cmp a b \<le> 0) (take nel (sys_ssort cmp xs nel))"
proof -
  have "comparison cmp" using assms(1,2) by unfold_locales blast+
  then show ?thesis by (rule comparison.ssort_correct [OF _ assms(3)])
qed

text \<open>C30.
  \<open>sys_ssort\<close> sorts: with a comparison that is total and transitive it ends with the first
  \<open>nel\<close> entries in order, the others where they were, and no entry lost or duplicated.
\<close>

theorem sys_ssort_sorts:
  assumes "\<And>a b. 0 < cmp a b \<Longrightarrow> cmp b a \<le> 0"
    and "\<And>a b c. cmp a b \<le> 0 \<Longrightarrow> cmp b c \<le> 0 \<Longrightarrow> cmp a c \<le> 0"
    and "nel \<le> length xs"
  shows "mset (sys_ssort cmp xs nel) = mset xs \<and>
    (\<forall>k. nel \<le> k \<longrightarrow> sys_ssort cmp xs nel ! k = xs ! k) \<and>
    sorted_wrt (\<lambda>a b. cmp a b \<le> 0) (take nel (sys_ssort cmp xs nel))"
  using assms by (rule ssort_result)

theorem sys_ssort_sorts_witness:
  "sorted_wrt (\<lambda>a b. strcmp a b \<le> 0) (sys_ssort strcmp [''term'', ''expr'', ''stmt''] 3) \<and>
   mset (sys_ssort strcmp [''term'', ''expr'', ''stmt''] 3) = mset [''term'', ''expr'', ''stmt'']"
proof -
  let ?r = "sys_ssort strcmp [''term'', ''expr'', ''stmt''] 3"
  have r: "mset ?r = mset [''term'', ''expr'', ''stmt'']" "sorted_wrt (\<lambda>a b. strcmp a b \<le> 0) (take 3 ?r)"
    using sys_ssort_sorts [of strcmp 3 "[''term'', ''expr'', ''stmt'']", OF strcmp_total strcmp_trans]
    by simp_all
  have "length ?r = 3" using mset_eq_length [OF r(1)] by simp
  with r show ?thesis by simp
qed

end
