(* ===== verification/HashTab.thy ===== *)
theory HashTab
  imports ShellSort
begin

text \<open>
  The hash tables of \<open>src/compiler/lib/hash.c\<close>, on a heap of buckets.  A bucket is linked
  forward by its address and backward by the location of the pointer that leads to it: a
  slot of the table or the \<open>next\<close> field of another bucket.  The user's part of a symbol is
  the field \<open>user\<close>; the hash and the comparison function of a table are parameters of the
  operations that call them.
\<close>

section \<open>Hash functions\<close>

fun hash_add_loop :: "byte list \<Rightarrow> u32 \<Rightarrow> u32" where
  "hash_add_loop [] h = h"
| "hash_add_loop (c # name) h = hash_add_loop name (h + ucast c)"

definition hash_add :: "byte list \<Rightarrow> u32" where
  "hash_add name = hash_add_loop name 0"

definition HIGH_BITS :: u32 where
  "HIGH_BITS = NOT (drop_bit 4 (NOT 0))"

fun hash_pjw_loop :: "byte list \<Rightarrow> u32 \<Rightarrow> u32" where
  "hash_pjw_loop [] h = h"
| "hash_pjw_loop (c # name) h0 =
     (let h = push_bit 4 h0 + ucast c; g = h AND HIGH_BITS
      in hash_pjw_loop name
           (if g \<noteq> 0 then (h XOR drop_bit 24 g) AND NOT HIGH_BITS else h))"

definition hash_pjw :: "byte list \<Rightarrow> u32" where
  "hash_pjw name = hash_pjw_loop name 0"

section \<open>Tables\<close>

datatype loc = Slot nat | NextOf nat

record 'a BUCKET_S =
  bnext :: "nat option"
  bprev :: loc
  user :: 'a

record 'a HASH_TAB_S =
  max_size :: nat
  curr_num :: int
  table :: "nat option list"
  heap :: "nat \<Rightarrow> 'a BUCKET_S option"

definition HASH_TABLE_MAX_SYM :: nat where "HASH_TABLE_MAX_SYM = 1024"

text \<open>\<open>hash_new_sym\<close> allocates a bucket of zeroed memory at a fresh address \<open>a\<close>.\<close>

definition hash_new_sym :: "'a HASH_TAB_S \<Rightarrow> nat \<Rightarrow> 'a \<Rightarrow> 'a HASH_TAB_S" where
  "hash_new_sym t a x = t\<lparr>heap := (heap t)(a \<mapsto> \<lparr>bnext = None, bprev = Slot 0, user = x\<rparr>)\<rparr>"

definition hash_make_tab :: "nat \<Rightarrow> (nat \<Rightarrow> 'a BUCKET_S option) \<Rightarrow> 'a HASH_TAB_S" where
  "hash_make_tab max_sym h =
     (let n = (if max_sym = 0 then HASH_TABLE_MAX_SYM else max_sym)
      in \<lparr>max_size = n, curr_num = 0, table = replicate n None, heap = h\<rparr>)"

definition buck :: "'a HASH_TAB_S \<Rightarrow> nat \<Rightarrow> 'a BUCKET_S" where
  "buck t a = the (heap t a)"

definition slot_of :: "('a \<Rightarrow> u32) \<Rightarrow> 'a HASH_TAB_S \<Rightarrow> 'a \<Rightarrow> nat" where
  "slot_of hash t x = unat (hash x) mod max_size t"

definition set_prev :: "nat option \<Rightarrow> loc \<Rightarrow> 'a HASH_TAB_S \<Rightarrow> 'a HASH_TAB_S" where
  "set_prev p l t =
     (case p of None \<Rightarrow> t | Some b \<Rightarrow> t\<lparr>heap := (heap t)(b \<mapsto> (buck t b)\<lparr>bprev := l\<rparr>)\<rparr>)"

definition write_loc :: "loc \<Rightarrow> nat option \<Rightarrow> 'a HASH_TAB_S \<Rightarrow> 'a HASH_TAB_S" where
  "write_loc l p t =
     (case l of
        Slot i \<Rightarrow> t\<lparr>table := (table t)[i := p]\<rparr>
      | NextOf b \<Rightarrow> t\<lparr>heap := (heap t)(b \<mapsto> (buck t b)\<lparr>bnext := p\<rparr>)\<rparr>)"

definition hash_add_sym :: "('a \<Rightarrow> u32) \<Rightarrow> 'a HASH_TAB_S \<Rightarrow> nat \<Rightarrow> 'a HASH_TAB_S" where
  "hash_add_sym hash t a =
     (let i = slot_of hash t (user (buck t a));
          tmp = table t ! i;
          t1 = write_loc (Slot i) (Some a) t;
          t2 = t1\<lparr>heap := (heap t1)(a \<mapsto> (buck t1 a)\<lparr>bprev := Slot i, bnext := tmp\<rparr>)\<rparr>;
          t3 = set_prev tmp (NextOf a) t2
      in t3\<lparr>curr_num := curr_num t3 + 1\<rparr>)"

definition hash_del_sym :: "'a HASH_TAB_S \<Rightarrow> nat \<Rightarrow> 'a HASH_TAB_S" where
  "hash_del_sym t a =
     (let t1 = t\<lparr>curr_num := curr_num t - 1\<rparr>;
          t2 = write_loc (bprev (buck t1 a)) (bnext (buck t1 a)) t1
      in set_prev (bnext (buck t2 a)) (bprev (buck t2 a)) t2)"

text \<open>The walks along a chain; a chain that does not end is the value \<open>None\<close>.\<close>

partial_function (option) find_from ::
  "('a \<Rightarrow> 'a \<Rightarrow> int) \<Rightarrow> 'a HASH_TAB_S \<Rightarrow> 'a \<Rightarrow> nat option \<Rightarrow> nat option option" where
  "find_from cmp t x p =
     (case p of
        None \<Rightarrow> Some None
      | Some a \<Rightarrow>
          if cmp x (user (buck t a)) \<noteq> 0 then find_from cmp t x (bnext (buck t a))
          else Some (Some a))"

definition hash_find_sym ::
  "('a \<Rightarrow> u32) \<Rightarrow> ('a \<Rightarrow> 'a \<Rightarrow> int) \<Rightarrow> 'a HASH_TAB_S \<Rightarrow> 'a \<Rightarrow> nat option option" where
  "hash_find_sym hash cmp t x = find_from cmp t x (table t ! slot_of hash t x)"

partial_function (option) hash_next_sym ::
  "('a \<Rightarrow> 'a \<Rightarrow> int) \<Rightarrow> 'a HASH_TAB_S \<Rightarrow> nat \<Rightarrow> nat option option" where
  "hash_next_sym cmp t lst =
     (case bnext (buck t lst) of
        None \<Rightarrow> Some None
      | Some b \<Rightarrow>
          if cmp (user (buck t lst)) (user (buck t b)) = 0 then Some (Some b)
          else hash_next_sym cmp t b)"

partial_function (option) walk :: "'a HASH_TAB_S \<Rightarrow> nat option \<Rightarrow> nat list option" where
  "walk t p =
     (case p of
        None \<Rightarrow> Some []
      | Some a \<Rightarrow> Option.bind (walk t (bnext (buck t a))) (\<lambda>as. Some (a # as)))"

fun walk_slots :: "'a HASH_TAB_S \<Rightarrow> nat option list \<Rightarrow> nat list option" where
  "walk_slots t [] = Some []"
| "walk_slots t (p # ps) =
     Option.bind (walk t p) (\<lambda>as. Option.bind (walk_slots t ps) (\<lambda>bs. Some (as @ bs)))"

text \<open>
  \<open>hash_print_tab\<close> as the list of symbols it passes to the print function.  With \<open>sort\<close> the
  symbols are first collected in an array of \<open>curr_num\<close> entries: one more is let through by
  the test, and written past the end.  \<open>qsort\<close> is the sort routine of the C library.
\<close>

fun collect :: "nat list \<Rightarrow> nat \<Rightarrow> int \<Rightarrow> unit res" where
  "collect [] k n = Inr ()"
| "collect (a # as) k n =
     (if n < int k then Inl (Exit 1)
      else if int k = n then Inl Overflow
      else collect as (Suc k) n)"

definition hash_print_tab ::
  "(('a \<Rightarrow> 'a \<Rightarrow> int) \<Rightarrow> 'a list \<Rightarrow> 'a list) \<Rightarrow> ('a \<Rightarrow> 'a \<Rightarrow> int) \<Rightarrow> 'a HASH_TAB_S \<Rightarrow> bool
   \<Rightarrow> 'a list res option" where
  "hash_print_tab qsort cmp t sorted_out =
     (case walk_slots t (table t) of
        None \<Rightarrow> None
      | Some as \<Rightarrow>
          if \<not> sorted_out then Some (Inr (map (\<lambda>a. user (buck t a)) as))
          else Some (bind_res (collect as 0 (curr_num t))
                 (\<lambda>_. Inr (qsort cmp (map (\<lambda>a. user (buck t a)) as)))))"

section \<open>Chains\<close>

text \<open>The buckets that hang off a location, in order.\<close>

fun chain :: "('a HASH_TAB_S) \<Rightarrow> loc \<Rightarrow> nat option \<Rightarrow> nat list \<Rightarrow> bool" where
  "chain t l p [] \<longleftrightarrow> p = None"
| "chain t l p (a # as) \<longleftrightarrow>
     p = Some a \<and> heap t a \<noteq> None \<and> bprev (buck t a) = l \<and> chain t (NextOf a) (bnext (buck t a)) as"

text \<open>
  The state of a table is represented by one list of addresses, the newest first: the chain
  of a slot holds the addresses of that slot in the order of the list.
\<close>

definition in_slot :: "('a \<Rightarrow> u32) \<Rightarrow> 'a HASH_TAB_S \<Rightarrow> nat \<Rightarrow> nat list \<Rightarrow> nat list" where
  "in_slot hash t i as = filter (\<lambda>a. slot_of hash t (user (buck t a)) = i) as"

definition tab_inv :: "('a \<Rightarrow> u32) \<Rightarrow> 'a HASH_TAB_S \<Rightarrow> nat list \<Rightarrow> bool" where
  "tab_inv hash t as \<longleftrightarrow>
     0 < max_size t \<and> length (table t) = max_size t \<and> distinct as \<and>
     curr_num t = int (length as) \<and>
     (\<forall>i<max_size t. chain t (Slot i) (table t ! i) (in_slot hash t i as))"

lemma chain_cong:
  "\<forall>a\<in>set as. heap t' a = heap t a \<Longrightarrow> chain t' l p as = chain t l p as"
  by (induction as arbitrary: l p) (auto simp: buck_def)

lemma heap_write_loc [simp]:
  "heap (write_loc (Slot i) p t) = heap t"
  "heap (write_loc (NextOf b) p t) = (heap t)(b \<mapsto> (buck t b)\<lparr>bnext := p\<rparr>)"
  "table (write_loc (Slot i) p t) = (table t)[i := p]"
  "table (write_loc (NextOf b) p t) = table t"
  "max_size (write_loc l p t) = max_size t" "curr_num (write_loc l p t) = curr_num t"
  by (simp_all add: write_loc_def split: loc.split)

lemma set_prev_simps [simp]:
  "table (set_prev p l t) = table t" "max_size (set_prev p l t) = max_size t"
  "curr_num (set_prev p l t) = curr_num t"
  "heap (set_prev None l t) = heap t"
  "heap (set_prev (Some b) l t) = (heap t)(b \<mapsto> (buck t b)\<lparr>bprev := l\<rparr>)"
  by (simp_all add: set_prev_def split: option.split)

lemma chain_retarget:
  "chain t l p as \<Longrightarrow> distinct as \<Longrightarrow> chain (set_prev p l' t) l' p as"
proof (cases as)
  case (Cons a bs)
  assume "chain t l p as" "distinct as"
  with Cons show ?thesis
    using chain_cong [of bs "set_prev p l' t" t "NextOf a" "bnext (buck t a)"]
    by (auto simp: buck_def)
qed simp

lemma user_set_prev [simp]: "user (buck (set_prev p l t) a) = user (buck t a)"
  by (auto simp: set_prev_def buck_def split: option.split)

lemma user_write_loc [simp]: "user (buck (write_loc l p t) a) = user (buck t a)"
  by (auto simp: write_loc_def buck_def split: loc.split)

lemma slot_of_less: "0 < max_size t \<Longrightarrow> slot_of hash t x < max_size t"
  by (simp add: slot_of_def)

lemma chain_prev:
  "chain t l p (xs @ a # ys) \<Longrightarrow> bprev (buck t a) = (if xs = [] then l else NextOf (last xs)) \<and>
     heap t a \<noteq> None \<and> chain t (NextOf a) (bnext (buck t a)) ys"
proof (induction xs arbitrary: l p)
  case (Cons x xs)
  then have "chain t (NextOf x) (bnext (buck t x)) (xs @ a # ys)" by simp
  from Cons.IH [OF this] show ?case by simp
qed simp

text \<open>Taking a bucket out of its chain.\<close>

definition unlink :: "'a HASH_TAB_S \<Rightarrow> nat \<Rightarrow> 'a HASH_TAB_S" where
  "unlink t a =
     set_prev (bnext (buck t a)) (bprev (buck t a)) (write_loc (bprev (buck t a)) (bnext (buck t a)) t)"

definition outside :: "loc \<Rightarrow> nat list \<Rightarrow> bool" where
  "outside l as \<longleftrightarrow> (\<forall>c\<in>set as. l \<noteq> NextOf c)"

lemma bnext_write_loc_same:
  "l \<noteq> NextOf b \<Longrightarrow> heap (write_loc l p t) b = heap t b"
  by (cases l) auto

lemma heap_set_prev_other: "p \<noteq> Some b \<Longrightarrow> heap (set_prev p l t) b = heap t b"
  by (cases p) auto

lemma heap_unlink_other:
  assumes "chain t l p (xs @ a # ys)" and "b \<noteq> a" and "bprev (buck t a) \<noteq> NextOf b"
    and "bnext (buck t a) \<noteq> Some b"
  shows "heap (unlink t a) b = heap t b"
  using assms by (simp add: unlink_def heap_set_prev_other bnext_write_loc_same)

lemma chain_unlink:
  assumes "chain t l p (xs @ a # ys)" and "distinct (xs @ a # ys)" and "outside l (xs @ a # ys)"
  shows "chain (unlink t a) l (if xs = [] then bnext (buck t a) else p) (xs @ ys)"
  using assms
proof (induction xs arbitrary: l p)
  case Nil
  let ?n = "bnext (buck t a)"
  have c: "chain t (NextOf a) ?n ys" and pr: "bprev (buck t a) = l" using Nil.prems(1) by simp_all
  have "chain (write_loc l ?n t) (NextOf a) ?n ys"
    by (rule chain_cong [THEN iffD2, OF _ c])
      (use Nil.prems(3) in \<open>cases l; auto simp: outside_def\<close>)
  then have "chain (set_prev ?n l (write_loc l ?n t)) l ?n ys"
    using Nil.prems(2) by (intro chain_retarget) simp_all
  then show ?case by (simp add: unlink_def pr)
next
  case (Cons x xs)
  have x: "p = Some x" "heap t x \<noteq> None" "bprev (buck t x) = l"
    "chain t (NextOf x) (bnext (buck t x)) (xs @ a # ys)"
    using Cons.prems(1) by simp_all
  have out: "outside (NextOf x) (xs @ a # ys)" using Cons.prems(2) by (auto simp: outside_def)
  have IH: "chain (unlink t a) (NextOf x) (if xs = [] then bnext (buck t a) else bnext (buck t x)) (xs @ ys)"
    using Cons.IH [OF x(4) _ out] Cons.prems(2) by simp
  have pr: "bprev (buck t a) = (if xs = [] then NextOf x else NextOf (last xs))"
    "chain t (NextOf a) (bnext (buck t a)) ys"
    using chain_prev [OF x(4)] by simp_all
  have nx: "bnext (buck t a) \<noteq> Some x" using pr(2) Cons.prems(2) by (cases ys) auto
  have lx: "xs \<noteq> [] \<Longrightarrow> last xs \<noteq> x" using Cons.prems(2) last_in_set by fastforce
  have "heap (unlink t a) x = Some ((buck t x)\<lparr>bnext := if xs = [] then bnext (buck t a) else bnext (buck t x)\<rparr>)"
    using x(2) nx lx pr(1)
    by (cases "bnext (buck t a)") (auto simp: unlink_def set_prev_def buck_def)
  with x IH show ?case by (simp add: buck_def)
qed


section \<open>The operations on the list of symbols\<close>

lemma in_slot_same:
  assumes "max_size t' = max_size t" and "\<And>a. user (buck t' a) = user (buck t a)"
  shows "in_slot hash t' i as = in_slot hash t i as"
  using assms by (simp add: in_slot_def slot_of_def)

lemma in_slot_simps [simp]:
  "in_slot hash t i [] = []"
  "in_slot hash t i (a # as) =
     (if slot_of hash t (user (buck t a)) = i then a # in_slot hash t i as else in_slot hash t i as)"
  "set (in_slot hash t i as) = {a \<in> set as. slot_of hash t (user (buck t a)) = i}"
  "distinct as \<Longrightarrow> distinct (in_slot hash t i as)"
  by (auto simp: in_slot_def)

lemma chain_first: "chain t l (Some b) as \<Longrightarrow> b \<in> set as \<and> heap t b \<noteq> None"
  by (cases as) auto

lemma add_keeps:
  shows "max_size (hash_add_sym hash t a) = max_size t"
    and "curr_num (hash_add_sym hash t a) = curr_num t + 1"
    and "user (buck (hash_add_sym hash t a) b) = user (buck t b)"
  by (auto simp: hash_add_sym_def Let_def set_prev_def buck_def split: option.split)

lemma del_keeps:
  shows "max_size (hash_del_sym t a) = max_size t"
    and "curr_num (hash_del_sym t a) = curr_num t - 1"
    and "user (buck (hash_del_sym t a) b) = user (buck t b)"
  by (auto simp: hash_del_sym_def Let_def set_prev_def write_loc_def buck_def
      split: option.split loc.split)

lemma chain_frame:
  assumes c: "chain t (Slot i) p as" and o: "\<And>b. b \<in> set as \<Longrightarrow> heap t' b = heap t b"
  shows "chain t' (Slot i) p as"
  using c chain_cong [of as t' t "Slot i" p] o by simp

lemma hash_add_sym_tab_inv:
  assumes inv: "tab_inv hash t as" and al: "heap t a \<noteq> None" and new: "a \<notin> set as"
  shows "tab_inv hash (hash_add_sym hash t a) (a # as)"
proof -
  let ?t' = "hash_add_sym hash t a"
  define i where "i = slot_of hash t (user (buck t a))"
  define tmp where "tmp = table t ! i"
  define t2 where "t2 = t\<lparr>table := (table t)[i := Some a],
      heap := (heap t)(a \<mapsto> (buck t a)\<lparr>bprev := Slot i, bnext := tmp\<rparr>)\<rparr>"
  have pos: "0 < max_size t" and len: "length (table t) = max_size t"
    using inv by (auto simp: tab_inv_def)
  have i: "i < max_size t" using slot_of_less [OF pos] by (simp add: i_def)
  have ch: "j < max_size t \<Longrightarrow> chain t (Slot j) (table t ! j) (in_slot hash t j as)" for j
    using inv by (simp add: tab_inv_def)
  have t': "heap ?t' = heap (set_prev tmp (NextOf a) t2)" "table ?t' = (table t)[i := Some a]"
    unfolding hash_add_sym_def Let_def i_def [symmetric] tmp_def [symmetric] t2_def
    by (cases tmp; simp add: buck_def)+
  have tmp_in: "tmp = Some b \<Longrightarrow> b \<in> set as \<and> slot_of hash t (user (buck t b)) = i" for b
    using chain_first [of t "Slot i" b "in_slot hash t i as"] ch [OF i] by (simp add: tmp_def)
  have same: "in_slot hash ?t' j as = in_slot hash t j as" for j
    by (rule in_slot_same) (simp_all add: add_keeps)
  have heap_other: "heap ?t' b = heap t b" if "b \<noteq> a" "tmp \<noteq> Some b" for b
    using that by (cases tmp) (auto simp: t'(1) t2_def)
  have "chain ?t' (Slot j) (table ?t' ! j) (in_slot hash ?t' j (a # as))" if j: "j < max_size t" for j
  proof (cases "j = i")
    case False
    have "chain ?t' (Slot j) (table t ! j) (in_slot hash t j as)"
      by (rule chain_frame [OF ch [OF j]]) (use new tmp_in False in \<open>auto intro!: heap_other\<close>)
    with False j len show ?thesis
      by (simp add: t'(2) same add_keeps slot_of_def i_def)
  next
    case True
    have d: "distinct (in_slot hash t i as)" using inv by (simp add: tab_inv_def)
    have "chain t2 (Slot i) tmp (in_slot hash t i as)"
      unfolding tmp_def by (rule chain_frame [OF ch [OF i]]) (use new in \<open>auto simp: t2_def\<close>)
    then have c2: "chain (set_prev tmp (NextOf a) t2) (NextOf a) tmp (in_slot hash t i as)"
      using d by (rule chain_retarget)
    have c3: "chain ?t' (NextOf a) tmp (in_slot hash t i as)"
      using c2 chain_cong [of "in_slot hash t i as" ?t' "set_prev tmp (NextOf a) t2"] by (simp add: t'(1))
    have "tmp \<noteq> Some a" using tmp_in new by blast
    then have "heap ?t' a = Some ((buck t a)\<lparr>bprev := Slot i, bnext := tmp\<rparr>)"
      by (cases tmp) (auto simp: t'(1) t2_def)
    with True c3 i len show ?thesis
      by (simp add: t'(2) same add_keeps slot_of_def i_def [symmetric] buck_def) 
        (simp add: i_def slot_of_def buck_def)
  qed
  with inv new show ?thesis
    by (simp add: tab_inv_def add_keeps t'(2))
qed

lemma hash_del_sym_unlink:
  assumes "bprev (buck t a) \<noteq> NextOf a"
  shows "heap (hash_del_sym t a) = heap (unlink t a)"
    and "table (hash_del_sym t a) = table (unlink t a)"
  using assms
  by (cases "bprev (buck t a)"; cases "bnext (buck t a)";
      auto simp: hash_del_sym_def unlink_def Let_def buck_def)+

lemma table_unlink:
  "table (unlink t a) =
     (case bprev (buck t a) of Slot i \<Rightarrow> (table t)[i := bnext (buck t a)] | NextOf b \<Rightarrow> table t)"
  by (simp add: unlink_def split: loc.split)

lemma hash_del_sym_tab_inv:
  assumes inv: "tab_inv hash t as" and a: "a \<in> set as"
  shows "tab_inv hash (hash_del_sym t a) (remove1 a as)"
proof -
  let ?t' = "hash_del_sym t a"
  define i where "i = slot_of hash t (user (buck t a))"
  have pos: "0 < max_size t" and len: "length (table t) = max_size t" and d: "distinct as"
    using inv by (auto simp: tab_inv_def)
  have i: "i < max_size t" using slot_of_less [OF pos] by (simp add: i_def)
  have ch: "j < max_size t \<Longrightarrow> chain t (Slot j) (table t ! j) (in_slot hash t j as)" for j
    using inv by (simp add: tab_inv_def)
  have "a \<in> set (in_slot hash t i as)" using a by (simp add: i_def)
  then obtain xs ys where split: "in_slot hash t i as = xs @ a # ys" by (meson split_list)
  have dist: "distinct (xs @ a # ys)" using d split [symmetric] by simp
  have pr: "bprev (buck t a) = (if xs = [] then Slot i else NextOf (last xs))"
    and nx: "chain t (NextOf a) (bnext (buck t a)) ys"
    using chain_prev [of t "Slot i" "table t ! i" xs a ys] ch [OF i] split by simp_all
  have lx: "xs \<noteq> [] \<Longrightarrow> last xs \<in> set xs" by simp
  have na: "bprev (buck t a) \<noteq> NextOf a" using pr lx dist by auto
  note un = hash_del_sym_unlink [OF na]
  have in_i: "b \<in> set xs \<union> set ys \<Longrightarrow> slot_of hash t (user (buck t b)) = i" for b
    using split in_slot_simps(3) [of hash t i as] by auto
  have nx_in: "bnext (buck t a) = Some b \<Longrightarrow> b \<in> set ys" for b
    using chain_first nx by fastforce
  have same: "in_slot hash ?t' j bs = in_slot hash t j bs" for j bs
    by (rule in_slot_same) (simp_all add: del_keeps)
  have rem: "in_slot hash t j (remove1 a as) = remove1 a (in_slot hash t j as)" for j
    by (simp add: in_slot_def filter_remove1)
  have "chain ?t' (Slot j) (table ?t' ! j) (in_slot hash ?t' j (remove1 a as))" if j: "j < max_size t" for j
  proof (cases "j = i")
    case True
    have "chain (unlink t a) (Slot i) (if xs = [] then bnext (buck t a) else table t ! i) (xs @ ys)"
      by (rule chain_unlink) (use ch [OF i] split dist in \<open>auto simp: outside_def\<close>)
    then have "chain ?t' (Slot i) (if xs = [] then bnext (buck t a) else table t ! i) (xs @ ys)"
      using chain_cong [of "xs @ ys" ?t' "unlink t a"] by (simp add: un)
    with True i len dist show ?thesis
      by (cases "xs = []") (simp_all add: same rem split remove1_append un table_unlink pr)
  next
    case False
    have "a \<notin> set (in_slot hash t j as)" using False by (simp add: i_def)
    then have "in_slot hash t j (remove1 a as) = in_slot hash t j as"
      by (simp add: rem remove1_idem)
    moreover have "heap ?t' b = heap t b" if b: "b \<in> set (in_slot hash t j as)" for b
    proof -
      have "b \<noteq> a" using b False by (auto simp: i_def)
      moreover have "bprev (buck t a) \<noteq> NextOf b"
        using pr lx in_i [of b] b False by auto
      moreover have "bnext (buck t a) \<noteq> Some b" using nx_in in_i [of b] b False by auto
      ultimately show ?thesis
        using heap_unlink_other [of t "Slot i" "table t ! i" xs a ys b] ch [OF i] split by (simp add: un)
    qed
    ultimately show ?thesis
      using chain_frame [OF ch [OF j], of ?t'] False len pr
      by (simp add: same un table_unlink split: if_splits)
  qed
  moreover have "length (table ?t') = max_size t"
    by (simp add: un table_unlink len split: loc.split)
  ultimately show ?thesis
    using pos d length_pos_if_in_set [OF a] inv
    by (simp add: tab_inv_def del_keeps length_remove1 a of_nat_diff Suc_leI)
qed

section \<open>Searching\<close>

lemma find_from_chain:
  "chain t l p as \<Longrightarrow>
     find_from cmp t x p = Some (List.find (\<lambda>a. cmp x (user (buck t a)) = 0) as)"
  by (induction as arbitrary: l p) (auto simp: find_from.simps [of cmp t x])

lemma find_filter:
  assumes "\<And>a. P a \<Longrightarrow> Q a"
  shows "List.find P (filter Q as) = List.find P as"
  using assms by (induction as) auto

text \<open>The hash and the comparison function of a table belong together.\<close>

definition hash_agrees :: "('a \<Rightarrow> u32) \<Rightarrow> ('a \<Rightarrow> 'a \<Rightarrow> int) \<Rightarrow> bool" where
  "hash_agrees hash cmp \<longleftrightarrow> (\<forall>x y. cmp x y = 0 \<longrightarrow> hash x = hash y)"

lemma hash_find_sym_list:
  assumes inv: "tab_inv hash t as" and ag: "hash_agrees hash cmp"
  shows "hash_find_sym hash cmp t x = Some (List.find (\<lambda>a. cmp x (user (buck t a)) = 0) as)"
proof -
  let ?i = "slot_of hash t x"
  have "?i < max_size t" using inv slot_of_less [of t hash x] by (simp add: tab_inv_def)
  then have "chain t (Slot ?i) (table t ! ?i) (in_slot hash t ?i as)"
    using inv by (simp add: tab_inv_def)
  moreover have "cmp x (user (buck t a)) = 0 \<Longrightarrow> slot_of hash t (user (buck t a)) = ?i" for a
    using ag by (simp add: hash_agrees_def slot_of_def)
  ultimately show ?thesis
    by (simp add: hash_find_sym_def find_from_chain in_slot_def find_filter)
qed

lemma walk_chain: "chain t l p as \<Longrightarrow> walk t p = Some as"
  by (induction as arbitrary: l p) (auto simp: walk.simps [of t])

lemma walk_slots_chains:
  "(\<And>k. k < length ps \<Longrightarrow> chain t (Slot (i + k)) (ps ! k) (in_slot hash t (i + k) as)) \<Longrightarrow>
     walk_slots t ps = Some (concat (map (\<lambda>k. in_slot hash t k as) [i..<i + length ps]))"
proof (induction ps arbitrary: i)
  case (Cons p ps)
  have "walk t p = Some (in_slot hash t i as)" using Cons.prems [of 0] by (simp add: walk_chain)
  moreover have "walk_slots t ps = Some (concat (map (\<lambda>k. in_slot hash t k as) [Suc i..<Suc i + length ps]))"
    using Cons.prems [of "Suc k" for k] by (intro Cons.IH) simp
  moreover have "[i..<i + length (p # ps)] = i # [Suc i..<Suc i + length ps]"
    by (simp add: upt_conv_Cons del: upt_Suc)
  ultimately show ?case by (simp del: upt_Suc)
qed simp

text \<open>Sorting the addresses into the slots loses none and doubles none.\<close>

lemma mset_in_slots:
  assumes "0 < max_size t"
  shows "mset (concat (map (\<lambda>k. in_slot hash t k as) [0..<max_size t])) = mset as"
proof (induction as)
  case (Cons a as)
  let ?i = "slot_of hash t (user (buck t a))"
  let ?f = "\<lambda>k. mset (in_slot hash t k as)"
  have i: "?i < max_size t" using assms by (rule slot_of_less)
  have "(\<Sum>k\<leftarrow>[0..<max_size t]. mset (in_slot hash t k (a # as))) =
        (\<Sum>k\<leftarrow>[0..<max_size t]. ?f k + (if k = ?i then {#a#} else {#}))"
    by (rule arg_cong [where f = sum_list], rule map_cong) auto
  also have "\<dots> = (\<Sum>k\<leftarrow>[0..<max_size t]. ?f k) + {#a#}"
    using i by (simp add: sum_list_addf interv_sum_list_conv_sum_set_nat)
  finally show ?case using Cons.IH by (simp add: mset_concat o_def)
qed (simp add: mset_concat o_def)

lemma collect_fits: "int (k + length as) \<le> n \<Longrightarrow> collect as k n = Inr ()"
  by (induction as arbitrary: k) auto

lemma walk_slots_table:
  assumes "tab_inv hash t as"
  obtains bs where "walk_slots t (table t) = Some bs" and "mset bs = mset as"
proof -
  have "walk_slots t (table t) = Some (concat (map (\<lambda>k. in_slot hash t k as) [0..<0 + length (table t)]))"
    by (rule walk_slots_chains) (use assms in \<open>simp add: tab_inv_def\<close>)
  with that show thesis using assms mset_in_slots [of t hash as] by (simp add: tab_inv_def)
qed

section \<open>The interface of a symbol table\<close>

text \<open>
  What the parser generator relies on: the table is a list of symbols, the newest first,
  and a search gives the newest symbol that matches.
\<close>

locale symbol_table =
  fixes add :: "'s \<Rightarrow> nat \<Rightarrow> 's" and del :: "'s \<Rightarrow> nat \<Rightarrow> 's"
    and find :: "'s \<Rightarrow> 'k \<Rightarrow> nat option option"
    and holds :: "'s \<Rightarrow> nat list \<Rightarrow> bool" and live :: "'s \<Rightarrow> nat \<Rightarrow> bool"
    and hit :: "'s \<Rightarrow> 'k \<Rightarrow> nat \<Rightarrow> bool"
  assumes holds_add: "holds s as \<Longrightarrow> live s a \<Longrightarrow> a \<notin> set as \<Longrightarrow> holds (add s a) (a # as)"
    and holds_del: "holds s as \<Longrightarrow> a \<in> set as \<Longrightarrow> holds (del s a) (remove1 a as)"
    and find_holds: "holds s as \<Longrightarrow> find s x = Some (List.find (hit s x) as)"
    and live_add: "holds s as \<Longrightarrow> live s b \<Longrightarrow> live (add s a) b"
    and hit_add: "hit (add s a) x b = hit s x b"
    and hit_del: "hit (del s a) x b = hit s x b"
begin

lemma adds:
  assumes "holds s as" and "\<forall>b\<in>set bs. live s b \<and> b \<notin> set as" and "distinct bs"
  shows "holds (foldl add s bs) (rev bs @ as) \<and> (\<forall>x b. hit (foldl add s bs) x b = hit s x b)"
  using assms
proof (induction bs arbitrary: s as)
  case (Cons b bs)
  have "holds (add s b) (b # as)" using Cons.prems by (intro holds_add) auto
  moreover have "\<forall>c\<in>set bs. live (add s b) c \<and> c \<notin> set (b # as)"
    using Cons.prems live_add by auto
  ultimately show ?case using Cons.IH [of "add s b" "b # as"] Cons.prems by (simp add: hit_add)
qed simp

lemma find_append:
  "List.find P (as @ bs) = (case List.find P as of None \<Rightarrow> List.find P bs | Some a \<Rightarrow> Some a)"
  by (induction as) auto

lemma find_adds:
  assumes "holds s as" and "\<forall>b\<in>set bs. live s b \<and> b \<notin> set as" and "distinct bs"
  shows "find (foldl add s bs) x =
    (case List.find (hit s x) (rev bs) of None \<Rightarrow> find s x | Some a \<Rightarrow> Some (Some a))"
proof -
  have "hit (foldl add s bs) x = hit s x" using adds [OF assms] by auto
  then show ?thesis
    using adds [OF assms] find_holds [of "foldl add s bs" "rev bs @ as" x] find_holds [OF assms(1), of x]
    by (simp add: find_append split: option.split)
qed

text \<open>Leaving a scope: after the removal the search sees what it saw before.\<close>

lemma find_del_add:
  assumes "holds s as" and "live s a" and "a \<notin> set as"
  shows "find (del (add s a) a) x = find s x"
proof -
  have "holds (add s a) (a # as)" using assms by (rule holds_add)
  then have "holds (del (add s a) a) as" using holds_del by fastforce
  moreover have "hit (del (add s a) a) x = hit s x" by (rule ext) (simp add: hit_add hit_del)
  ultimately show ?thesis using find_holds assms(1) by simp
qed

end

text \<open>The hash table with a hash function that agrees with its comparison is one.\<close>

lemma live_add_sym: "heap t b \<noteq> None \<Longrightarrow> heap (hash_add_sym hash t a) b \<noteq> None"
  by (auto simp: hash_add_sym_def Let_def set_prev_def split: option.split)


text \<open>
  The tables of the tools are keyed by a name that the symbol starts with: their hash
  function reads the name, and they are compared with \<open>strcmp\<close>.
\<close>

definition by_name :: "('a \<Rightarrow> string) \<Rightarrow> 'a \<Rightarrow> 'a \<Rightarrow> int" where
  "by_name nm x y = strcmp (nm x) (nm y)"

definition hash_name :: "(string \<Rightarrow> u32) \<Rightarrow> ('a \<Rightarrow> string) \<Rightarrow> 'a \<Rightarrow> u32" where
  "hash_name hf nm x = hf (nm x)"

definition hits :: "('a \<Rightarrow> string) \<Rightarrow> 'a HASH_TAB_S \<Rightarrow> 'a \<Rightarrow> nat \<Rightarrow> bool" where
  "hits nm t x = (\<lambda>a. nm x = nm (user (buck t a)))"

lemma hash_name_agrees: "hash_agrees (hash_name hf nm) (by_name nm)"
  by (simp add: hash_agrees_def hash_name_def by_name_def strcmp_0_iff)

interpretation named: symbol_table
  "hash_add_sym (hash_name hf nm)" hash_del_sym "hash_find_sym (hash_name hf nm) (by_name nm)"
  "tab_inv (hash_name hf nm)" "\<lambda>t a. heap t a \<noteq> None" "hits nm" for hf nm
  by unfold_locales
    (simp_all add: hash_add_sym_tab_inv hash_del_sym_tab_inv live_add_sym hits_def add_keeps del_keeps
      hash_find_sym_list [OF _ hash_name_agrees] by_name_def strcmp_0_iff)

lemma make_tab_inv: "tab_inv hash (hash_make_tab n h) []"
  by (simp add: tab_inv_def hash_make_tab_def HASH_TABLE_MAX_SYM_def Let_def)

text \<open>A table of three symbols, two of them of the same name, for the witnesses.\<close>

definition demo_heap :: "nat \<Rightarrow> string BUCKET_S option" where
  "demo_heap =
     [0 \<mapsto> \<lparr>bnext = None, bprev = Slot 0, user = ''a''\<rparr>,
      1 \<mapsto> \<lparr>bnext = None, bprev = Slot 0, user = ''b''\<rparr>,
      2 \<mapsto> \<lparr>bnext = None, bprev = Slot 0, user = ''a''\<rparr>]"

lemma demo_make_inv: "tab_inv hash (hash_make_tab 2 demo_heap) []"
  by (rule make_tab_inv)

definition name_bytes :: "string \<Rightarrow> byte list" where
  "name_bytes s = map of_char s"

definition demo_tab :: "nat list \<Rightarrow> string HASH_TAB_S" where
  "demo_tab as = foldl (hash_add_sym (hash_name (\<lambda>s. hash_pjw (name_bytes s)) (\<lambda>x. x))) (hash_make_tab 2 demo_heap) as"

text \<open>A chain of three buckets.\<close>

definition chain3 :: "string \<Rightarrow> string \<Rightarrow> string \<Rightarrow> string HASH_TAB_S" where
  "chain3 x y z =
     \<lparr>max_size = 1, curr_num = 3, table = [Some 0],
      heap = [0 \<mapsto> \<lparr>bnext = Some 1, bprev = Slot 0, user = x\<rparr>,
              1 \<mapsto> \<lparr>bnext = Some 2, bprev = NextOf 0, user = y\<rparr>,
              2 \<mapsto> \<lparr>bnext = None, bprev = NextOf 1, user = z\<rparr>]\<rparr>"

section \<open>Properties\<close>

text \<open>C32.
  Adding a fresh symbol and removing a symbol keep the invariant of the hash table: every
  chain is doubly linked from its slot and ends, a symbol is in the slot of its hash value,
  no symbol is in the table twice, and \<open>curr_num\<close> counts them.  The new symbol is the newest.
\<close>

theorem hash_tab_invariant:
  assumes "tab_inv hash t as" and "heap t a \<noteq> None" and "a \<notin> set as" and "b \<in> set as"
  shows "tab_inv hash (hash_add_sym hash t a) (a # as) \<and> tab_inv hash (hash_del_sym t b) (remove1 b as)"
  using assms by (simp add: hash_add_sym_tab_inv hash_del_sym_tab_inv)

theorem hash_tab_invariant_witness:
  "\<exists>as. tab_inv (hash_name (\<lambda>s. hash_pjw (name_bytes s)) (\<lambda>x. x)) (hash_del_sym (demo_tab [0, 1]) 0) as"
proof -
  let ?h = "hash_name (\<lambda>s. hash_pjw (name_bytes s)) (\<lambda>x. x)"
  have live: "heap (hash_make_tab 2 demo_heap) k \<noteq> None" if "k \<in> {0, 1, 2}" for k :: nat
    using that by (auto simp: hash_make_tab_def demo_heap_def Let_def)
  have "tab_inv ?h (demo_tab [0, 1]) [1, 0]"
    using named.adds [OF demo_make_inv, of "[0, 1]"]
      live by (simp add: demo_tab_def)
  moreover have "heap (demo_tab [0, 1]) 2 \<noteq> None"
    using live [of 2] by (simp add: demo_tab_def live_add_sym)
  ultimately show ?thesis
    using hash_tab_invariant [of ?h "demo_tab [0, 1]" "[1, 0]" 2 0] by auto
qed

text \<open>C33.
  Searching a table by name gives the newest symbol of that name: after the fresh symbols
  \<open>bs\<close> have been added in turn to a table, \<open>hash_find_sym\<close> returns the last of them whose
  name is the one searched, and what it returned before when there is none.  The search ends.
\<close>

theorem hash_find_sym_newest:
  assumes "tab_inv (hash_name hf nm) t as"
    and "\<forall>b\<in>set bs. heap t b \<noteq> None \<and> b \<notin> set as" and "distinct bs"
  shows "hash_find_sym (hash_name hf nm) (by_name nm) (foldl (hash_add_sym (hash_name hf nm)) t bs) x =
    (case List.find (\<lambda>b. nm x = nm (user (buck t b))) (rev bs) of
       None \<Rightarrow> Some (List.find (\<lambda>b. nm x = nm (user (buck t b))) as)
     | Some b \<Rightarrow> Some (Some b))"
proof -
  have h: "hits nm t x = (\<lambda>b. nm x = nm (user (buck t b)))" by (simp add: hits_def fun_eq_iff)
  show ?thesis
    using named.find_adds [OF assms, of x] named.find_holds [OF assms(1), of x]
    by (simp add: h split: option.splits)
qed

theorem hash_find_sym_newest_witness:
  "hash_find_sym (hash_name (\<lambda>s. hash_pjw (name_bytes s)) (\<lambda>x. x)) (by_name (\<lambda>x. x)) (demo_tab [0, 1, 2]) ''a''
     = Some (Some 2)"
proof -
  let ?t = "hash_make_tab 2 demo_heap"
  have live: "\<forall>b\<in>set [0, 1, 2]. heap ?t b \<noteq> None \<and> b \<notin> set []"
    by (auto simp: hash_make_tab_def demo_heap_def Let_def)
  have us: "user (buck ?t 2) = ''a''" by (simp add: hash_make_tab_def demo_heap_def Let_def buck_def)
  show ?thesis
    using hash_find_sym_newest [OF demo_make_inv live, where nm = "\<lambda>x. x" and x = "''a''"
        and hf = "\<lambda>s. hash_pjw (name_bytes s)"] us
    by (simp add: demo_tab_def)
qed

text \<open>C34.
  A symbol that is added and then removed leaves no trace in the searches: every name finds
  what it found before, so symbols of an inner scope uncover those they shadowed.
\<close>

theorem hash_del_sym_uncovers:
  assumes "tab_inv (hash_name hf nm) t as" and "heap t a \<noteq> None" and "a \<notin> set as"
  shows "hash_find_sym (hash_name hf nm) (by_name nm) (hash_del_sym (hash_add_sym (hash_name hf nm) t a) a) x =
    hash_find_sym (hash_name hf nm) (by_name nm) t x"
  using assms by (rule named.find_del_add)

theorem hash_del_sym_uncovers_witness:
  "hash_find_sym (hash_name (\<lambda>s. hash_pjw (name_bytes s)) (\<lambda>x. x)) (by_name (\<lambda>x. x))
     (hash_del_sym (demo_tab [0]) 0) ''a'' = Some None"
proof -
  let ?h = "hash_name (\<lambda>s. hash_pjw (name_bytes s)) (\<lambda>x. x)" and ?t = "hash_make_tab 2 demo_heap"
  have "hash_find_sym ?h (by_name (\<lambda>x. x)) (hash_del_sym (hash_add_sym ?h ?t 0) 0) ''a'' =
        hash_find_sym ?h (by_name (\<lambda>x. x)) ?t ''a''"
    by (rule hash_del_sym_uncovers [OF demo_make_inv])
      (simp_all add: hash_make_tab_def demo_heap_def Let_def)
  also have "\<dots> = Some None"
    using named.find_holds [OF demo_make_inv] by simp
  finally show ?thesis by (simp add: demo_tab_def)
qed

text \<open>C35.
  Printing a table that keeps its invariant passes every symbol to the print function exactly
  once, and with the sorting option the array of \<open>curr_num\<close> entries is never overrun.
\<close>

theorem hash_print_tab_complete:
  assumes "tab_inv hash t as" and "\<And>xs. mset (qsort cmp xs) = mset xs"
  shows "\<exists>out. hash_print_tab qsort cmp t sorted_out = Some (Inr out) \<and>
    mset out = mset (map (\<lambda>a. user (buck t a)) as)"
proof -
  obtain bs where bs: "walk_slots t (table t) = Some bs" "mset bs = mset as"
    using walk_slots_table [OF assms(1)] .
  have "length bs = length as" using bs(2) by (rule mset_eq_length)
  then have "collect bs 0 (curr_num t) = Inr ()"
    using assms(1) by (intro collect_fits) (simp add: tab_inv_def)
  then show ?thesis using bs assms(2) by (simp add: hash_print_tab_def mset_map)
qed

theorem hash_print_tab_complete_witness:
  "\<exists>out. hash_print_tab (\<lambda>cmp xs. xs) (by_name (\<lambda>x. x)) (demo_tab [0, 1]) True = Some (Inr out) \<and> length out = 2"
proof -
  let ?h = "hash_name (\<lambda>s. hash_pjw (name_bytes s)) (\<lambda>x. x)"
  have live: "heap (hash_make_tab 2 demo_heap) k \<noteq> None" if "k \<in> {0, 1}" for k :: nat
    using that by (auto simp: hash_make_tab_def demo_heap_def Let_def)
  have "tab_inv ?h (demo_tab [0, 1]) [1, 0]"
    using named.adds [OF demo_make_inv, of "[0, 1]"] live by (simp add: demo_tab_def)
  from hash_print_tab_complete [OF this, where qsort = "\<lambda>cmp xs. xs" and sorted_out = True and cmp = "by_name (\<lambda>x. x)"]
  obtain out where out: "hash_print_tab (\<lambda>cmp xs. xs) (by_name (\<lambda>x. x)) (demo_tab [0, 1]) True = Some (Inr out)"
    and entries: "mset out = mset (map (\<lambda>a. user (buck (demo_tab [0, 1]) a)) [1, 0])" by blast
  have "length out = 2" using mset_eq_length [OF entries] by simp
  with out show ?thesis by blast
qed

text \<open>
  \<open>hash_next_sym\<close> compares neighbours on the chain, not the rest of the chain with the symbol
  it was given: from a bucket of one name followed by two of another it returns the second of
  these, and a later bucket of the same name behind a different one is missed.
\<close>

theorem hash_next_sym_neighbours:
  "hash_next_sym (by_name (\<lambda>x. x)) (chain3 ''x'' ''y'' ''y'') 0 = Some (Some 2) \<and>
   hash_next_sym (by_name (\<lambda>x. x)) (chain3 ''x'' ''y'' ''x'') 0 = Some None"
  by (simp add: hash_next_sym.simps by_name_def chain3_def buck_def)

end
