(* ===== verification/Lexer.thy ===== *)
theory Lexer
  imports NfaData Escapes HashTab "HOL-Library.Sublist"
begin

text \<open>
  The lexical analyser of the regular-expression parser (\<open>src/compiler/lex/nfa.c\<close>): the
  macro table, the token stream with its stack of macro expansions, and the array of accept
  strings.  All static variables of the file are fields of the record \<open>lex_env\<close>.  An
  input position is the rest of the text from there on; the stack pointers \<open>sp\<close> and
  \<open>_sp\<close> are lists, the top first.
\<close>

section \<open>Tokens\<close>

datatype TOKEN =
    EOS | ANY | AT_BOL | AT_EOL | CCL_END | CCL_START | CLOSE_CURLY | CLOSE_PAREN | CLOSRUE
  | DASH | END_OF_INPUT | LITERAL | OPEN_CURLY | OPEN_PAREN | OPTIONAL | ALT | PLUS_CLOSE

definition tok_map :: "TOKEN list" where
  "tok_map =
     replicate 36 LITERAL @ [AT_EOL] @ replicate 3 LITERAL @
     [OPEN_PAREN, CLOSE_PAREN, CLOSRUE, PLUS_CLOSE, LITERAL, DASH, ANY] @
     replicate 16 LITERAL @ [OPTIONAL] @ replicate 27 LITERAL @
     [CCL_START, LITERAL, CCL_END, AT_BOL] @ replicate 28 LITERAL @
     [OPEN_CURLY, ALT, CLOSE_CURLY, LITERAL]"

text \<open>The array has an entry for each of the characters 0 to 126.\<close>

definition tok_of :: "int \<Rightarrow> TOKEN res" where
  "tok_of c = (if 0 \<le> c \<and> nat c < length tok_map then Inr (tok_map ! nat c) else Inl Overflow)"

lemma length_tok_map [simp]: "length tok_map = 127"
  by (simp add: tok_map_def)

text \<open>The table as a case distinction, for evaluation.\<close>

definition tok_cases :: "int \<Rightarrow> TOKEN" where
  "tok_cases c =
     (if c = 36 then AT_EOL else if c = 40 then OPEN_PAREN else if c = 41 then CLOSE_PAREN
      else if c = 42 then CLOSRUE else if c = 43 then PLUS_CLOSE else if c = 45 then DASH
      else if c = 46 then ANY else if c = 63 then OPTIONAL else if c = 91 then CCL_START
      else if c = 93 then CCL_END else if c = 94 then AT_BOL else if c = 123 then OPEN_CURLY
      else if c = 124 then ALT else if c = 125 then CLOSE_CURLY else LITERAL)"

lemma tok_map_cases: "map (\<lambda>n. tok_cases (int n)) [0..<127] = tok_map"
  by code_simp

lemma tok_of_code [code]: "tok_of c = (if 0 \<le> c \<and> c < 127 then Inr (tok_cases c) else Inl Overflow)"
proof (cases "0 \<le> c \<and> c < 127")
  case True
  then have "nat c < length [0..<127]" by (simp add: nat_less_iff)
  then have "tok_map ! nat c = tok_cases (int (nat c))"
    unfolding tok_map_cases [symmetric] by (subst nth_map) simp_all
  with True show ?thesis by (simp add: tok_of_def nat_less_iff)
next
  case False
  then show ?thesis by (auto simp: tok_of_def)
qed

section \<open>Macros\<close>

text \<open>
  The two arrays of a \<open>MACRO\<close> follow each other; a name that fills its array runs on into
  the text, a text that fills its array has no end.
\<close>

record MACRO =
  mname :: string
  mtext :: string

definition MAC_NAME_MAX :: nat where "MAC_NAME_MAX = 34"

definition MAC_TEXT_MAX :: nat where "MAC_TEXT_MAX = 80"

definition NUL :: char where "NUL = CHR 0x00"

definition strncpy :: "string \<Rightarrow> nat \<Rightarrow> string" where
  "strncpy s n = take n (s @ replicate n NUL)"

definition macro_name :: "MACRO \<Rightarrow> string" where
  "macro_name m = takeWhile (\<lambda>c. c \<noteq> NUL) (mname m @ mtext m)"

definition macro_text :: "MACRO \<Rightarrow> string option" where
  "macro_text m = (if NUL \<in> set (mtext m) then Some (takeWhile (\<lambda>c. c \<noteq> NUL) (mtext m)) else None)"

text \<open>
  The end of the definition's text: every run of white space that the loop meets sets
  \<open>edef\<close> to its beginning, and the text is cut at the last one.
\<close>

fun find_edef :: "string \<Rightarrow> nat \<Rightarrow> bool \<Rightarrow> nat option \<Rightarrow> nat option" where
  "find_edef [] i in_run edef = edef"
| "find_edef (c # def) i in_run edef =
     (if \<not> isspace (sch c) then find_edef def (Suc i) False edef
      else find_edef def (Suc i) True (if in_run then edef else Some i))"

definition macro_def :: "string \<Rightarrow> MACRO" where
  "macro_def def =
     (let nm = takeWhile (\<lambda>c. \<not> isspace (sch c)) def;
          txt = skip_space (tl (dropWhile (\<lambda>c. \<not> isspace (sch c)) def));
          cut = (case find_edef txt 0 False None of None \<Rightarrow> txt | Some k \<Rightarrow> take k txt)
      in \<lparr>mname = strncpy nm MAC_NAME_MAX, mtext = strncpy cut MAC_TEXT_MAX\<rparr>)"

definition macro_hash :: "string \<Rightarrow> u32" where
  "macro_hash s = hash_add (name_bytes s)"

text \<open>
  \<open>new_macro\<close> makes the table on its first call; \<open>a\<close> is the address of the new bucket.
\<close>

definition new_macro :: "MACRO HASH_TAB_S option \<Rightarrow> nat \<Rightarrow> string \<Rightarrow> MACRO HASH_TAB_S" where
  "new_macro tab a def =
     (let t = (case tab of None \<Rightarrow> hash_make_tab 31 Map.empty | Some t \<Rightarrow> t)
      in hash_add_sym (hash_name macro_hash macro_name) (hash_new_sym t a (macro_def def)) a)"

definition macro_lookup :: "MACRO HASH_TAB_S option \<Rightarrow> string \<Rightarrow> MACRO option" where
  "macro_lookup tab nm =
     (case tab of
        None \<Rightarrow> None
      | Some t \<Rightarrow>
          (case hash_find_sym (hash_name macro_hash macro_name) (by_name macro_name) t
                  \<lparr>mname = nm, mtext = []\<rparr> of
             Some (Some a) \<Rightarrow> Some (user (buck t a))
           | _ \<Rightarrow> None))"

text \<open>
  \<open>get_macro\<close> on a text that starts with the brace: the rest behind the closing brace,
  and the text of the macro.
\<close>

definition get_macro :: "(string \<Rightarrow> MACRO option) \<Rightarrow> string \<Rightarrow> (string \<times> string) res" where
  "get_macro mac namep =
     (let s = tl namep
      in if CHR ''}'' \<notin> set s then Inl (Exit 1)
         else (case mac (takeWhile (\<lambda>c. c \<noteq> CHR ''}'') s) of
                 None \<Rightarrow> Inl (Exit 1)
               | Some m \<Rightarrow>
                   (case macro_text m of
                      None \<Rightarrow> Inl Overflow
                    | Some t \<Rightarrow> Inr (tl (dropWhile (\<lambda>c. c \<noteq> CHR ''}'') s), t))))"

section \<open>The state\<close>

text \<open>
  The input function is the list of what its calls will return: the value that
  \<open>g_actual_lineno\<close> has after the call, and the line; at the end of the list it returns
  null.  \<open>mem\<close> is the array of NFA states, \<open>saved\<close> the array of accept strings with the
  position, the line number and the text of each; positions are counted in \<open>int\<close>s.
\<close>

record lex_env =
  macros :: "string \<Rightarrow> MACRO option"
  unix_stype :: bool
  input :: "string option"
  lines :: "(int \<times> string) list"
  lineno :: int
  cur_tok :: TOKEN
  lexeme :: int
  inquote :: bool
  mstack :: "string list"
  nstates :: int
  next_alloc :: nat
  dstack :: "nat list"
  mem :: "NFA list"
  savep :: nat
  saved :: "(nat \<times> int \<times> string) list"

definition SSIZE :: nat where "SSIZE = 32"

definition STR_MAX :: nat where "STR_MAX = 10240"

section \<open>The token stream\<close>

text \<open>The loop that reads lines until one is not blank.\<close>

fun next_line :: "(int \<times> string) list \<Rightarrow> int \<Rightarrow> string option \<times> (int \<times> string) list \<times> int" where
  "next_line [] ln = (None, [], ln)"
| "next_line ((k, s) # ls) ln =
     (let t = skip_space s in if t = [] then next_line ls k else (Some t, ls, k))"

text \<open>At the end of a text the text below it on the stack goes on.\<close>

fun pop_text :: "string \<Rightarrow> string list \<Rightarrow> string \<times> string list" where
  "pop_text [] [] = ([], [])"
| "pop_text [] (t # stk) = pop_text t stk"
| "pop_text (c # s) stk = (c # s, stk)"

text \<open>
  The loop that expands macros.  The push comes before the test of the stack pointer, so the
  thirty-third nested expansion writes past the end of the array.
\<close>

function expand :: "(string \<Rightarrow> MACRO option) \<Rightarrow> string \<Rightarrow> string list \<Rightarrow> (string \<times> string list) res" where
  "expand mac s stk =
     (if peek s = 123
      then (if SSIZE \<le> length stk then Inl Overflow
            else (case get_macro mac s of
                    Inl e \<Rightarrow> Inl e
                  | Inr (rest, text) \<Rightarrow> expand mac text (rest # stk)))
      else Inr (s, stk))"
  by pat_completeness auto
termination
  by (relation "measure (\<lambda>(_, _, stk). SSIZE - length stk)") auto

definition end_of_string :: "string \<Rightarrow> lex_env \<Rightarrow> lex_env" where
  "end_of_string s env = env\<lparr>input := Some s, cur_tok := EOS, lexeme := 0\<rparr>"

definition set_token :: "bool \<Rightarrow> int \<Rightarrow> string \<Rightarrow> lex_env \<Rightarrow> lex_env res" where
  "set_token lit l s env =
     bind_res (if lit then Inr LITERAL else tok_of l)
       (\<lambda>t. Inr (env\<lparr>input := Some s, lexeme := l, cur_tok := t\<rparr>))"

text \<open>
  The character after the quote, if there is one.  The text of a macro is padded with null
  characters, so an empty one is read as the character 0.
\<close>

definition scan_char :: "string \<Rightarrow> lex_env \<Rightarrow> lex_env res" where
  "scan_char s env =
     (let saw_esc = (peek s = 92)
      in if \<not> inquote env
         then (if s = [] then set_token False 0 [] env
               else if isspace (peek s) then Inr (end_of_string s env)
               else bind_res (sys_esc s) (\<lambda>(l, t). set_token saw_esc l t env))
         else if saw_esc \<and> peek (tl s) = 34 then set_token True 34 (tl (tl s)) env
         else bind_res (bump s) (\<lambda>t. set_token True (peek s) t env))"

definition scan_quote :: "string \<Rightarrow> lex_env \<Rightarrow> lex_env res" where
  "scan_quote s env =
     (if peek s = 34
      then (let env' = env\<lparr>inquote := \<not> inquote env\<rparr>
            in if tl s = [] then Inr (end_of_string [] env') else scan_char (tl s) env')
      else scan_char s env)"

definition scan :: "lex_env \<Rightarrow> lex_env res" where
  "scan env =
     (case input env of
        None \<Rightarrow> Inl Null_deref
      | Some s0 \<Rightarrow>
          (case pop_text s0 (mstack env) of
             (s, stk) \<Rightarrow>
               if s = [] then Inr (end_of_string [] (env\<lparr>mstack := stk\<rparr>))
               else bind_res (if inquote env then Inr (s, stk) else expand (macros env) s stk)
                      (\<lambda>(s', stk'). scan_quote s' (env\<lparr>mstack := stk'\<rparr>))))"

definition advance :: "lex_env \<Rightarrow> lex_env res" where
  "advance env =
     (if cur_tok env = EOS
      then (if inquote env then Inl (Exit 1)
            else (case next_line (lines env) (lineno env) of
                    (None, ls, k) \<Rightarrow>
                      Inr (env\<lparr>input := None, lines := ls, lineno := k, cur_tok := END_OF_INPUT\<rparr>)
                  | (Some s, ls, k) \<Rightarrow> scan (env\<lparr>input := Some s, lines := ls, lineno := k\<rparr>)))
      else scan env)"

section \<open>Accept strings\<close>

definition save :: "string \<Rightarrow> lex_env \<Rightarrow> (nat \<times> lex_env) res" where
  "save str env =
     (if peek str = 124 then Inr (savep env + 1, env)
      else if STR_MAX < 4 * savep env + 4 then Inl Overflow
      else (let p = savep env + 1
            in if str \<noteq> [] \<and> STR_MAX \<le> 4 * p + length str then Inl (Exit 1)
               else if str = [] \<and> STR_MAX \<le> 4 * p then Inl Overflow
               else Inr (p, env\<lparr>savep := p + (length str + 1 + 3) div 4,
                                saved := (p, lineno env, str) # saved env\<rparr>)))"

section \<open>Texts that are safe to scan\<close>

text \<open>
  Seven-bit text in which the escape \<open>\^c\<close> is used for the characters from the at sign on
  only: for the others \<open>sys_esc\<close> gives a negative value, and negative labels are the codes of
  the special edges.
\<close>

fun text_ok :: "string \<Rightarrow> bool" where
  "text_ok [] \<longleftrightarrow> True"
| "text_ok (c # s) \<longleftrightarrow>
     0 \<le> sch c \<and>
     (sch c = 92 \<and> peek s = 94 \<and> tl s \<noteq> [] \<longrightarrow> 64 \<le> toupper (peek (tl s))) \<and> text_ok s"

lemma text_ok_suffix: "text_ok s \<Longrightarrow> suffix t s \<Longrightarrow> text_ok t"
  by (induction s) (auto simp: suffix_Cons)

lemma text_ok_peek: "text_ok s \<Longrightarrow> 0 \<le> peek s \<and> peek s < 128"
  using sch_range by (cases s) auto

lemma suffix_skip_space: "suffix (skip_space s) s"
  by (induction s) (auto simp: suffix_Cons)

lemma suffix_tl_dropWhile: "suffix (tl (dropWhile P s)) s"
  by (meson suffix_dropWhile suffix_order.trans suffix_tl)

lemma esc_digits_range:
  assumes dig: "\<And>c. is_digit c \<Longrightarrow> 0 \<le> to_bin c \<and> to_bin c < 2 ^ sh"
  shows "esc_digits is_digit to_bin sh k r s = (l, t) \<Longrightarrow> 0 \<le> r \<Longrightarrow> r < 2 ^ m \<Longrightarrow>
    0 \<le> l \<and> l < 2 ^ (m + sh * k) \<and> suffix t s"
proof (induction k arbitrary: r s m)
  case 0
  then show ?case by simp
next
  case (Suc k)
  show ?case
  proof (cases "is_digit (peek s)")
    case True
    let ?r = "push_bit sh r OR to_bin (peek s)"
    have d: "0 \<le> to_bin (peek s)" "to_bin (peek s) < 2 ^ sh" using dig [OF True] by simp_all
    have r: "?r = r * 2 ^ sh + to_bin (peek s)" using d by (rule or_digit)
    have "r * 2 ^ sh + to_bin (peek s) < (r + 1) * 2 ^ sh" using d(2) by (simp add: algebra_simps)
    also have "\<dots> \<le> 2 ^ m * 2 ^ sh" using Suc.prems(3) by (intro mult_right_mono) simp_all
    finally have "?r < 2 ^ (m + sh)" by (simp add: r power_add)
    moreover have "0 \<le> ?r" using Suc.prems(2) d(1) by (simp add: r)
    moreover have "esc_digits is_digit to_bin sh k ?r (tl s) = (l, t)" using Suc.prems(1) True by simp
    ultimately have "0 \<le> l \<and> l < 2 ^ (m + sh + sh * k) \<and> suffix t (tl s)" using Suc.IH by blast
    then show ?thesis by (auto simp: algebra_simps intro: suffix_order.trans suffix_tl)
  next
    case False
    with Suc.prems have "0 \<le> l \<and> l < 2 ^ (m + sh * k) \<and> suffix t s" using Suc.IH by simp
    moreover have "(2::int) ^ (m + sh * k) \<le> 2 ^ (m + sh * Suc k)" by (rule power_increasing) simp_all
    ultimately show ?thesis by linarith
  qed
qed

lemma hex2bin_range: "IS_HEXDIGIT c \<Longrightarrow> 0 \<le> hex2bin c \<and> hex2bin c < 2 ^ 4"
  by (auto simp: hex2bin_def IS_HEXDIGIT_def isdigit_def)

lemma oct2bin_range: "IS_OCTDIGIT c \<Longrightarrow> 0 \<le> oct2bin c \<and> oct2bin c < 2 ^ 3"
  by (auto simp: oct2bin_def)

lemma esc_step_Inr: "esc_step r s = Inr (l, t) \<longleftrightarrow> s \<noteq> [] \<and> l = r \<and> t = tl s"
  by (cases s) (auto simp: esc_step_def)

lemma toupper_range: "0 \<le> c \<Longrightarrow> c < 128 \<Longrightarrow> 0 \<le> toupper c \<and> toupper c < 128"
  by (simp add: toupper_def)

text \<open>What \<open>sys_esc\<close> returns on such a text: a value of at most twelve bits, and progress.\<close>

lemma sys_esc_ok:
  assumes "sys_esc s = Inr (l, t)" and ok: "text_ok s"
  shows "0 \<le> l \<and> l < 4096 \<and> suffix t s \<and> length t < length s"
proof (cases "peek s \<noteq> 92")
  case True
  with assms text_ok_peek [OF ok] show ?thesis
    by (cases s) (auto simp: sys_esc_def esc_step_Inr suffix_Cons)
next
  case False
  then obtain c s1 where s: "s = c # s1" "sch c = 92" by (cases s) auto
  have ok1: "text_ok s1" using ok s by simp
  have pk: "0 \<le> peek s1 \<and> peek s1 < 128" using ok1 by (rule text_ok_peek)
  let ?u = "toupper (peek s1)"
  have step: "0 \<le> l \<and> l < 4096 \<and> suffix t s \<and> length t < length s"
    if "esc_step r s1 = Inr (l, t)" "0 \<le> r" "r < 4096" for r
    using that s by (auto simp: esc_step_Inr suffix_Cons intro: suffix_tl)
      
  have su: "suffix (tl s1) s" using s by (auto simp: suffix_Cons intro: suffix_tl)
  consider (caret) "?u = 94" | (hex) "?u = 88" | (oct) "IS_OCTDIGIT (peek s1)" "?u \<noteq> 94" "?u \<noteq> 88"
    | (plain) r where "esc_step r s1 = Inr (l, t)" "0 \<le> r" "r < 4096"
    using assms(1) s pk by (auto simp: sys_esc_def Let_def split: if_splits)
  then show ?thesis
  proof cases
    case caret
    then have c94: "peek s1 = 94" by (auto simp: toupper_def split: if_splits)
    have e: "esc_step (toupper (peek (tl s1)) - 64) (tl s1) = Inr (l, t)"
      using assms(1) s caret by (simp add: sys_esc_def Let_def)
    then have ne: "tl s1 \<noteq> []" and l: "l = toupper (peek (tl s1)) - 64" and t: "t = tl (tl s1)"
      by (auto simp: esc_step_Inr)
    have "text_ok (tl s1)" using text_ok_suffix [OF ok1 suffix_tl] .
    then have "0 \<le> peek (tl s1) \<and> peek (tl s1) < 128" by (rule text_ok_peek)
    then have "toupper (peek (tl s1)) < 128" using toupper_range by blast
    moreover have "64 \<le> toupper (peek (tl s1))" using ok s c94 ne by simp
    moreover have "suffix t s" using su t by (meson suffix_order.trans suffix_tl)
    ultimately show ?thesis using l t s ne by (cases s1; cases "tl s1") auto
  next
    case hex
    then have "esc_digits IS_HEXDIGIT hex2bin 4 3 0 (tl s1) = (l, t)"
      using assms(1) s by (simp add: sys_esc_def Let_def)
    from esc_digits_range [OF hex2bin_range this, of 0] 
    have "0 \<le> l \<and> l < 4096 \<and> suffix t (tl s1)" by simp
    moreover have "s1 \<noteq> []" using hex by (auto simp: toupper_def)
    ultimately show ?thesis using s su suffix_length_le [of t "tl s1"]
      by (auto intro: suffix_order.trans)
  next
    case oct
    then have "esc_digits IS_OCTDIGIT oct2bin 3 3 0 s1 = (l, t)"
      using assms(1) s by (auto simp: sys_esc_def Let_def IS_OCTDIGIT_def toupper_def)
    from esc_digits_range [OF oct2bin_range this, of 0]
    have "0 \<le> l \<and> l < 512 \<and> suffix t s1" by simp
    then show ?thesis using s suffix_length_le [of t s1] by (auto simp: suffix_Cons)
  next
    case (plain r)
    then show ?thesis by (rule step)
  qed
qed

section \<open>What a call of \<open>advance\<close> keeps, and why the calls come to an end\<close>

definition same_nfa :: "lex_env \<Rightarrow> lex_env \<Rightarrow> bool" where
  "same_nfa env' env \<longleftrightarrow>
     macros env' = macros env \<and> unix_stype env' = unix_stype env \<and> nstates env' = nstates env \<and>
     next_alloc env' = next_alloc env \<and> dstack env' = dstack env \<and> mem env' = mem env \<and>
     savep env' = savep env \<and> saved env' = saved env"

definition mac_ok :: "(string \<Rightarrow> MACRO option) \<Rightarrow> bool" where
  "mac_ok mac \<longleftrightarrow>
     (\<forall>nm m t. mac nm = Some m \<longrightarrow> macro_text m = Some t \<longrightarrow> text_ok t \<and> length t \<le> MAC_TEXT_MAX)"

definition lex_ok :: "lex_env \<Rightarrow> bool" where
  "lex_ok env \<longleftrightarrow>
     mac_ok (macros env) \<and> (\<forall>s. input env = Some s \<longrightarrow> text_ok s) \<and>
     (\<forall>l\<in>set (lines env). text_ok (snd l)) \<and> (\<forall>s\<in>set (mstack env). text_ok s) \<and>
     length (mstack env) \<le> SSIZE \<and>
     0 \<le> lexeme env \<and> lexeme env < 4096 \<and> (cur_tok env = END_OF_INPUT \<longrightarrow> input env = None)"

text \<open>
  The number of calls that are left: a character costs as much as the macro that it may
  begin, and that depends on how many expansions still fit on the stack.
\<close>

primrec char_cost :: "nat \<Rightarrow> nat" where
  "char_cost 0 = 1"
| "char_cost (Suc k) = 1 + MAC_TEXT_MAX * char_cost k"

definition text_cost :: "nat \<Rightarrow> string \<Rightarrow> nat" where
  "text_cost d s = length s * char_cost (SSIZE - d)"

fun stack_cost :: "string list \<Rightarrow> nat" where
  "stack_cost [] = 0"
| "stack_cost (t # stk) = text_cost (length stk) t + stack_cost stk"

definition lines_cost :: "(int \<times> string) list \<Rightarrow> nat" where
  "lines_cost ls = (\<Sum>l\<leftarrow>ls. text_cost 0 (snd l) + 3)"

definition input_cost :: "lex_env \<Rightarrow> nat" where
  "input_cost env = (case input env of None \<Rightarrow> 0 | Some s \<Rightarrow> text_cost (length (mstack env)) s)"

definition weight :: "lex_env \<Rightarrow> nat" where
  "weight env =
     (if cur_tok env = END_OF_INPUT then 0
      else 1 + lines_cost (lines env) + stack_cost (mstack env) +
             (if cur_tok env = EOS then 0 else 1 + input_cost env))"

lemma char_cost_pos: "0 < char_cost k"
  by (cases k) simp_all

lemma char_cost_mono: "j \<le> k \<Longrightarrow> char_cost j \<le> char_cost k"
proof (induction k)
  case (Suc k)
  have "char_cost k \<le> char_cost (Suc k)" by (simp add: MAC_TEXT_MAX_def)
  with Suc show ?case by (cases "j = Suc k") (simp_all del: char_cost.simps)
qed simp

lemma text_cost_less: "length s < length t \<Longrightarrow> text_cost d s < text_cost d t"
  using char_cost_pos by (simp add: text_cost_def)

lemma text_cost_le: "length s \<le> length t \<Longrightarrow> text_cost d s \<le> text_cost d t"
  by (simp add: text_cost_def)

lemma text_cost_depth: "text_cost d s \<le> text_cost 0 s"
  by (simp add: text_cost_def char_cost_mono)

lemma pop_text_ok:
  "pop_text s0 stk0 = (s, stk) \<Longrightarrow>
     text_cost (length stk) s + stack_cost stk \<le> text_cost (length stk0) s0 + stack_cost stk0 \<and>
     length stk \<le> length stk0 \<and> set stk \<subseteq> set stk0 \<and> (s = s0 \<or> s \<in> set stk0)"
proof (induction s0 stk0 rule: pop_text.induct)
  case (2 t stk0)
  then show ?case by auto
qed (auto simp: text_cost_def)

lemma get_macro_ok:
  assumes "get_macro mac s = Inr (rest, text)" and "mac_ok mac" and "peek s = 123"
  shows "length rest + 2 \<le> length s \<and> suffix rest s \<and> text_ok text \<and> length text \<le> MAC_TEXT_MAX"
proof -
  have s: "length s = Suc (length (tl s))" using assms(3) by (cases s) auto
  from assms(1) have mem: "CHR ''}'' \<in> set (tl s)"
    and rest: "rest = tl (dropWhile (\<lambda>c. c \<noteq> CHR ''}'') (tl s))"
    by (auto simp: get_macro_def Let_def split: if_splits option.splits)
  define d where "d = dropWhile (\<lambda>c. c \<noteq> CHR ''}'') (tl s)"
  have "0 < length d" using mem by (auto simp: d_def)
  moreover have "length d \<le> length (tl s)" unfolding d_def by (rule length_dropWhile_le)
  moreover have "length rest = length d - 1" by (simp add: rest d_def)
  ultimately have "length rest + 2 \<le> length s" using s by linarith
  moreover have "suffix rest s"
    unfolding rest by (meson suffix_order.trans suffix_tl suffix_tl_dropWhile)
  ultimately show ?thesis
    using assms(1,2) by (auto simp: get_macro_def mac_ok_def Let_def split: if_splits option.splits)
qed

lemma expand_ok:
  assumes "mac_ok mac" and "expand mac s stk = Inr (s', stk')" and "text_ok s"
    and "\<forall>t\<in>set stk. text_ok t" and "length stk \<le> SSIZE"
  shows "text_ok s' \<and> (\<forall>t\<in>set stk'. text_ok t) \<and> length stk' \<le> SSIZE \<and>
    (s' = s \<and> stk' = stk \<or>
     text_cost (length stk') s' + stack_cost stk' < text_cost (length stk) s + stack_cost stk)"
  using assms
proof (induction mac s stk rule: expand.induct)
  case (1 mac s stk)
  show ?case
  proof (cases "peek s = 123")
    case False
    with "1.prems" show ?thesis by (simp add: expand.simps [of mac s stk])
  next
    case True
    then have len: "\<not> SSIZE \<le> length stk"
      using "1.prems"(2) by (simp add: expand.simps [of mac s stk] split: if_splits)
    with True "1.prems"(2) obtain rest body where g: "get_macro mac s = Inr (rest, body)"
      and e: "expand mac body (rest # stk) = Inr (s', stk')"
      by (auto simp: expand.simps [of mac s stk] split: sum.splits)
    note go = get_macro_ok [OF g "1.prems"(1) True]
    have oks: "\<forall>t\<in>set (rest # stk). text_ok t"
      using go "1.prems"(3,4) text_ok_suffix by auto
    have IH: "text_ok s' \<and> (\<forall>t\<in>set stk'. text_ok t) \<and> length stk' \<le> SSIZE \<and>
      (s' = body \<and> stk' = rest # stk \<or>
       text_cost (length stk') s' + stack_cost stk' < text_cost (length (rest # stk)) body + stack_cost (rest # stk))"
      by (rule "1.IH" [OF True len g refl "1.prems"(1) e _ oks]) (use go len in auto)
    define k where "k = SSIZE - length stk - 1"
    have k: "SSIZE - length stk = Suc k" "SSIZE - Suc (length stk) = k" using len by (auto simp: k_def)
    have "length body * char_cost k \<le> MAC_TEXT_MAX * char_cost k"
      using go by (intro mult_right_mono) auto
    then have "length body * char_cost k < char_cost (Suc k)" unfolding char_cost.simps by linarith
    moreover have "(length rest + 2) * char_cost (Suc k) \<le> length s * char_cost (Suc k)"
      using go by (intro mult_right_mono) auto
    ultimately have "length body * char_cost k + length rest * char_cost (Suc k) < length s * char_cost (Suc k)"
      by (simp only: add_mult_distrib)
    then have "text_cost (length (rest # stk)) body + stack_cost (rest # stk) < text_cost (length stk) s + stack_cost stk"
      using k by (simp add: text_cost_def del: char_cost.simps)
    with IH show ?thesis by auto
  qed
qed

lemma tok_of_not_end: "tok_of c = Inr t \<Longrightarrow> t \<noteq> END_OF_INPUT \<and> t \<noteq> EOS"
  using nth_mem [of "nat c" tok_map] by (auto simp: tok_of_def tok_map_def split: if_splits)

definition same_below :: "lex_env \<Rightarrow> lex_env \<Rightarrow> bool" where
  "same_below env' env \<longleftrightarrow>
     same_nfa env' env \<and> lines env' = lines env \<and> lineno env' = lineno env \<and> mstack env' = mstack env"

text \<open>The token that is read off the text \<open>s\<close>.\<close>

definition scanned :: "string \<Rightarrow> lex_env \<Rightarrow> lex_env \<Rightarrow> bool" where
  "scanned s env env' \<longleftrightarrow>
     same_below env' env \<and> 0 \<le> lexeme env' \<and> lexeme env' < 4096 \<and> cur_tok env' \<noteq> END_OF_INPUT \<and>
     (\<exists>t. input env' = Some t \<and> suffix t s \<and> (cur_tok env' = EOS \<or> s = [] \<or> length t < length s))"

lemma set_token_ok:
  assumes "set_token lit l t env = Inr env'" and "0 \<le> l" and "l < 4096" and "suffix t s"
    and "s = [] \<or> length t < length s"
  shows "scanned s env env'"
  using assms tok_of_not_end
  by (auto simp: set_token_def scanned_def same_below_def same_nfa_def bind_res_Inr_iff split: if_splits)

lemma end_of_string_ok: "suffix t s \<Longrightarrow> scanned s env (end_of_string t env)"
  by (simp add: end_of_string_def scanned_def same_below_def same_nfa_def)

lemma scan_char_ok:
  assumes "scan_char s env = Inr env'" and "text_ok s"
  shows "scanned s env env'"
proof (cases "inquote env")
  case False
  consider "s = []" "set_token False 0 [] env = Inr env'"
    | "env' = end_of_string s env"
    | l t where "sys_esc s = Inr (l, t)" "set_token (peek s = 92) l t env = Inr env'"
    using assms(1) False
    by (auto simp: scan_char_def Let_def bind_res_Inr_iff split: if_splits)
  then show ?thesis
  proof cases
    case (3 l t)
    with sys_esc_ok [OF _ assms(2)] show ?thesis by (intro set_token_ok) auto
  qed (auto intro: set_token_ok end_of_string_ok)
next
  case True
  show ?thesis
  proof (cases "peek s = 92 \<and> peek (tl s) = 34")
    case esc: True
    have "suffix (tl (tl s)) s" by (meson suffix_order.trans suffix_tl)
    moreover have "length (tl (tl s)) < length s" using esc by (cases s) auto
    ultimately show ?thesis
      using assms(1) True esc by (intro set_token_ok [of True 34 "tl (tl s)"]) (auto simp: scan_char_def Let_def)
  next
    case plain: False
    then have "set_token True (peek s) (tl s) env = Inr env'" "s \<noteq> []"
      using assms(1) True by (cases s; auto simp: scan_char_def Let_def)+
    then show ?thesis
      using text_ok_peek [OF assms(2)] by (intro set_token_ok) (auto intro: suffix_tl)
  qed
qed

lemma same_below_quote: "same_below env' (env\<lparr>inquote := b\<rparr>) = same_below env' env"
  by (simp add: same_below_def same_nfa_def)

lemma scan_quote_ok:
  assumes "scan_quote s env = Inr env'" and "text_ok s"
  shows "scanned s env env'"
proof (cases "peek s = 34")
  case False
  with assms show ?thesis by (simp add: scan_quote_def scan_char_ok)
next
  case True
  let ?e = "env\<lparr>inquote := \<not> inquote env\<rparr>"
  have "scanned (tl s) ?e env'"
    using assms True text_ok_suffix [OF assms(2) suffix_tl]
    by (auto simp: scan_quote_def Let_def scan_char_ok intro: end_of_string_ok split: if_splits)
  moreover have "suffix t (tl s) \<Longrightarrow> suffix t s \<and> length t < length s" for t
    using True suffix_length_le [of t "tl s"] by (cases s) (auto simp: suffix_Cons)
  ultimately show ?thesis by (auto simp: scanned_def same_below_quote)
qed

text \<open>The cost of a scan, whatever token was current before it.\<close>

definition text_weight :: "lex_env \<Rightarrow> nat" where
  "text_weight env = lines_cost (lines env) + stack_cost (mstack env) + input_cost env"

lemma weight_le_text:
  "cur_tok env \<noteq> END_OF_INPUT \<Longrightarrow> weight env \<le> 2 + text_weight env"
  by (simp add: weight_def text_weight_def)

lemma weight_eos:
  "cur_tok env = EOS \<Longrightarrow> weight env = 1 + lines_cost (lines env) + stack_cost (mstack env)"
  by (simp add: weight_def)

lemma scan_ok:
  assumes sc: "scan env = Inr env'" and mac: "mac_ok (macros env)" and
    inp: "\<And>s. input env = Some s \<Longrightarrow> text_ok s" and stk: "\<forall>s\<in>set (mstack env). text_ok s"
    "length (mstack env) \<le> SSIZE" and li: "\<forall>l\<in>set (lines env). text_ok (snd l)"
  shows "lex_ok env' \<and> same_nfa env' env \<and> weight env' < 2 + text_weight env"
proof -
  obtain s0 where s0: "input env = Some s0" using sc by (auto simp: scan_def split: option.splits)
  obtain s stk1 where pop: "pop_text s0 (mstack env) = (s, stk1)" by (cases "pop_text s0 (mstack env)")
  note po = pop_text_ok [OF pop]
  have ok: "text_ok s" "\<forall>t\<in>set stk1. text_ok t" using po inp [OF s0] stk(1) by auto
  have len1: "length stk1 \<le> SSIZE" using po stk(2) by simp
  have start: "text_cost (length stk1) s + stack_cost stk1 \<le> stack_cost (mstack env) + input_cost env"
    using po s0 by (simp add: input_cost_def)
  show ?thesis
  proof (cases "s = []")
    case True
    then have "env' = end_of_string [] (env\<lparr>mstack := stk1\<rparr>)" using sc s0 pop by (simp add: scan_def)
    then show ?thesis
      using ok len1 start mac li True
      by (simp add: lex_ok_def end_of_string_def same_nfa_def weight_def text_weight_def)
  next
    case False
    have "\<exists>s' stk'. (if inquote env then Inr (s, stk1) else expand (macros env) s stk1) = Inr (s', stk') \<and>
        scan_quote s' (env\<lparr>mstack := stk'\<rparr>) = Inr env'"
      using sc s0 pop False by (auto simp: scan_def bind_res_Inr_iff)
    then obtain s' stk' where ex: "(if inquote env then Inr (s, stk1) else expand (macros env) s stk1) = Inr (s', stk')"
      and sq: "scan_quote s' (env\<lparr>mstack := stk'\<rparr>) = Inr env'" by blast
    have eo: "text_ok s' \<and> (\<forall>t\<in>set stk'. text_ok t) \<and> length stk' \<le> SSIZE \<and>
      (s' = s \<and> stk' = stk1 \<or>
       text_cost (length stk') s' + stack_cost stk' < text_cost (length stk1) s + stack_cost stk1)"
      using ex expand_ok [OF mac _ ok len1] ok len1 by (cases "inquote env") auto
    from scan_quote_ok [OF sq] eo obtain t where
      sb: "same_below env' (env\<lparr>mstack := stk'\<rparr>)" and lx: "0 \<le> lexeme env'" "lexeme env' < 4096"
      and nend: "cur_tok env' \<noteq> END_OF_INPUT" and t: "input env' = Some t" "suffix t s'"
      and prog: "cur_tok env' = EOS \<or> s' = [] \<or> length t < length s'"
      unfolding scanned_def by blast
    have ms: "mstack env' = stk'" "lines env' = lines env" "same_nfa env' env"
      using sb by (simp_all add: same_below_def same_nfa_def)
    have okt: "text_ok t" using eo t(2) text_ok_suffix by blast
    have lok: "lex_ok env'"
      using eo ms lx nend t okt mac li by (auto simp: lex_ok_def same_nfa_def)
    have "weight env' < 2 + text_weight env"
    proof (cases "cur_tok env' = EOS")
      case True
      then show ?thesis using eo start ms by (auto simp: weight_eos text_weight_def)
    next
      case neos: False
      have "text_cost (length stk') t \<le> text_cost (length stk') s'"
        using t(2) by (intro text_cost_le suffix_length_le)
      moreover have "text_cost (length stk') t < text_cost (length stk') s' \<or> s' = []"
        using prog neos text_cost_less by blast
      ultimately have "text_cost (length stk') t + stack_cost stk' < text_cost (length stk1) s + stack_cost stk1"
        using eo False by auto
      then show ?thesis
        using start nend neos ms t by (simp add: weight_def text_weight_def input_cost_def)
    qed
    then show ?thesis using lok ms by blast
  qed
qed

lemma next_line_ok:
  "next_line ls k = (r, ls', k') \<Longrightarrow> \<forall>l\<in>set ls. text_ok (snd l) \<Longrightarrow>
     (\<forall>l\<in>set ls'. text_ok (snd l)) \<and>
     (case r of None \<Rightarrow> ls' = [] | Some s \<Rightarrow> text_ok s \<and> s \<noteq> [] \<and> text_cost 0 s + lines_cost ls' + 3 \<le> lines_cost ls)"
proof (induction ls k rule: next_line.induct)
  case (2 k s ls ln)
  show ?case
  proof (cases "skip_space s = []")
    case True
    then show ?thesis using 2 by (auto simp: Let_def lines_cost_def split: option.splits)
  next
    case False
    have "text_cost 0 (skip_space s) \<le> text_cost 0 s"
      by (intro text_cost_le suffix_length_le suffix_skip_space)
    with False 2 show ?thesis
      using text_ok_suffix [OF _ suffix_skip_space] by (auto simp: Let_def lines_cost_def)
  qed
qed auto

lemma advance_ok:
  assumes adv: "advance env = Inr env'" and ok: "lex_ok env"
  shows "lex_ok env' \<and> same_nfa env' env \<and> weight env' < weight env"
proof (cases "cur_tok env = EOS")
  case False
  have "cur_tok env \<noteq> END_OF_INPUT"
    using adv False ok by (auto simp: advance_def scan_def lex_ok_def)
  then have "weight env = 2 + text_weight env" using False by (simp add: weight_def text_weight_def)
  then show ?thesis using scan_ok [of env env'] adv False ok by (simp add: advance_def lex_ok_def)
next
  case True
  obtain r ls k where nx: "next_line (lines env) (lineno env) = (r, ls, k)"
    by (cases "next_line (lines env) (lineno env)") auto
  have no: "(\<forall>l\<in>set ls. text_ok (snd l)) \<and>
     (case r of None \<Rightarrow> ls = [] | Some s \<Rightarrow> text_ok s \<and> s \<noteq> [] \<and> text_cost 0 s + lines_cost ls + 3 \<le> lines_cost (lines env))"
    using ok by (intro next_line_ok [OF nx]) (simp add: lex_ok_def)
  show ?thesis
  proof (cases r)
    case None
    then have "env' = env\<lparr>input := None, lines := ls, lineno := k, cur_tok := END_OF_INPUT\<rparr>"
      using adv True nx by (auto simp: advance_def split: if_splits)
    then show ?thesis using ok no True by (simp add: lex_ok_def same_nfa_def weight_def)
  next
    case (Some s)
    let ?e = "env\<lparr>input := Some s, lines := ls, lineno := k\<rparr>"
    have "scan ?e = Inr env'" using adv True nx Some by (auto simp: advance_def split: if_splits)
    then have "lex_ok env' \<and> same_nfa env' ?e \<and> weight env' < 2 + text_weight ?e"
      by (rule scan_ok) (use ok no Some in \<open>auto simp: lex_ok_def\<close>)
    moreover have "2 + text_weight ?e \<le> weight env"
      using no Some True text_cost_depth [of "length (mstack env)" s]
      by (simp add: weight_eos text_weight_def input_cost_def)
    ultimately show ?thesis by (simp add: same_nfa_def)
  qed
qed

end
