(* ===== verification/NfaParser.thy ===== *)
theory NfaParser
  imports Lexer
begin

text \<open>
  The recursive descent parser that builds the automaton of Thompson for the rules of a
  lexer specification (\<open>src/compiler/lex/nfa.c\<close>).  \<open>_nfa_states\<close> is the field \<open>mem\<close>; a
  pointer into it is an index.  The pairs \<open>startp, endp\<close> that the C functions write through
  are arguments and results: a function that does not write leaves what it was given.

  The functions call each other in a cycle, so they take a bound \<open>n\<close> on the depth of the
  calls; \<open>None\<close> is the run that needs more.
\<close>

section \<open>Allocation of states\<close>

definition upd_state :: "nat \<Rightarrow> (NFA \<Rightarrow> NFA) \<Rightarrow> lex_env \<Rightarrow> lex_env" where
  "upd_state i f env = env\<lparr>mem := (mem env)[i := f (mem env ! i)]\<rparr>"

definition deref :: "nat option \<Rightarrow> (nat \<Rightarrow> 'a res) \<Rightarrow> 'a res" where
  "deref p f = (case p of None \<Rightarrow> Inl Null_deref | Some i \<Rightarrow> f i)"

definition zero_state :: NFA where
  "zero_state = \<lparr>edge = 0, bitset = None, nfa_next = None, nfa_next2 = None, accept = None, anchor = 0\<rparr>"

definition new :: "lex_env \<Rightarrow> (nat \<times> lex_env) res" where
  "new env =
     (let env1 = env\<lparr>nstates := nstates env + 1\<rparr>
      in if int NFA_MAX \<le> nstates env1 then Inl (Exit 1)
         else (case dstack env1 of
                 [] \<Rightarrow> if NFA_MAX \<le> next_alloc env1 then Inl Overflow
                       else Inr (next_alloc env1,
                              upd_state (next_alloc env1) (\<lambda>p. p\<lparr>edge := EPSILON\<rparr>)
                                (env1\<lparr>next_alloc := next_alloc env1 + 1\<rparr>))
               | p # stk \<Rightarrow> Inr (p, upd_state p (\<lambda>q. q\<lparr>edge := EPSILON\<rparr>) (env1\<lparr>dstack := stk\<rparr>))))"

text \<open>The push of \<open>discard\<close> comes before the test of the stack.\<close>

definition discard :: "nat \<Rightarrow> lex_env \<Rightarrow> lex_env res" where
  "discard p env =
     (if SSIZE \<le> length (dstack env) then Inl Overflow
      else Inr ((upd_state p (\<lambda>_. zero_state\<lparr>edge := EMPTY\<rparr>) env)
             \<lparr>nstates := nstates env - 1, dstack := p # dstack env\<rparr>))"

section \<open>The pieces of the grammar\<close>

type_synonym ptrs = "nat option \<times> nat option"

definition first_in_cat :: "TOKEN \<Rightarrow> bool res" where
  "first_in_cat tok =
     (case tok of
        CLOSE_PAREN \<Rightarrow> Inr False | AT_EOL \<Rightarrow> Inr False | ALT \<Rightarrow> Inr False | EOS \<Rightarrow> Inr False
      | CLOSRUE \<Rightarrow> Inl (Exit 1) | PLUS_CLOSE \<Rightarrow> Inl (Exit 1) | OPTIONAL \<Rightarrow> Inl (Exit 1)
      | CCL_END \<Rightarrow> Inl (Exit 1) | AT_BOL \<Rightarrow> Inl (Exit 1)
      | _ \<Rightarrow> Inr True)"

text \<open>The alternative of two machines, in \<open>expr\<close>.\<close>

definition join_or :: "ptrs \<Rightarrow> ptrs \<Rightarrow> lex_env \<Rightarrow> (ptrs \<times> lex_env) res" where
  "join_or = (\<lambda>(s, e) (s2, e2) env.
     bind_res (new env) (\<lambda>(p, env1).
       bind_res (new (upd_state p (\<lambda>q. q\<lparr>nfa_next2 := s2, nfa_next := s\<rparr>) env1)) (\<lambda>(p', env2).
         deref e (\<lambda>i. deref e2 (\<lambda>j.
           Inr ((Some p, Some p'),
             upd_state j (\<lambda>q. q\<lparr>nfa_next := Some p'\<rparr>)
               (upd_state i (\<lambda>q. q\<lparr>nfa_next := Some p'\<rparr>) env2)))))))"

text \<open>The concatenation of two machines, in \<open>cat_expr\<close>: the first state of the second
  replaces the last of the first.\<close>

definition join_cat :: "ptrs \<Rightarrow> ptrs \<Rightarrow> lex_env \<Rightarrow> (ptrs \<times> lex_env) res" where
  "join_cat = (\<lambda>(s, e) (s2, e2) env.
     deref e (\<lambda>i. deref s2 (\<lambda>j.
       bind_res (discard j (upd_state i (\<lambda>_. mem env ! j) env)) (\<lambda>env1. Inr ((s, e2), env1)))))"

text \<open>The closure operators, in \<open>factor\<close>.\<close>

definition closure_op :: "ptrs \<Rightarrow> lex_env \<Rightarrow> (ptrs \<times> lex_env) res" where
  "closure_op = (\<lambda>(s, e) env.
     bind_res (new env) (\<lambda>(p, env1). bind_res (new env1) (\<lambda>(q, env2).
       deref e (\<lambda>i.
         let tok = cur_tok env;
             env3 = upd_state p (\<lambda>r. r\<lparr>nfa_next := s\<rparr>) env2;
             env4 = upd_state i (\<lambda>r. r\<lparr>nfa_next := Some q\<rparr>) env3;
             env5 = (if tok = CLOSRUE \<or> tok = OPTIONAL
                     then upd_state p (\<lambda>r. r\<lparr>nfa_next2 := Some q\<rparr>) env4 else env4);
             env6 = (if tok = CLOSRUE \<or> tok = PLUS_CLOSE
                     then upd_state i (\<lambda>r. r\<lparr>nfa_next2 := s\<rparr>) env5 else env5)
         in bind_res (advance env6) (\<lambda>env7. Inr ((Some p, Some q), env7))))))"

text \<open>Adding characters to a class; a negative character is converted to \<open>unsigned\<close>.\<close>

definition add_char :: "int \<Rightarrow> SET_S \<Rightarrow> SET_S" where
  "add_char c b = SET_ADD b (uns c)"

definition add_eol :: "bool \<Rightarrow> SET_S \<Rightarrow> SET_S" where
  "add_eol unix b = (if \<not> unix then add_char 13 (add_char 10 b) else add_char 10 b)"

definition add_range :: "int \<Rightarrow> int \<Rightarrow> SET_S \<Rightarrow> SET_S" where
  "add_range a z b = foldl (\<lambda>s c. add_char c s) b [a..z]"

text \<open>
  The loop of \<open>dodash\<close>.  The warnings of the C function do not return, so that a dash at the
  beginning or at the end of a class ends the program.
\<close>

fun dodash_loop :: "nat \<Rightarrow> SET_S \<Rightarrow> int \<Rightarrow> lex_env \<Rightarrow> (SET_S \<times> lex_env) run" where
  "dodash_loop 0 b fst_c env = None"
| "dodash_loop (Suc n) b fst_c env =
     (if cur_tok env = EOS \<or> cur_tok env = CCL_END then Some (Inr (b, env))
      else if cur_tok env \<noteq> DASH
      then bind_run (Some (advance env))
             (\<lambda>env1. dodash_loop n (add_char (lexeme env) b) (lexeme env) env1)
      else bind_run (Some (advance env)) (\<lambda>env1.
             if cur_tok env1 = CCL_END then Some (Inl (Exit 1))
             else bind_run (Some (advance env1)) (\<lambda>env2.
                    dodash_loop n (add_range fst_c (lexeme env1) b) (max fst_c (lexeme env1 + 1)) env2)))"

definition dodash :: "nat \<Rightarrow> SET_S \<Rightarrow> lex_env \<Rightarrow> (SET_S \<times> lex_env) run" where
  "dodash n b env = (if cur_tok env = DASH then Some (Inl (Exit 1)) else dodash_loop n b 0 env)"

text \<open>A term that is a single state: a character, a dot or a class.\<close>

definition class_set :: "nat \<Rightarrow> SET_S \<Rightarrow> lex_env \<Rightarrow> (SET_S \<times> lex_env) run" where
  "class_set n b env =
     (if cur_tok env = ANY then Some (Inr (SET_COMPLEMENT (add_eol (unix_stype env) b), env))
      else bind_run (Some (advance env)) (\<lambda>env1.
        bind_run (if cur_tok env1 = AT_BOL
                  then bind_run (Some (advance env1))
                         (\<lambda>env2. Some (Inr (SET_COMPLEMENT (add_eol (unix_stype env2) b), env2)))
                  else Some (Inr (b, env1))) (\<lambda>(b1, env2).
          if cur_tok env2 \<noteq> CCL_END then dodash n b1 env2
          else Some (Inr (add_range 0 32 b1, env2)))))"

definition single_term :: "nat \<Rightarrow> lex_env \<Rightarrow> (ptrs \<times> lex_env) run" where
  "single_term n env =
     bind_run (Some (new env)) (\<lambda>(p, env1). bind_run (Some (new env1)) (\<lambda>(q, env2).
       let env3 = upd_state p (\<lambda>r. r\<lparr>nfa_next := Some q\<rparr>) env2
       in if \<not> (cur_tok env = ANY \<or> cur_tok env = CCL_START)
          then bind_run (Some (advance (upd_state p (\<lambda>r. r\<lparr>edge := lexeme env\<rparr>) env3)))
                 (\<lambda>env4. Some (Inr ((Some p, Some q), env4)))
          else bind_run (class_set n set_new (upd_state p (\<lambda>r. r\<lparr>edge := CCL\<rparr>) env3)) (\<lambda>(b, env4).
                 bind_run (Some (advance (upd_state p (\<lambda>r. r\<lparr>bitset := Some b\<rparr>) env4)))
                   (\<lambda>env5. Some (Inr ((Some p, Some q), env5))))))"

section \<open>The grammar\<close>

text \<open>
  The bodies of the functions of the descent, and of the loops of two of them; \<open>call\<close> is
  the call of another one.  The loops keep the second pair of pointers from one round to the
  next, as the local variables of the C functions do.  In \<open>cat_expr\<close> these are not initialised;
  they are null here.  They are read unset only behind an empty pair of parentheses.
\<close>

datatype nonterm = Expr | ExprLoop | CatExpr | CatLoop | Factor | Term

type_synonym parser = "nonterm \<Rightarrow> ptrs \<Rightarrow> ptrs \<Rightarrow> lex_env \<Rightarrow> (ptrs \<times> lex_env) run"

definition expr_body :: "parser \<Rightarrow> ptrs \<Rightarrow> lex_env \<Rightarrow> (ptrs \<times> lex_env) run" where
  "expr_body call se env =
     bind_run (call CatExpr se (None, None) env) (\<lambda>(se1, env1). call ExprLoop se1 (None, None) env1)"

definition expr_loop_body :: "parser \<Rightarrow> ptrs \<Rightarrow> ptrs \<Rightarrow> lex_env \<Rightarrow> (ptrs \<times> lex_env) run" where
  "expr_loop_body call se se2 env =
     (if cur_tok env \<noteq> ALT then Some (Inr (se, env))
      else bind_run (Some (advance env)) (\<lambda>env1.
        bind_run (call CatExpr se2 (None, None) env1) (\<lambda>(se2', env2).
          bind_run (Some (join_or se se2' env2)) (\<lambda>(se', env3). call ExprLoop se' se2' env3))))"

definition cat_expr_body :: "parser \<Rightarrow> ptrs \<Rightarrow> lex_env \<Rightarrow> (ptrs \<times> lex_env) run" where
  "cat_expr_body call se env =
     bind_run (Some (first_in_cat (cur_tok env))) (\<lambda>more.
       if more
       then bind_run (call Factor se (None, None) env) (\<lambda>(se1, env1). call CatLoop se1 (None, None) env1)
       else call CatLoop se (None, None) env)"

definition cat_loop_body :: "parser \<Rightarrow> ptrs \<Rightarrow> ptrs \<Rightarrow> lex_env \<Rightarrow> (ptrs \<times> lex_env) run" where
  "cat_loop_body call se se2 env =
     bind_run (Some (first_in_cat (cur_tok env))) (\<lambda>more.
       if \<not> more then Some (Inr (se, env))
       else bind_run (call Factor se2 (None, None) env) (\<lambda>(se2', env1).
         bind_run (Some (join_cat se se2' env1)) (\<lambda>(se', env2). call CatLoop se' se2' env2)))"

definition factor_body :: "parser \<Rightarrow> ptrs \<Rightarrow> lex_env \<Rightarrow> (ptrs \<times> lex_env) run" where
  "factor_body call se env =
     bind_run (call Term se (None, None) env) (\<lambda>(se1, env1).
       if cur_tok env1 = CLOSRUE \<or> cur_tok env1 = PLUS_CLOSE \<or> cur_tok env1 = OPTIONAL
       then Some (closure_op se1 env1) else Some (Inr (se1, env1)))"

definition term_body :: "parser \<Rightarrow> nat \<Rightarrow> ptrs \<Rightarrow> lex_env \<Rightarrow> (ptrs \<times> lex_env) run" where
  "term_body call n se env =
     (if cur_tok env = OPEN_PAREN
      then bind_run (Some (advance env)) (\<lambda>env1.
        bind_run (call Expr se (None, None) env1) (\<lambda>(se1, env2).
          if cur_tok env2 = CLOSE_PAREN
          then bind_run (Some (advance env2)) (\<lambda>env3. Some (Inr (se1, env3)))
          else Some (Inl (Exit 1))))
      else single_term n env)"

primrec parse :: "nat \<Rightarrow> parser" where
  "parse 0 nt se se2 env = None"
| "parse (Suc n) nt se se2 env =
     (case nt of
        Expr \<Rightarrow> expr_body (parse n) se env
      | ExprLoop \<Rightarrow> expr_loop_body (parse n) se se2 env
      | CatExpr \<Rightarrow> cat_expr_body (parse n) se env
      | CatLoop \<Rightarrow> cat_loop_body (parse n) se se2 env
      | Factor \<Rightarrow> factor_body (parse n) se env
      | Term \<Rightarrow> term_body (parse n) n se env)"

definition expr :: "nat \<Rightarrow> ptrs \<Rightarrow> lex_env \<Rightarrow> (ptrs \<times> lex_env) run" where
  "expr n se env = parse n Expr se (None, None) env"

section \<open>Rules\<close>

text \<open>The end of a rule: the anchor at the end of the line, and the action.\<close>

definition rule_eol :: "nat option \<Rightarrow> int \<Rightarrow> lex_env \<Rightarrow> ((nat option \<times> int) \<times> lex_env) res" where
  "rule_eol e anch env =
     (if cur_tok env \<noteq> AT_EOL then Inr ((e, anch), env)
      else bind_res (advance env) (\<lambda>env1. bind_res (new env1) (\<lambda>(p, env2).
        deref e (\<lambda>i.
          Inr ((Some p, anch OR END_ANCHOR),
            upd_state i (\<lambda>r. r\<lparr>nfa_next := Some p, edge := CCL,
                bitset := Some (add_eol (unix_stype env2) set_new)\<rparr>) env2)))))"

definition rule_action :: "nat option \<Rightarrow> int \<Rightarrow> lex_env \<Rightarrow> lex_env res" where
  "rule_action e anch env =
     (case input env of
        None \<Rightarrow> Inl Null_deref
      | Some s \<Rightarrow>
          (let str = skip_space s
           in deref e (\<lambda>i. bind_res (save str (env\<lparr>input := Some str\<rparr>)) (\<lambda>(pos, env1).
                advance (upd_state i (\<lambda>r. r\<lparr>accept := Some pos, anchor := anch\<rparr>) env1)))))"

definition rule_body :: "nat \<Rightarrow> lex_env \<Rightarrow> ((nat option \<times> nat option \<times> int) \<times> lex_env) run" where
  "rule_body n env =
     (if cur_tok env = AT_BOL
      then bind_run (Some (new env)) (\<lambda>(p, env1).
        bind_run (Some (advance (upd_state p (\<lambda>r. r\<lparr>edge := 10\<rparr>) env1))) (\<lambda>env2.
          bind_run (expr n (nfa_next (mem env2 ! p), None) env2) (\<lambda>((s, e), env3).
            Some (Inr ((Some p, e, NONE OR START), upd_state p (\<lambda>r. r\<lparr>nfa_next := s\<rparr>) env3)))))
      else bind_run (expr n (None, None) env) (\<lambda>((s, e), env1). Some (Inr ((s, e, NONE), env1))))"

definition rule :: "nat \<Rightarrow> lex_env \<Rightarrow> (nat option \<times> lex_env) run" where
  "rule n env =
     bind_run (rule_body n env) (\<lambda>((start, e, anch), env1).
       bind_run (Some (rule_eol e anch env1)) (\<lambda>((e', anch'), env2).
         bind_run (Some (rule_action e' anch' env2)) (\<lambda>env3. Some (Inr (start, env3)))))"

text \<open>The chain of states that lead to the rules.\<close>

fun machine_loop :: "nat \<Rightarrow> nat \<Rightarrow> lex_env \<Rightarrow> lex_env run" where
  "machine_loop 0 p env = None"
| "machine_loop (Suc n) p env =
     bind_run (rule n env) (\<lambda>(s, env1).
       let env2 = upd_state p (\<lambda>r. r\<lparr>nfa_next := s\<rparr>) env1
       in if cur_tok env2 = END_OF_INPUT then Some (Inr env2)
          else bind_run (Some (new env2)) (\<lambda>(q, env3).
                 machine_loop n q (upd_state p (\<lambda>r. r\<lparr>nfa_next2 := Some q\<rparr>) env3)))"

definition machine :: "nat \<Rightarrow> lex_env \<Rightarrow> (nat \<times> lex_env) run" where
  "machine n env =
     bind_run (Some (new env)) (\<lambda>(p, env1).
       bind_run (machine_loop n p env1) (\<lambda>env2. Some (Inr (p, env2))))"

definition init_env :: "(string \<Rightarrow> MACRO option) \<Rightarrow> bool \<Rightarrow> (int \<times> string) list \<Rightarrow> lex_env" where
  "init_env macs unix ls =
     \<lparr>macros = macs, unix_stype = unix, input = Some [], lines = ls, lineno = 1, cur_tok = EOS,
      lexeme = 0, inquote = False, mstack = [], nstates = 0, next_alloc = 0, dstack = [],
      mem = replicate NFA_MAX zero_state, savep = 0, saved = []\<rparr>"

text \<open>
  The result of \<open>thompson\<close>: the states in use, the start state, and the state of the parser,
  which holds the accept strings.
\<close>

definition thompson :: "nat \<Rightarrow> lex_env \<Rightarrow> (NFA list \<times> nat \<times> lex_env) run" where
  "thompson n env =
     bind_run (Some (advance (env\<lparr>dstack := [], cur_tok := EOS\<rparr>))) (\<lambda>env1.
       bind_run (machine n (env1\<lparr>nstates := 0, next_alloc := 0\<rparr>)) (\<lambda>(start, env2).
         Some (Inr (take (next_alloc env2) (mem env2), start, env2))))"

end
