(* ===== verification/NfaTotal.thy ===== *)
theory NfaTotal
  imports NfaParser
begin

text \<open>
  The parser of the regular expressions comes to an end on input of seven-bit text: each round of its
  loops reads a token, and the tokens that are left are bounded by the \<open>weight\<close> of the input.
\<close>

section \<open>What the steps leave of the lexer's state\<close>

definition same_lex :: "lex_env \<Rightarrow> lex_env \<Rightarrow> bool" where
  "same_lex env' env \<longleftrightarrow>
     macros env' = macros env \<and> unix_stype env' = unix_stype env \<and> input env' = input env \<and>
     lines env' = lines env \<and> lineno env' = lineno env \<and> cur_tok env' = cur_tok env \<and>
     lexeme env' = lexeme env \<and> inquote env' = inquote env \<and> mstack env' = mstack env"

lemma same_lex_weight: "same_lex env' env \<Longrightarrow> weight env' = weight env"
  unfolding same_lex_def weight_def input_cost_def by (simp split: option.split)

lemma same_lex_ok: "same_lex env' env \<Longrightarrow> lex_ok env' = lex_ok env"
  by (simp add: same_lex_def lex_ok_def)

lemma same_lex_refl [simp]: "same_lex env env"
  by (simp add: same_lex_def)

lemma same_lex_trans: "same_lex c b \<Longrightarrow> same_lex b a \<Longrightarrow> same_lex c a"
  by (simp add: same_lex_def)

lemma same_lex_upd [simp]: "same_lex (upd_state i f env') env = same_lex env' env"
  by (simp add: same_lex_def upd_state_def)

lemma same_lex_upd2 [simp]: "same_lex env' (upd_state i f env) = same_lex env' env"
  by (simp add: same_lex_def upd_state_def)

lemma same_lex_fields [simp]:
  "same_lex (env'\<lparr>nstates := a\<rparr>) env = same_lex env' env"
  "same_lex (env'\<lparr>dstack := b\<rparr>) env = same_lex env' env"
  "same_lex (env'\<lparr>next_alloc := c\<rparr>) env = same_lex env' env"
  by (simp_all add: same_lex_def)

lemma new_lex: "new env = Inr (p, env') \<Longrightarrow> same_lex env' env"
  by (auto simp: new_def Let_def split: if_splits list.splits)

lemma discard_lex: "discard p env = Inr env' \<Longrightarrow> same_lex env' env"
  by (auto simp: discard_def split: if_splits)

lemma deref_Inr_iff: "deref p f = Inr y \<longleftrightarrow> (\<exists>i. p = Some i \<and> f i = Inr y)"
  by (simp add: deref_def split: option.split)

lemma join_or_lex: "join_or se se2 env = Inr (se', env') \<Longrightarrow> same_lex env' env"
  by (auto simp: join_or_def bind_res_Inr_iff deref_Inr_iff split_beta dest!: new_lex
      intro: same_lex_trans)

lemma join_cat_lex: "join_cat se se2 env = Inr (se', env') \<Longrightarrow> same_lex env' env"
  by (auto simp: join_cat_def bind_res_Inr_iff deref_Inr_iff split_beta dest!: discard_lex
      intro: same_lex_trans)

text \<open>A step that keeps the lexer well and does not add to what is left, or takes from it.\<close>

definition reads :: "lex_env \<Rightarrow> lex_env \<Rightarrow> bool" where
  "reads env' env \<longleftrightarrow> lex_ok env' \<and> weight env' \<le> weight env"

definition reads_some :: "lex_env \<Rightarrow> lex_env \<Rightarrow> bool" where
  "reads_some env' env \<longleftrightarrow> lex_ok env' \<and> weight env' < weight env"

lemma advance_reads: "advance env = Inr env' \<Longrightarrow> lex_ok env \<Longrightarrow> reads_some env' env"
  using advance_ok by (simp add: reads_some_def)

lemma same_lex_reads: "same_lex env' env \<Longrightarrow> lex_ok env \<Longrightarrow> reads env' env"
  by (simp add: reads_def same_lex_weight same_lex_ok)

lemma reads_trans:
  "reads c b \<Longrightarrow> reads b a \<Longrightarrow> reads c a"
  "reads_some c b \<Longrightarrow> reads b a \<Longrightarrow> reads_some c a"
  "reads c b \<Longrightarrow> reads_some b a \<Longrightarrow> reads_some c a"
  "reads_some c b \<Longrightarrow> reads_some b a \<Longrightarrow> reads_some c a"
  by (simp_all add: reads_def reads_some_def)

lemma reads_some_reads: "reads_some b a \<Longrightarrow> reads b a"
  by (simp add: reads_def reads_some_def)

lemma reads_ok: "reads b a \<Longrightarrow> lex_ok b" "reads_some b a \<Longrightarrow> lex_ok b"
  by (simp_all add: reads_def reads_some_def)

lemma reads_refl: "lex_ok env \<Longrightarrow> reads env env"
  by (simp add: reads_def)

lemma closure_op_advance:
  assumes "closure_op se env = Inr (se', env')"
  obtains env1 where "advance env1 = Inr env'" and "same_lex env1 env"
  using assms
  by (fastforce simp: closure_op_def split_beta bind_res_Inr_iff deref_Inr_iff Let_def split: if_splits
      dest: new_lex intro: same_lex_trans)

lemma closure_op_reads:
  assumes "closure_op se env = Inr (se', env')" and "lex_ok env"
  shows "reads_some env' env"
proof -
  obtain env1 where "advance env1 = Inr env'" and "same_lex env1 env"
    using assms(1) by (rule closure_op_advance)
  then show ?thesis
    using assms(2) advance_reads [of env1 env'] by (simp add: same_lex_ok reads_some_def same_lex_weight)
qed

section \<open>Classes and single terms\<close>

lemma dodash_loop_reads:
  "dodash_loop n b c env = Some (Inr (b', env')) \<Longrightarrow> lex_ok env \<Longrightarrow> reads env' env"
proof (induction n arbitrary: b c env)
  case (Suc n)
  have adv: "advance env = Inr e1 \<Longrightarrow> reads_some e1 env" for e1 by (rule advance_reads [OF _ Suc.prems(2)])
  show ?case
  proof (cases "cur_tok env = EOS \<or> cur_tok env = CCL_END")
    case True
    with Suc.prems show ?thesis by (auto simp: reads_refl)
  next
    case False
    with Suc.prems(1) obtain e1 b1 c1 where e1: "advance env = Inr e1" and
      "dodash_loop n b1 c1 e1 = Some (Inr (b', env')) \<or>
       (\<exists>e2. advance e1 = Inr e2 \<and> dodash_loop n b1 c1 e2 = Some (Inr (b', env')))"
      by (auto simp: bind_run_Inr_iff split: if_splits)
    then show ?thesis
      using Suc.IH advance_reads adv [OF e1] by (meson reads_ok reads_some_reads reads_trans)
  qed
qed simp

lemma dodash_reads: "dodash n b env = Some (Inr (b', env')) \<Longrightarrow> lex_ok env \<Longrightarrow> reads env' env"
  by (auto simp: dodash_def dodash_loop_reads split: if_splits)

lemma class_set_cases:
  assumes "class_set n b env = Some (Inr (b', env'))"
  obtains (any) "env' = env" and "b' = SET_COMPLEMENT (add_eol (unix_stype env) b)"
  | (cls) e1 b1 e2 where "advance env = Inr e1" and
      "e2 = e1 \<and> b1 = b \<or> advance e1 = Inr e2 \<and> b1 = SET_COMPLEMENT (add_eol (unix_stype e2) b)" and
      "env' = e2 \<and> b' = add_range 0 32 b1 \<or> dodash n b1 e2 = Some (Inr (b', env'))"
  using assms by (fastforce simp: class_set_def bind_run_Inr_iff split: if_splits)

lemma single_term_cases:
  assumes "single_term n env = Some (Inr (se', env'))"
  obtains (char) p e1 q e2 where "new env = Inr (p, e1)" and "new e1 = Inr (q, e2)" and
      "advance (upd_state p (\<lambda>r. r\<lparr>edge := lexeme env\<rparr>) (upd_state p (\<lambda>r. r\<lparr>nfa_next := Some q\<rparr>) e2)) = Inr env'" and
      "se' = (Some p, Some q)"
  | (cls) p e1 q e2 b e4 where "new env = Inr (p, e1)" and "new e1 = Inr (q, e2)" and
      "class_set n set_new (upd_state p (\<lambda>r. r\<lparr>edge := CCL\<rparr>) (upd_state p (\<lambda>r. r\<lparr>nfa_next := Some q\<rparr>) e2))
         = Some (Inr (b, e4))" and
      "advance (upd_state p (\<lambda>r. r\<lparr>bitset := Some b\<rparr>) e4) = Inr env'" and "se' = (Some p, Some q)"
  using assms
  by (fastforce simp: single_term_def bind_run_Inr_iff Let_def split: if_splits)

lemma class_set_reads:
  assumes "class_set n b env = Some (Inr (b', env'))" and "lex_ok env"
  shows "reads env' env"
  using assms(1)
proof (cases rule: class_set_cases)
  case any
  with assms(2) show ?thesis by (simp add: reads_refl)
next
  case (cls e1 b1 e2)
  have r1: "reads e1 env" using advance_reads [OF cls(1) assms(2)] by (rule reads_some_reads)
  have r2: "reads e2 e1"
    using cls(2) advance_reads [of e1 e2] reads_ok(1) [OF r1] by (auto intro: reads_refl reads_some_reads)
  have "reads env' e2"
    using cls(3) dodash_reads [of n b1 e2 b' env'] reads_ok(1) [OF r2] by (auto intro: reads_refl)
  with r1 r2 show ?thesis by (meson reads_trans)
qed

lemma new_reads: "new env = Inr (p, e1) \<Longrightarrow> lex_ok env \<Longrightarrow> reads e1 env"
  by (rule same_lex_reads [OF new_lex])

lemma upd_reads: "lex_ok env \<Longrightarrow> reads (upd_state i f env) env"
  by (rule same_lex_reads) simp_all

lemma single_term_reads:
  assumes "single_term n env = Some (Inr (se', env'))" and ok: "lex_ok env"
  shows "reads_some env' env"
  using assms(1)
proof (cases rule: single_term_cases)
  case (char p e1 q e2)
  have "same_lex e2 env" using new_lex [OF char(1)] new_lex [OF char(2)] by (rule same_lex_trans [rotated])
  then have "reads (upd_state p (\<lambda>r. r\<lparr>edge := lexeme env\<rparr>) (upd_state p (\<lambda>r. r\<lparr>nfa_next := Some q\<rparr>) e2)) env"
    using ok by (intro same_lex_reads) simp_all
  with advance_reads [OF char(3)] show ?thesis by (meson reads_ok(1) reads_trans)
next
  case (cls p e1 q e2 b e4)
  let ?e3 = "upd_state p (\<lambda>r. r\<lparr>edge := CCL\<rparr>) (upd_state p (\<lambda>r. r\<lparr>nfa_next := Some q\<rparr>) e2)"
  have "same_lex e2 env" using new_lex [OF cls(1)] new_lex [OF cls(2)] by (rule same_lex_trans [rotated])
  then have r3: "reads ?e3 env" using ok by (intro same_lex_reads) simp_all
  have r4: "reads e4 ?e3" using cls(3) reads_ok(1) [OF r3] by (rule class_set_reads)
  have r5: "reads (upd_state p (\<lambda>r. r\<lparr>bitset := Some b\<rparr>) e4) e4"
    using reads_ok(1) [OF r4] by (rule upd_reads)
  show ?thesis
    using advance_reads [OF cls(4) reads_ok(1) [OF r5]] r5 r4 r3 by (meson reads_trans)
qed

section \<open>The descent\<close>

text \<open>A term and a factor read a token at least.\<close>

definition reads_nt :: "nonterm \<Rightarrow> lex_env \<Rightarrow> lex_env \<Rightarrow> bool" where
  "reads_nt nt env' env = (if nt = Factor \<or> nt = Term then reads_some env' env else reads env' env)"

lemma reads_nt_reads: "reads_nt nt b a \<Longrightarrow> reads b a"
  by (auto simp: reads_nt_def reads_some_reads split: if_splits)

lemma parse_reads:
  "parse n nt se se2 env = Some (Inr (se', env')) \<Longrightarrow> lex_ok env \<Longrightarrow> reads_nt nt env' env"
proof (induction n arbitrary: nt se se2 env se' env')
  case (Suc n)
  have IH: "parse n nt se se2 e = Some (Inr (se', e')) \<Longrightarrow> lex_ok e \<Longrightarrow> reads e' e" for nt se se2 e se' e'
    using Suc.IH reads_nt_reads by blast
  have adv: "advance e = Inr e' \<Longrightarrow> lex_ok e \<Longrightarrow> reads e' e" for e e'
    using advance_reads reads_some_reads by blast
  note fin = Suc.prems
  show ?case
  proof (cases nt)
    case Expr
    then show ?thesis using fin
      by (auto simp: expr_body_def bind_run_Inr_iff reads_nt_def dest!: IH dest: reads_ok intro: reads_trans(1))
  next
    case ExprLoop
    show ?thesis
    proof (cases "cur_tok env = ALT")
      case False
      with fin ExprLoop show ?thesis by (auto simp: expr_loop_body_def reads_nt_def reads_refl)
    next
      case True
      with fin ExprLoop obtain e1 se1 e2 se3 e3 where "advance env = Inr e1"
        and "parse n CatExpr se2 (None, None) e1 = Some (Inr (se1, e2))"
        and "join_or se se1 e2 = Inr (se3, e3)" and "parse n ExprLoop se3 se1 e3 = Some (Inr (se', env'))"
        by (fastforce simp: expr_loop_body_def bind_run_Inr_iff)
      then show ?thesis using fin(2) ExprLoop adv IH same_lex_reads [OF join_or_lex]
        unfolding reads_nt_def by (simp) (meson reads_ok(1) reads_trans(1))
    qed
  next
    case CatExpr
    then show ?thesis using fin
      by (auto simp: cat_expr_body_def bind_run_Inr_iff reads_nt_def split: if_splits
          dest!: IH dest: reads_ok intro: reads_trans(1))
  next
    case CatLoop
    show ?thesis
    proof (cases "first_in_cat (cur_tok env) = Inr True")
      case False
      with fin CatLoop show ?thesis by (auto simp: cat_loop_body_def reads_nt_def reads_refl bind_run_Inr_iff split: if_splits)
    next
      case True
      with fin CatLoop obtain se1 e1 se3 e3 where
        "parse n Factor se2 (None, None) env = Some (Inr (se1, e1))"
        and "join_cat se se1 e1 = Inr (se3, e3)" and "parse n CatLoop se3 se1 e3 = Some (Inr (se', env'))"
        by (fastforce simp: cat_loop_body_def bind_run_Inr_iff)
      then show ?thesis using fin(2) CatLoop IH same_lex_reads [OF join_cat_lex]
        unfolding reads_nt_def by (simp) (meson reads_ok(1) reads_trans(1))
    qed
  next
    case Factor
    then obtain se1 e1 where p: "parse n Term se (None, None) env = Some (Inr (se1, e1))"
      and c: "closure_op se1 e1 = Inr (se', env') \<or> env' = e1"
      using fin by (auto simp: factor_body_def bind_run_Inr_iff split: if_splits)
    have r1: "reads_some e1 env" using Suc.IH [OF p fin(2)] by (simp add: reads_nt_def)
    show ?thesis
      using c r1 closure_op_reads [of se1 e1 se' env'] reads_ok(2) [OF r1] Factor
      by (auto simp: reads_nt_def intro: reads_trans(4))
  next
    case Term
    show ?thesis
    proof (cases "cur_tok env = OPEN_PAREN")
      case False
      with fin Term show ?thesis by (simp add: term_body_def reads_nt_def single_term_reads)
    next
      case True
      with fin Term obtain e1 e2 where a: "advance env = Inr e1"
        and p: "parse n Expr se (None, None) e1 = Some (Inr (se', e2))" and a2: "advance e2 = Inr env'"
        by (auto simp: term_body_def bind_run_Inr_iff split: if_splits)
      have r1: "reads_some e1 env" using a fin(2) by (rule advance_reads)
      have r2: "reads e2 e1" using p reads_ok(2) [OF r1] by (rule IH)
      have "reads_some env' e2" using a2 reads_ok(1) [OF r2] by (rule advance_reads)
      then show ?thesis using r1 r2 Term unfolding reads_nt_def by simp (meson reads_trans)
    qed
  qed
qed simp

section \<open>Enough calls\<close>

lemma dodash_loop_returns:
  "weight env < n \<Longrightarrow> lex_ok env \<Longrightarrow> dodash_loop n b c env \<noteq> None"
proof (induction n arbitrary: b c env)
  case (Suc n)
  have less: "advance e = Inr e1 \<Longrightarrow> lex_ok e \<Longrightarrow> weight e1 < weight e \<and> lex_ok e1" for e e1
    using advance_reads by (auto simp: reads_some_def)
  have "dodash_loop n b1 c1 e1 \<noteq> None" if "advance env = Inr e1" for b1 c1 e1
    using less [OF that Suc.prems(2)] Suc.prems(1) by (intro Suc.IH) simp_all
  moreover have "dodash_loop n b1 c1 e2 \<noteq> None" if "advance env = Inr e1" "advance e1 = Inr e2" for b1 c1 e1 e2
    using less [OF that(1) Suc.prems(2)] less [OF that(2)] Suc.prems(1) by (intro Suc.IH) simp_all
  ultimately show ?case by (auto simp: bind_run_None_iff simp del: not_None_eq split: if_splits)
qed simp

lemma dodash_returns: "weight env < n \<Longrightarrow> lex_ok env \<Longrightarrow> dodash n b env \<noteq> None"
  by (simp add: dodash_def dodash_loop_returns del: not_None_eq)

lemma class_set_returns:
  assumes "weight env < n" and "lex_ok env"
  shows "class_set n b env \<noteq> None"
proof -
  have less: "advance e = Inr e1 \<Longrightarrow> lex_ok e \<Longrightarrow> weight e1 < weight e \<and> lex_ok e1" for e e1
    using advance_reads by (auto simp: reads_some_def)
  have "dodash n b1 e1 \<noteq> None" if "advance env = Inr e1" for b1 e1
    using less [OF that assms(2)] assms(1) by (intro dodash_returns) simp_all
  moreover have "dodash n b1 e2 \<noteq> None" if "advance env = Inr e1" "advance e1 = Inr e2" for b1 e1 e2
    using less [OF that(1) assms(2)] less [OF that(2)] assms(1) by (intro dodash_returns) simp_all
  ultimately show ?thesis by (auto simp: class_set_def bind_run_None_iff bind_run_Inr_iff simp del: not_None_eq split: if_splits)
qed

lemma single_term_returns:
  assumes "weight env < n" and "lex_ok env"
  shows "single_term n env \<noteq> None"
proof -
  have "class_set n b (upd_state p f (upd_state p g e2)) \<noteq> None"
    if "new env = Inr (p, e1)" "new e1 = Inr (q, e2)" for p e1 q e2 b f g
  proof -
    have "same_lex e2 env" using new_lex [OF that(1)] new_lex [OF that(2)] by (rule same_lex_trans [rotated])
    then have "reads (upd_state p f (upd_state p g e2)) env"
      using assms(2) by (intro same_lex_reads) simp_all
    then show ?thesis using assms(1) by (intro class_set_returns) (simp_all add: reads_def)
  qed
  then show ?thesis
    by (auto simp: single_term_def bind_run_None_iff Let_def simp del: not_None_eq split: if_splits)
qed

primrec rank :: "nonterm \<Rightarrow> nat" where
  "rank Term = 0" | "rank Factor = 1" | "rank CatLoop = 2" | "rank CatExpr = 3"
| "rank ExprLoop = 4" | "rank Expr = 5"

lemma parse_returns:
  "8 * weight env + rank nt + 1 < n \<Longrightarrow> lex_ok env \<Longrightarrow> parse n nt se se2 env \<noteq> None"
proof (induction n arbitrary: nt se se2 env)
  case (Suc n)
  have ok: "lex_ok env" by fact
  have call: "parse n nt' se' se2' e \<noteq> None" if "reads e env" "rank nt' < rank nt" for nt' se' se2' e
    using that Suc.prems(1) by (intro Suc.IH) (simp_all add: reads_def)
  have call_less: "parse n nt' se' se2' e \<noteq> None" if "reads_some e env" for nt' se' se2' e
  proof (rule Suc.IH)
    have "rank nt' \<le> 5" by (cases nt') simp_all
    with that Suc.prems(1) show "8 * weight e + rank nt' + 1 < n" by (simp add: reads_some_def)
    show "lex_ok e" using that by (simp add: reads_some_def)
  qed
  note pr = parse_reads [OF _ ok]
  show ?case
  proof (cases nt)
    case Expr
    have "parse n ExprLoop s1 s2 e1 \<noteq> None" if "parse n CatExpr se (None, None) env = Some (Inr (s1, e1))" for s1 s2 e1
      using pr [OF that] Expr by (intro call) (simp_all add: reads_nt_def)
    with call [OF reads_refl [OF ok]] Expr show ?thesis
      by (auto simp: expr_body_def bind_run_None_iff simp del: not_None_eq)
  next
    case ExprLoop
    have 1: "parse n CatExpr se2 (None, None) e1 \<noteq> None" if "advance env = Inr e1" for e1
      using advance_reads [OF that ok] by (rule call_less)
    have 2: "parse n ExprLoop se3 se1 e3 \<noteq> None"
      if a: "advance env = Inr e1" and p: "parse n CatExpr se2 (None, None) e1 = Some (Inr (se1, e2))"
        and j: "join_or se se1 e2 = Inr (se3, e3)" for e1 se1 e2 se3 e3
    proof (rule call_less)
      have r1: "reads_some e1 env" using a ok by (rule advance_reads)
      have r2: "reads e2 e1" using parse_reads [OF p reads_ok(2) [OF r1]] by (rule reads_nt_reads)
      have "reads e3 e2" using j reads_ok(1) [OF r2] by (intro same_lex_reads join_or_lex)
      with r1 r2 show "reads_some e3 env" by (meson reads_trans)
    qed
    show ?thesis
    proof (cases "cur_tok env = ALT")
      case True
      then show ?thesis using ExprLoop 1 2
        by (auto simp: expr_loop_body_def bind_run_None_iff simp del: not_None_eq)
    next
      case False
      then show ?thesis using ExprLoop by (simp add: expr_loop_body_def)
    qed
  next
    case CatExpr
    have "parse n CatLoop s1 s2 e1 \<noteq> None" if "parse n Factor se (None, None) env = Some (Inr (s1, e1))" for s1 s2 e1
      using pr [OF that] by (intro call_less) (simp add: reads_nt_def)
    with call [OF reads_refl [OF ok]] CatExpr show ?thesis
      by (auto simp: cat_expr_body_def bind_run_None_iff simp del: not_None_eq split: if_splits)
  next
    case CatLoop
    have "parse n CatLoop se3 se1 e3 \<noteq> None"
      if p: "parse n Factor se2 (None, None) env = Some (Inr (se1, e1))" and j: "join_cat se se1 e1 = Inr (se3, e3)"
      for se1 e1 se3 e3
    proof (rule call_less)
      have r1: "reads_some e1 env" using pr [OF p] by (simp add: reads_nt_def)
      have "reads e3 e1" using j reads_ok(2) [OF r1] by (intro same_lex_reads join_cat_lex)
      with r1 show "reads_some e3 env" by (meson reads_trans)
    qed
    with call [OF reads_refl [OF ok]] CatLoop show ?thesis
      by (auto simp: cat_loop_body_def bind_run_None_iff simp del: not_None_eq split: if_splits)
  next
    case Factor
    with call [OF reads_refl [OF ok]] show ?thesis
      by (auto simp: factor_body_def bind_run_None_iff simp del: not_None_eq split: if_splits)
  next
    case Term
    have "parse n Expr se (None, None) e1 \<noteq> None" if "advance env = Inr e1" for e1
      using advance_reads [OF that ok] by (rule call_less)
    moreover have "single_term n env \<noteq> None"
      using Suc.prems Term by (intro single_term_returns) simp_all
    ultimately show ?thesis using Term
      by (auto simp: term_body_def bind_run_None_iff simp del: not_None_eq split: if_splits)
  qed
qed simp

lemma expr_reads: "expr n se env = Some (Inr (se', env')) \<Longrightarrow> lex_ok env \<Longrightarrow> reads env' env"
  unfolding expr_def using parse_reads reads_nt_reads by blast

lemma expr_returns: "8 * weight env + 6 < n \<Longrightarrow> lex_ok env \<Longrightarrow> expr n se env \<noteq> None"
  unfolding expr_def by (rule parse_returns) simp_all

lemma rule_body_reads:
  assumes "rule_body n env = Some (Inr (r, env'))" and ok: "lex_ok env"
  shows "reads env' env"
proof (cases "cur_tok env = AT_BOL")
  case False
  with assms show ?thesis by (auto simp: rule_body_def bind_run_Inr_iff dest: expr_reads)
next
  case True
  then obtain p e1 e2 s e e3 where n1: "new env = Inr (p, e1)"
    and a: "advance (upd_state p (\<lambda>r. r\<lparr>edge := 10\<rparr>) e1) = Inr e2"
    and x: "expr n (nfa_next (mem e2 ! p), None) e2 = Some (Inr ((s, e), e3))"
    and env': "env' = upd_state p (\<lambda>r. r\<lparr>nfa_next := s\<rparr>) e3"
    using assms(1) by (auto simp: rule_body_def bind_run_Inr_iff)
  have r1: "reads (upd_state p (\<lambda>r. r\<lparr>edge := 10\<rparr>) e1) env"
    using new_lex [OF n1] ok by (intro same_lex_reads) simp_all
  have r2: "reads_some e2 env" using advance_reads [OF a reads_ok(1) [OF r1]] r1 by (rule reads_trans)
  have r3: "reads e3 e2" using x reads_ok(2) [OF r2] by (rule expr_reads)
  have "reads env' e3" unfolding env' using reads_ok(1) [OF r3] by (rule upd_reads)
  with r3 r2 show ?thesis by (meson reads_some_reads reads_trans)
qed

lemma rule_body_returns:
  assumes "8 * weight env + 6 < n" and ok: "lex_ok env"
  shows "rule_body n env \<noteq> None"
proof -
  have "expr n se e2 \<noteq> None"
    if "new env = Inr (p, e1)" "advance (upd_state p f e1) = Inr e2" for p f e1 e2 se
  proof -
    have "reads (upd_state p f e1) env"
      using new_lex [OF that(1)] ok by (intro same_lex_reads) simp_all
    with advance_reads [OF that(2)] have "reads_some e2 env" by (meson reads_ok(1) reads_trans(2))
    with assms(1) show ?thesis by (intro expr_returns) (simp_all add: reads_some_def)
  qed
  moreover have "expr n se env \<noteq> None" for se using assms by (rule expr_returns)
  ultimately show ?thesis by (auto simp: rule_body_def bind_run_None_iff simp del: not_None_eq split: if_splits)
qed

lemma rule_eol_reads:
  assumes "rule_eol e k env = Inr (r, env')" and ok: "lex_ok env"
  shows "reads env' env"
proof (cases "cur_tok env = AT_EOL")
  case False
  with assms show ?thesis by (simp add: rule_eol_def reads_refl)
next
  case True
  then obtain e1 p e2 where a: "advance env = Inr e1" and n: "new e1 = Inr (p, e2)" and s: "same_lex env' e2"
    using assms(1) by (auto simp: rule_eol_def bind_res_Inr_iff deref_Inr_iff)
  have r: "reads_some e1 env" using a ok by (rule advance_reads)
  have "reads env' e1"
    using same_lex_trans [OF s new_lex [OF n]] reads_ok(2) [OF r] by (rule same_lex_reads)
  with r show ?thesis by (meson reads_some_reads reads_trans)
qed

lemma save_lex: "save s env = Inr (p, env') \<Longrightarrow> same_lex env' env"
  by (auto simp: save_def Let_def same_lex_def split: if_splits)

lemma skip_input_reads:
  assumes "input env = Some s" and ok: "lex_ok env"
  shows "reads (env\<lparr>input := Some (skip_space s)\<rparr>) env"
proof -
  have "text_cost (length (mstack env)) (skip_space s) \<le> text_cost (length (mstack env)) s"
    by (intro text_cost_le suffix_length_le suffix_skip_space)
  then show ?thesis
    using assms text_ok_suffix [OF _ suffix_skip_space]
    by (auto simp: reads_def lex_ok_def weight_def input_cost_def)
qed

lemma rule_action_reads:
  assumes "rule_action e k env = Inr env'" and ok: "lex_ok env"
  shows "reads_some env' env"
proof -
  obtain s pos e1 i where i: "input env = Some s"
    and sv: "save (skip_space s) (env\<lparr>input := Some (skip_space s)\<rparr>) = Inr (pos, e1)"
    and a: "advance (upd_state i (\<lambda>r. r\<lparr>accept := Some pos, anchor := k\<rparr>) e1) = Inr env'"
    using assms(1) by (auto simp: rule_action_def Let_def bind_res_Inr_iff deref_Inr_iff split: option.splits)
  let ?e0 = "env\<lparr>input := Some (skip_space s)\<rparr>"
  have r0: "reads ?e0 env" using i ok by (rule skip_input_reads)
  have r1: "reads (upd_state i (\<lambda>r. r\<lparr>accept := Some pos, anchor := k\<rparr>) e1) ?e0"
    using save_lex [OF sv] reads_ok(1) [OF r0] by (intro same_lex_reads) simp_all
  show ?thesis using advance_reads [OF a reads_ok(1) [OF r1]] r1 r0 by (meson reads_trans)
qed

lemma rule_cases:
  assumes "rule n env = Some (Inr (s, env'))"
  obtains e k e1 e' k' e2 where "rule_body n env = Some (Inr ((s, e, k), e1))"
    and "rule_eol e k e1 = Inr ((e', k'), e2)" and "rule_action e' k' e2 = Inr env'"
  using assms by (auto simp: rule_def bind_run_Inr_iff)

lemma rule_reads:
  assumes "rule n env = Some (Inr (s, env'))" and ok: "lex_ok env"
  shows "reads_some env' env"
  using assms(1)
proof (cases rule: rule_cases)
  case (1 e k e1 e' k' e2)
  have r1: "reads e1 env" using 1(1) ok by (rule rule_body_reads)
  have r2: "reads e2 e1" using 1(2) reads_ok(1) [OF r1] by (rule rule_eol_reads)
  show ?thesis using rule_action_reads [OF 1(3) reads_ok(1) [OF r2]] r2 r1 by (meson reads_trans)
qed

lemma rule_returns:
  assumes "8 * weight env + 6 < n" and "lex_ok env"
  shows "rule n env \<noteq> None"
  using rule_body_returns [OF assms] by (auto simp: rule_def bind_run_None_iff simp del: not_None_eq)

lemma machine_loop_returns:
  "8 * weight env + 7 < n \<Longrightarrow> lex_ok env \<Longrightarrow> machine_loop n p env \<noteq> None"
proof (induction n arbitrary: p env)
  case (Suc n)
  have "rule n env \<noteq> None" using Suc.prems by (intro rule_returns) simp_all
  moreover have "machine_loop n q (upd_state p g e3) \<noteq> None"
    if "rule n env = Some (Inr (s, e1))" and "new (upd_state p f e1) = Inr (q, e3)" for s e1 q e3 f g
  proof -
    have r1: "reads_some e1 env" using that(1) Suc.prems(2) by (rule rule_reads)
    have "reads (upd_state p g e3) e1"
      using new_lex [OF that(2)] reads_ok(2) [OF r1] by (intro same_lex_reads) simp_all
    with r1 have "reads_some (upd_state p g e3) env" by (meson reads_trans)
    with Suc.prems(1) show ?thesis by (intro Suc.IH) (simp_all add: reads_some_def)
  qed
  ultimately show ?case
    by (auto simp: bind_run_None_iff Let_def simp del: not_None_eq split: if_splits)
qed simp

lemma thompson_returns:
  assumes "8 * weight (env\<lparr>cur_tok := EOS\<rparr>) + 7 < n" and ok: "lex_ok (env\<lparr>cur_tok := EOS\<rparr>)"
  shows "thompson n env \<noteq> None"
proof -
  have "machine_loop n p e3 \<noteq> None"
    if "advance (env\<lparr>dstack := [], cur_tok := EOS\<rparr>) = Inr e1"
      and "new (e1\<lparr>nstates := 0, next_alloc := 0\<rparr>) = Inr (p, e3)" for e1 p e3
  proof -
    have "same_lex (env\<lparr>dstack := [], cur_tok := EOS\<rparr>) (env\<lparr>cur_tok := EOS\<rparr>)"
      by (simp add: same_lex_def)
    then have r0: "reads (env\<lparr>dstack := [], cur_tok := EOS\<rparr>) (env\<lparr>cur_tok := EOS\<rparr>)"
      using ok by (rule same_lex_reads)
    have r1: "reads_some e1 (env\<lparr>cur_tok := EOS\<rparr>)"
      using advance_reads [OF that(1) reads_ok(1) [OF r0]] r0 by (rule reads_trans)
    have "same_lex e3 e1" using new_lex [OF that(2)] by (simp add: same_lex_def)
    then have "reads e3 e1" using reads_ok(2) [OF r1] by (rule same_lex_reads)
    with r1 assms(1) show ?thesis by (intro machine_loop_returns) (simp_all add: reads_def reads_some_def)
  qed
  then show ?thesis
    by (auto simp: thompson_def machine_def bind_run_None_iff bind_run_Inr_iff simp del: not_None_eq)
qed

end
