(* ===== verification/NfaInv.thy ===== *)
theory NfaInv
  imports NfaTotal
begin

text \<open>
  The array of states that the parser builds is a well-formed automaton, whatever the rules
  are, if the text keeps to characters and escapes with a value that is not negative.
\<close>

section \<open>The invariant\<close>

text \<open>
  \<open>X\<close> holds the states that may be incomplete: the one with the newline edge of an anchored
  rule, while the expression of the rule is parsed.  Nothing is assumed of the discarded
  states, for an empty pair of parentheses makes the parser discard a state twice.
\<close>

definition state_ok :: "nat \<Rightarrow> bool \<Rightarrow> NFA \<Rightarrow> bool" where
  "state_ok n open_state p \<longleftrightarrow>
     (if open_state then edge p = 10 \<and> wf_state n (p\<lparr>edge := EPSILON\<rparr>) else wf_state n p)"

definition env_inv :: "nat set \<Rightarrow> lex_env \<Rightarrow> bool" where
  "env_inv X env \<longleftrightarrow>
     lex_ok env \<and> length (mem env) = NFA_MAX \<and> next_alloc env \<le> NFA_MAX \<and>
     X \<subseteq> {..<next_alloc env} \<and> set (dstack env) \<subseteq> {..<next_alloc env} \<and>
     int (next_alloc env) = nstates env + int (length (dstack env)) \<and>
     (\<forall>i<next_alloc env. state_ok (next_alloc env) (i \<in> X) (mem env ! i)) \<and>
     (\<forall>i<NFA_MAX. next_alloc env \<le> i \<longrightarrow> mem env ! i = zero_state)"

definition good :: "nat set \<Rightarrow> lex_env \<Rightarrow> nat \<Rightarrow> bool" where
  "good X env i \<longleftrightarrow> i < next_alloc env \<and> i \<notin> X"

definition good_pair :: "nat set \<Rightarrow> lex_env \<Rightarrow> ptrs \<Rightarrow> bool" where
  "good_pair X env se \<longleftrightarrow> (\<exists>s e. se = (Some s, Some e) \<and> good X env s \<and> good X env e)"

definition weak_pair :: "nat set \<Rightarrow> lex_env \<Rightarrow> ptrs \<Rightarrow> bool" where
  "weak_pair X env se \<longleftrightarrow> snd se = None \<or> good_pair X env se"

definition strong_pair :: "nat set \<Rightarrow> lex_env \<Rightarrow> ptrs \<Rightarrow> bool" where
  "strong_pair X env se \<longleftrightarrow> se = (None, None) \<or> good_pair X env se"

text \<open>
  A step keeps the invariant and the allocated states; a state that is allocated again is
  complete.
\<close>

definition builds :: "nat set \<Rightarrow> lex_env \<Rightarrow> nat set \<Rightarrow> lex_env \<Rightarrow> bool" where
  "builds X' env' X env \<longleftrightarrow> X' \<subseteq> X \<and> env_inv X' env' \<and> next_alloc env \<le> next_alloc env'"

lemma builds_trans: "builds X3 c X2 b \<Longrightarrow> builds X2 b X1 a \<Longrightarrow> builds X3 c X1 a"
  by (auto simp: builds_def)

lemma builds_refl: "env_inv X env \<Longrightarrow> builds X env X env"
  by (simp add: builds_def)

lemma builds_inv: "builds X' env' X env \<Longrightarrow> env_inv X' env'"
  by (simp add: builds_def)

lemma good_mono:
  "builds X' env' X env \<Longrightarrow> good X env i \<Longrightarrow> good X' env' i"
  "builds X' env' X env \<Longrightarrow> good_pair X env se \<Longrightarrow> good_pair X' env' se"
  "builds X' env' X env \<Longrightarrow> weak_pair X env se \<Longrightarrow> weak_pair X' env' se"
  "builds X' env' X env \<Longrightarrow> strong_pair X env se \<Longrightarrow> strong_pair X' env' se"
  by (auto simp: builds_def good_def good_pair_def weak_pair_def strong_pair_def)

lemma strong_weak: "strong_pair X env se \<Longrightarrow> weak_pair X env se"
  by (auto simp: strong_pair_def weak_pair_def)

lemma inv_lex_ok: "env_inv X env \<Longrightarrow> lex_ok env"
  by (simp add: env_inv_def)

text \<open>Updates of a state.\<close>

lemma wf_state_mono: "wf_state m p \<Longrightarrow> m \<le> n \<Longrightarrow> wf_state n p"
  by (auto simp: wf_state_def)

lemma wf_zero: "wf_state n (zero_state\<lparr>edge := EPSILON\<rparr>)" "wf_state n (zero_state\<lparr>edge := EMPTY\<rparr>)"
  by (simp_all add: wf_state_def zero_state_def edge_codes)

lemma wf_epsilon: "wf_state n p \<Longrightarrow> wf_state n (p\<lparr>edge := EPSILON\<rparr>)"
  by (auto simp: wf_state_def edge_codes)

lemma wf_next: "wf_state n p \<Longrightarrow> j < n \<Longrightarrow> wf_state n (p\<lparr>nfa_next := Some j\<rparr>)"
  by (auto simp: wf_state_def)

lemma wf_next2: "wf_state n p \<Longrightarrow> j < n \<Longrightarrow> wf_state n (p\<lparr>nfa_next2 := Some j\<rparr>)"
  by (auto simp: wf_state_def)

lemma upd_builds:
  assumes "env_inv X env" and "good X env i"
    and "wf_state (next_alloc env) (mem env ! i) \<Longrightarrow> wf_state (next_alloc env) (f (mem env ! i))"
  shows "builds X (upd_state i f env) X env"
  using assms by (auto simp: builds_def env_inv_def upd_state_def lex_ok_def good_def nth_list_update_if state_ok_def)

lemma mem_upd_state: "i < length (mem env) \<Longrightarrow> mem (upd_state i f env) ! i = f (mem env ! i)"
  by (simp add: upd_state_def)

lemma upd_state_simps [simp]:
  "next_alloc (upd_state i f env) = next_alloc env" "dstack (upd_state i f env) = dstack env"
  "cur_tok (upd_state i f env) = cur_tok env" "lexeme (upd_state i f env) = lexeme env"
  "length (mem (upd_state i f env)) = length (mem env)"
  by (simp_all add: upd_state_def)

lemma same_nfa_inv:
  assumes "same_nfa env' env" and "lex_ok env'" and "env_inv X env"
  shows "builds X env' X env"
proof -
  have same: "mem env' = mem env" "next_alloc env' = next_alloc env" "dstack env' = dstack env"
    "nstates env' = nstates env"
    using assms(1) by (simp_all add: same_nfa_def)
  show ?thesis using assms(2,3) unfolding builds_def env_inv_def same by blast
qed

lemma advance_builds: "advance env = Inr env' \<Longrightarrow> env_inv X env \<Longrightarrow> builds X env' X env"
  using advance_ok [of env env'] by (auto intro: same_nfa_inv simp: inv_lex_ok)

lemma inv_epsilon:
  assumes "env_inv X env" and "i < next_alloc env"
  shows "wf_state (next_alloc env) ((mem env ! i)\<lparr>edge := EPSILON\<rparr>)"
proof -
  have "state_ok (next_alloc env) (i \<in> X) (mem env ! i)" using assms by (simp add: env_inv_def)
  then show ?thesis using wf_epsilon by (auto simp: state_ok_def split: if_splits)
qed

lemma new_builds:
  assumes n: "new env = Inr (p, env')" and inv: "env_inv X env"
  shows "builds (X - {p}) env' X env \<and> good (X - {p}) env' p \<and> edge (mem env' ! p) = EPSILON"
proof (cases "dstack env")
  case Nil
  let ?n = "next_alloc env"
  have p: "p = ?n" "?n < NFA_MAX" and
    env': "env' = upd_state ?n (\<lambda>p. p\<lparr>edge := EPSILON\<rparr>) (env\<lparr>nstates := nstates env + 1, next_alloc := ?n + 1\<rparr>)"
    using n Nil by (auto simp: new_def Let_def split: if_splits)
  have z: "mem env ! ?n = zero_state" using inv p by (simp add: env_inv_def)
  have len: "?n < length (mem env)" using inv p by (simp add: env_inv_def)
  have mono: "state_ok (Suc ?n) (i \<in> X) (mem env ! i)" if "i < ?n" for i
    using inv that wf_state_mono [of ?n _ "Suc ?n"] by (auto simp: env_inv_def state_ok_def)
  have fresh: "state_ok (Suc ?n) False (zero_state\<lparr>edge := EPSILON\<rparr>)" by (simp add: state_ok_def wf_zero)
  have nX: "?n \<notin> X" using inv by (auto simp: env_inv_def)
  have "env_inv X env'"
    using inv p Nil z fresh nX mono unfolding env' env_inv_def upd_state_def lex_ok_def
    by (auto simp: nth_list_update_if less_Suc_eq)
  then show ?thesis using p len nX
    unfolding builds_def good_def by (simp add: env' upd_state_def)
next
  case (Cons q stk)
  have p: "p = q" and
    env': "env' = upd_state q (\<lambda>p. p\<lparr>edge := EPSILON\<rparr>) (env\<lparr>nstates := nstates env + 1, dstack := stk\<rparr>)"
    using n Cons by (auto simp: new_def Let_def split: if_splits)
  have q: "q < next_alloc env" "q < length (mem env)" using inv Cons by (auto simp: env_inv_def)
  have "env_inv (X - {q}) env'"
    using inv q Cons inv_epsilon [OF inv q(1)] unfolding env' env_inv_def upd_state_def lex_ok_def
    by (auto simp: nth_list_update_if state_ok_def)
  then show ?thesis using p q unfolding builds_def good_def by (auto simp: env' upd_state_def)
qed

lemma discard_builds:
  assumes "discard p env = Inr env'" and inv: "env_inv X env" and g: "good X env p"
  shows "builds X env' X env"
proof -
  have env': "env' = (upd_state p (\<lambda>_. zero_state\<lparr>edge := EMPTY\<rparr>) env)
             \<lparr>nstates := nstates env - 1, dstack := p # dstack env\<rparr>"
    using assms(1) by (auto simp: discard_def split: if_splits)
  show ?thesis
    using inv g wf_zero(2) unfolding env' builds_def env_inv_def upd_state_def lex_ok_def good_def
    by (auto simp: nth_list_update_if state_ok_def)
qed

lemma good_wf: "env_inv X env \<Longrightarrow> good X env i \<Longrightarrow> wf_state (next_alloc env) (mem env ! i)"
  by (auto simp: env_inv_def good_def state_ok_def)

lemma good_length: "env_inv X env \<Longrightarrow> good X env i \<Longrightarrow> i < length (mem env)"
  by (simp add: env_inv_def good_def)

lemma good_less: "good X env i \<Longrightarrow> i < next_alloc env"
  by (simp add: good_def)

section \<open>The joins\<close>

lemma join_or_builds:
  assumes j: "join_or se se2 env = Inr (se', env')" and inv: "env_inv X env"
    and w: "weak_pair X env se" and w2: "strong_pair X env se2"
  shows "\<exists>X'. builds X' env' X env \<and> good_pair X' env' se'"
proof -
  obtain s e s2 e2 where se: "se = (s, e)" "se2 = (s2, e2)" by (cases se; cases se2)
  obtain p e1 p' e3 i i2 where n1: "new env = Inr (p, e1)"
    and n2: "new (upd_state p (\<lambda>q. q\<lparr>nfa_next2 := s2, nfa_next := s\<rparr>) e1) = Inr (p', e3)"
    and e: "e = Some i" "e2 = Some i2" and se': "se' = (Some p, Some p')"
    and env': "env' = upd_state i2 (\<lambda>q. q\<lparr>nfa_next := Some p'\<rparr>) (upd_state i (\<lambda>q. q\<lparr>nfa_next := Some p'\<rparr>) e3)"
    using j se by (auto simp: join_or_def bind_res_Inr_iff deref_Inr_iff)
  obtain k k2 where k: "s = Some k" "s2 = Some k2" "good X env k" "good X env k2" "good X env i" "good X env i2"
    using w w2 se e by (auto simp: weak_pair_def strong_pair_def good_pair_def)
  define X1 where "X1 = X - {p}"
  define X3 where "X3 = X1 - {p'}"
  have b1: "builds X1 e1 X env" and g1: "good X1 e1 p" using new_builds [OF n1 inv] by (simp_all add: X1_def)
  let ?e2 = "upd_state p (\<lambda>q. q\<lparr>nfa_next2 := s2, nfa_next := s\<rparr>) e1"
  have b2: "builds X1 ?e2 X1 e1"
    by (rule upd_builds [OF builds_inv [OF b1] g1])
      (use good_mono(1) [OF b1] k good_less in \<open>auto intro!: wf_next wf_next2\<close>)
  have b3: "builds X3 e3 X1 ?e2" and g3: "good X3 e3 p'"
    using new_builds [OF n2 builds_inv [OF b2]] by (simp_all add: X3_def)
  have bb: "builds X3 e3 X env" using b1 b2 b3 by (meson builds_trans)
  have g: "good X3 e3 i" "good X3 e3 i2" using k good_mono(1) [OF bb] by blast+
  have gp: "good X3 e3 p" using g1 b2 b3 good_mono(1) by blast
  let ?e4 = "upd_state i (\<lambda>q. q\<lparr>nfa_next := Some p'\<rparr>) e3"
  have b4: "builds X3 ?e4 X3 e3"
    by (rule upd_builds [OF builds_inv [OF bb] g(1)]) (use good_less [OF g3] in \<open>auto intro!: wf_next\<close>)
  have g4: "good X3 ?e4 i2" "p' < next_alloc ?e4" using good_mono(1) [OF b4 g(2)] good_less [OF g3] by simp_all
  have b5: "builds X3 env' X3 ?e4" unfolding env'
    by (rule upd_builds [OF builds_inv [OF b4] g4(1)]) (use g4 in \<open>auto intro!: wf_next\<close>)
  have "builds X3 env' X3 e3" using b4 b5 by (meson builds_trans)
  then show ?thesis using bb gp g3 good_mono(1) se' unfolding good_pair_def by (blast intro: builds_trans)
qed

lemma join_cat_builds:
  assumes j: "join_cat se se2 env = Inr (se', env')" and inv: "env_inv X env"
    and w: "weak_pair X env se" and w2: "strong_pair X env se2"
  shows "builds X env' X env \<and> good_pair X env' se'"
proof -
  obtain s e s2 e2 where se: "se = (s, e)" "se2 = (s2, e2)" by (cases se; cases se2)
  obtain i k where e: "e = Some i" "s2 = Some k" and se': "se' = (s, e2)"
    and d: "discard k (upd_state i (\<lambda>_. mem env ! k) env) = Inr env'"
    using j se by (auto simp: join_cat_def bind_res_Inr_iff deref_Inr_iff)
  obtain s0 e0 where g: "s = Some s0" "e2 = Some e0" "good X env s0" "good X env i" "good X env k" "good X env e0"
    using w w2 se e by (auto simp: weak_pair_def strong_pair_def good_pair_def)
  let ?e1 = "upd_state i (\<lambda>_. mem env ! k) env"
  have b1: "builds X ?e1 X env"
    by (rule upd_builds [OF inv g(4)]) (use good_wf [OF inv g(5)] in simp)
  have "builds X env' X ?e1"
    using d builds_inv [OF b1] good_mono(1) [OF b1 g(5)] by (rule discard_builds)
  then have "builds X env' X env" using b1 by (rule builds_trans)
  then show ?thesis using g se' good_mono(1) by (auto simp: good_pair_def)
qed

lemma closure_op_builds:
  assumes c: "closure_op se env = Inr (se', env')" and inv: "env_inv X env" and w: "weak_pair X env se"
  shows "\<exists>X'. builds X' env' X env \<and> good_pair X' env' se'"
proof -
  obtain s e where se: "se = (s, e)" by (cases se)
  define f5 where "f5 p q = (if cur_tok env = CLOSRUE \<or> cur_tok env = OPTIONAL
      then upd_state p (\<lambda>r. r\<lparr>nfa_next2 := Some q\<rparr>) else (\<lambda>e. e))" for p q
  define f6 where "f6 i = (if cur_tok env = CLOSRUE \<or> cur_tok env = PLUS_CLOSE
      then upd_state i (\<lambda>r. r\<lparr>nfa_next2 := s\<rparr>) else (\<lambda>e. e))" for i
  obtain p e1 q e2 i where n1: "new env = Inr (p, e1)" and n2: "new e1 = Inr (q, e2)" and e: "e = Some i"
    and se': "se' = (Some p, Some q)"
    and a: "advance (f6 i (f5 p q (upd_state i (\<lambda>r. r\<lparr>nfa_next := Some q\<rparr>)
              (upd_state p (\<lambda>r. r\<lparr>nfa_next := s\<rparr>) e2)))) = Inr env'"
    using c se by (auto simp: closure_op_def bind_res_Inr_iff deref_Inr_iff Let_def f5_def f6_def
        split: if_splits)
  obtain k where k: "s = Some k" "good X env k" "good X env i"
    using w se e by (auto simp: weak_pair_def good_pair_def)
  define X1 where "X1 = X - {p}"
  define X2 where "X2 = X1 - {q}"
  have b1: "builds X1 e1 X env" and g1: "good X1 e1 p" using new_builds [OF n1 inv] by (simp_all add: X1_def)
  have b2: "builds X2 e2 X1 e1" and gq: "good X2 e2 q"
    using new_builds [OF n2 builds_inv [OF b1]] by (simp_all add: X2_def)
  have bb: "builds X2 e2 X env" using b1 b2 by (meson builds_trans)
  have g: "good X2 e2 p" "good X2 e2 k" "good X2 e2 i" using g1 b2 k good_mono(1) bb by blast+
  let ?e3 = "upd_state p (\<lambda>r. r\<lparr>nfa_next := s\<rparr>) e2"
  let ?e4 = "upd_state i (\<lambda>r. r\<lparr>nfa_next := Some q\<rparr>) ?e3"
  let ?e5 = "f5 p q ?e4"
  let ?e6 = "f6 i ?e5"
  have na: "next_alloc ?e3 = next_alloc e2" "next_alloc ?e4 = next_alloc e2" "next_alloc ?e5 = next_alloc e2"
    by (simp_all add: f5_def)
  have gg: "good X2 e' j \<longleftrightarrow> good X2 e2 j" if "next_alloc e' = next_alloc e2" for e' j
    using that by (simp add: good_def)
  note lt = g [THEN good_less] gq [THEN good_less]
  have b3: "builds X2 ?e3 X2 e2"
    by (rule upd_builds [OF builds_inv [OF bb] g(1)]) (use lt k in \<open>auto intro!: wf_next\<close>)
  have b4: "builds X2 ?e4 X2 ?e3"
    by (rule upd_builds [OF builds_inv [OF b3]]) (use lt g gg [OF na(1)] in \<open>auto intro!: wf_next\<close>)
  have b5: "builds X2 ?e5 X2 ?e4"
    unfolding f5_def using lt g gg [OF na(2)] builds_inv [OF b4]
    by (auto intro!: upd_builds wf_next2 builds_refl)
  have b6: "builds X2 ?e6 X2 ?e5"
    unfolding f6_def using lt g gg [OF na(3)] builds_inv [OF b5] na k
    by (auto intro!: upd_builds wf_next2 builds_refl)
  have "builds X2 env' X2 ?e6" using a builds_inv [OF b6] by (rule advance_builds)
  then have b: "builds X2 env' X2 e2" using b3 b4 b5 b6 by (meson builds_trans)
  moreover have "good_pair X2 env' se'" using g(1) gq good_mono(1) [OF b] se' by (simp add: good_pair_def)
  ultimately show ?thesis using bb by (blast intro: builds_trans)
qed

section \<open>Classes\<close>

lemma add_char_wf: "set_wf b \<Longrightarrow> 0 \<le> c \<Longrightarrow> c < 4096 \<Longrightarrow> set_wf (add_char c b)"
  by (simp add: add_char_def legal_bit_def uns_def)

lemma add_eol_wf: "set_wf b \<Longrightarrow> set_wf (add_eol u b)"
  by (simp add: add_eol_def add_char_wf)

lemma foldl_add_char_wf:
  "set_wf b \<Longrightarrow> \<forall>c\<in>set cs. 0 \<le> c \<and> c < 4096 \<Longrightarrow> set_wf (foldl (\<lambda>s c. add_char c s) b cs)"
  by (induction cs arbitrary: b) (simp_all add: add_char_wf)

lemma add_range_wf: "set_wf b \<Longrightarrow> 0 \<le> a \<Longrightarrow> z < 4096 \<Longrightarrow> set_wf (add_range a z b)"
  unfolding add_range_def by (rule foldl_add_char_wf) auto

lemma set_wf_complement: "set_wf b \<Longrightarrow> set_wf (SET_COMPLEMENT b)"
  by (cases "hmap b") (simp_all add: SET_COMPLEMENT_def set_wf_def words_def)

lemma same_nfa_refl: "same_nfa env env"
  by (simp add: same_nfa_def)

lemma same_nfa_trans: "same_nfa c b \<Longrightarrow> same_nfa b a \<Longrightarrow> same_nfa c a"
  by (simp add: same_nfa_def)

lemma dodash_loop_wf:
  "dodash_loop n b c env = Some (Inr (b', env')) \<Longrightarrow> lex_ok env \<Longrightarrow> set_wf b \<Longrightarrow> 0 \<le> c \<Longrightarrow>
     same_nfa env' env \<and> set_wf b'"
proof (induction n arbitrary: b c env)
  case (Suc n)
  have lx: "0 \<le> lexeme e \<and> lexeme e < 4096" if "lex_ok e" for e using that by (simp add: lex_ok_def)
  show ?case
  proof (cases "cur_tok env = EOS \<or> cur_tok env = CCL_END")
    case True
    with Suc.prems show ?thesis by (auto simp: same_nfa_refl)
  next
    case False
    then obtain e1 where e1: "advance env = Inr e1" and
      rest: "dodash_loop n (add_char (lexeme env) b) (lexeme env) e1 = Some (Inr (b', env')) \<or>
       (\<exists>e2. advance e1 = Inr e2 \<and>
         dodash_loop n (add_range c (lexeme e1) b) (max c (lexeme e1 + 1)) e2 = Some (Inr (b', env')))"
      using Suc.prems(1) by (auto simp: bind_run_Inr_iff split: if_splits)
    note a1 = advance_ok [OF e1 Suc.prems(2)]
    from rest show ?thesis
    proof (elim disjE exE conjE)
      assume "dodash_loop n (add_char (lexeme env) b) (lexeme env) e1 = Some (Inr (b', env'))"
      then have "same_nfa env' e1 \<and> set_wf b'"
        by (rule Suc.IH) (use a1 Suc.prems lx [OF Suc.prems(2)] in \<open>auto intro!: add_char_wf\<close>)
      then show ?thesis using a1 same_nfa_trans by blast
    next
      fix e2
      assume e2: "advance e1 = Inr e2"
        and d: "dodash_loop n (add_range c (lexeme e1) b) (max c (lexeme e1 + 1)) e2 = Some (Inr (b', env'))"
      have ok1: "lex_ok e1" using a1 by simp
      note a2 = advance_ok [OF e2 ok1]
      have "same_nfa env' e2 \<and> set_wf b'"
        by (rule Suc.IH [OF d]) (use a2 Suc.prems lx [OF ok1] in \<open>auto intro!: add_range_wf\<close>)
      then show ?thesis using a1 a2 same_nfa_trans by blast
    qed
  qed
qed simp

lemma class_set_wf:
  assumes "class_set n b env = Some (Inr (b', env'))" and ok: "lex_ok env" and wf: "set_wf b"
  shows "same_nfa env' env \<and> lex_ok env' \<and> set_wf b'"
proof -
  have ok': "lex_ok env'" using class_set_reads [OF assms(1) ok] by (rule reads_ok)
  from assms(1) show ?thesis
  proof (cases rule: class_set_cases)
    case any
    then show ?thesis using ok wf by (simp add: same_nfa_refl set_wf_complement add_eol_wf)
  next
    case (cls e1 b1 e2)
    have a1: "lex_ok e1 \<and> same_nfa e1 env" using advance_ok [OF cls(1) ok] by simp
    have a2: "lex_ok e2 \<and> same_nfa e2 e1 \<and> set_wf b1"
      using cls(2) a1 advance_ok [of e1 e2] wf by (auto simp: same_nfa_refl set_wf_complement add_eol_wf)
    have "same_nfa env' e2 \<and> set_wf b'"
      using cls(3) a2 dodash_loop_wf [of n b1 0 e2 b' env']
      by (auto simp: dodash_def same_nfa_refl add_range_wf split: if_splits)
    then show ?thesis using a1 a2 ok' same_nfa_trans by blast
  qed
qed

section \<open>Terms\<close>

lemma wf_char: "wf_state n p \<Longrightarrow> nfa_next p \<noteq> None \<Longrightarrow> 0 \<le> c \<Longrightarrow> wf_state n (p\<lparr>edge := c\<rparr>)"
  by (auto simp: wf_state_def edge_codes)

lemma wf_class:
  "wf_state n p \<Longrightarrow> nfa_next p \<noteq> None \<Longrightarrow> set_wf b \<Longrightarrow> wf_state n (p\<lparr>edge := CCL, bitset := Some b\<rparr>)"
  by (auto simp: wf_state_def)

lemma upd_twice:
  assumes "same_nfa e4 (upd_state p f e3)" and "p < length (mem e3)"
  shows "same_nfa (upd_state p g e4) (upd_state p (\<lambda>r. g (f r)) e3)"
  using assms by (simp add: same_nfa_def upd_state_def)

lemma lex_ok_upd: "lex_ok (upd_state i f env) = lex_ok env"
  by (rule same_lex_ok) simp

lemma single_term_builds:
  assumes st: "single_term n env = Some (Inr (se', env'))" and inv: "env_inv X env"
  shows "\<exists>X'. builds X' env' X env \<and> good_pair X' env' se'"
proof -
  have two: "\<exists>X'. builds X' e2 X env \<and> good X' e2 p \<and> good X' e2 q \<and>
      builds X' (upd_state p (\<lambda>r. r\<lparr>nfa_next := Some q\<rparr>) e2) X' e2"
    if n1: "new env = Inr (p, e1)" and n2: "new e1 = Inr (q, e2)" for p q e1 e2
  proof -
    define X1 where "X1 = X - {p}"
    define X2 where "X2 = X1 - {q}"
    have b1: "builds X1 e1 X env" "good X1 e1 p" using new_builds [OF n1 inv] by (simp_all add: X1_def)
    have b2: "builds X2 e2 X1 e1" "good X2 e2 q"
      using new_builds [OF n2 builds_inv [OF b1(1)]] by (simp_all add: X2_def)
    have g: "good X2 e2 p" using b1 b2 good_mono(1) by blast
    have "builds X2 (upd_state p (\<lambda>r. r\<lparr>nfa_next := Some q\<rparr>) e2) X2 e2"
      by (rule upd_builds [OF builds_inv [OF b2(1)] g]) (use good_less [OF b2(2)] in \<open>auto intro!: wf_next\<close>)
    then show ?thesis using b1 b2 g by (meson builds_trans)
  qed
  from st show ?thesis
  proof (cases rule: single_term_cases)
    case (char p e1 q e2)
    let ?e3 = "upd_state p (\<lambda>r. r\<lparr>nfa_next := Some q\<rparr>) e2"
    let ?e4 = "upd_state p (\<lambda>r. r\<lparr>edge := lexeme env\<rparr>) ?e3"
    obtain X2 where b2: "builds X2 e2 X env" and g: "good X2 e2 p" "good X2 e2 q" and b3: "builds X2 ?e3 X2 e2"
      using two [OF char(1,2)] by blast
    have lx: "0 \<le> lexeme env" using inv by (simp add: env_inv_def lex_ok_def)
    have "nfa_next (mem ?e3 ! p) \<noteq> None"
      using good_length [OF builds_inv [OF b2] g(1)] by (simp add: mem_upd_state)
    then have b4: "builds X2 ?e4 X2 ?e3"
      by (intro upd_builds [OF builds_inv [OF b3] good_mono(1) [OF b3 g(1)]]) (simp add: wf_char lx)
    have "builds X2 env' X2 ?e4" using char(3) builds_inv [OF b4] by (rule advance_builds)
    then have b: "builds X2 env' X2 e2" using b3 b4 by (meson builds_trans)
    then have "good_pair X2 env' se'" using g good_mono(1) char(4) by (simp add: good_pair_def)
    then show ?thesis using b b2 by (blast intro: builds_trans)
  next
    case (cls p e1 q e2 b e4)
    let ?e3 = "upd_state p (\<lambda>r. r\<lparr>nfa_next := Some q\<rparr>) e2"
    let ?f = "\<lambda>r. r\<lparr>edge := CCL, bitset := Some b\<rparr>"
    obtain X2 where b2: "builds X2 e2 X env" and g: "good X2 e2 p" "good X2 e2 q" and b3: "builds X2 ?e3 X2 e2"
      using two [OF cls(1,2)] by blast
    have len: "p < length (mem ?e3)" using good_length [OF builds_inv [OF b2] g(1)] by simp
    have ok3: "lex_ok ?e3" using builds_inv [OF b3] by (rule inv_lex_ok)
    have c: "same_nfa e4 (upd_state p (\<lambda>r. r\<lparr>edge := CCL\<rparr>) ?e3) \<and> lex_ok e4 \<and> set_wf b"
      using cls(3) by (rule class_set_wf) (use ok3 in \<open>simp_all add: lex_ok_upd\<close>)
    have "nfa_next (mem ?e3 ! p) \<noteq> None" using len by (simp add: mem_upd_state)
    then have b4: "builds X2 (upd_state p ?f ?e3) X2 ?e3"
      using c by (intro upd_builds [OF builds_inv [OF b3] good_mono(1) [OF b3 g(1)]]) (simp add: wf_class)
    have "same_nfa (upd_state p (\<lambda>r. r\<lparr>bitset := Some b\<rparr>) e4) (upd_state p ?f ?e3)"
      using upd_twice [OF conjunct1 [OF c] len, of "\<lambda>r. r\<lparr>bitset := Some b\<rparr>"] by simp
    then have b5: "builds X2 (upd_state p (\<lambda>r. r\<lparr>bitset := Some b\<rparr>) e4) X2 (upd_state p ?f ?e3)"
      using c by (intro same_nfa_inv builds_inv [OF b4]) (simp_all add: lex_ok_upd)
    have "builds X2 env' X2 (upd_state p (\<lambda>r. r\<lparr>bitset := Some b\<rparr>) e4)"
      using cls(4) builds_inv [OF b5] by (rule advance_builds)
    then have bb: "builds X2 env' X2 e2" using b3 b4 b5 by (meson builds_trans)
    then have "good_pair X2 env' se'" using g good_mono(1) cls(5) by (simp add: good_pair_def)
    then show ?thesis using bb b2 by (blast intro: builds_trans)
  qed
qed

section \<open>The descent\<close>

text \<open>The pair that a function of the grammar leaves is the one it was given, or a machine.\<close>

definition parsed :: "nat set \<Rightarrow> lex_env \<Rightarrow> ptrs \<Rightarrow> ptrs \<Rightarrow> lex_env \<Rightarrow> bool" where
  "parsed X env se se' env' \<longleftrightarrow>
     (\<exists>X'. builds X' env' X env \<and> (se' = se \<or> good_pair X' env' se'))"

lemma parsed_same: "env_inv X env \<Longrightarrow> parsed X env se se env"
  using builds_refl by (auto simp: parsed_def)

lemma parsed_good:
  "builds X' env' X env \<Longrightarrow> good_pair X' env' se' \<Longrightarrow> parsed X env se se' env'"
  by (auto simp: parsed_def)

lemma parsed_via:
  assumes "builds X1 e1 X env" and "se1 = se \<or> good_pair X1 e1 se1" and "parsed X1 e1 se1 se' env'"
  shows "parsed X env se se' env'"
proof -
  obtain X2 where b: "builds X2 env' X1 e1" and "se' = se1 \<or> good_pair X2 env' se'"
    using assms(3) by (auto simp: parsed_def)
  then have "se' = se \<or> good_pair X2 env' se'" using assms(2) good_mono(2) [OF b] by blast
  then show ?thesis using builds_trans [OF b assms(1)] by (auto simp: parsed_def)
qed

lemma parsed_trans:
  assumes "parsed X env se se1 e1"
    and "\<And>X1. builds X1 e1 X env \<Longrightarrow> se1 = se \<or> good_pair X1 e1 se1 \<Longrightarrow> parsed X1 e1 se1 se' env'"
  shows "parsed X env se se' env'"
proof -
  obtain X1 where "builds X1 e1 X env" and "se1 = se \<or> good_pair X1 e1 se1"
    using assms(1) by (auto simp: parsed_def)
  then show ?thesis using assms(2) parsed_via by blast
qed

lemma weak_after: "builds X1 e1 X env \<Longrightarrow> weak_pair X env se \<Longrightarrow> se1 = se \<or> good_pair X1 e1 se1 \<Longrightarrow> weak_pair X1 e1 se1"
  by (auto simp: weak_pair_def intro: good_mono)

lemma strong_after: "builds X1 e1 X env \<Longrightarrow> strong_pair X env se \<Longrightarrow> se1 = se \<or> good_pair X1 e1 se1 \<Longrightarrow> strong_pair X1 e1 se1"
  by (auto simp: strong_pair_def intro: good_mono)

lemma strong_None: "strong_pair X env (None, None)"
  by (simp add: strong_pair_def)

lemma parse_builds:
  "parse n nt se se2 env = Some (Inr (se', env')) \<Longrightarrow> env_inv X env \<Longrightarrow> weak_pair X env se \<Longrightarrow>
     strong_pair X env se2 \<Longrightarrow> parsed X env se se' env'"
proof (induction n arbitrary: nt se se2 env se' env' X)
  case (Suc n)
  note inv = Suc.prems(2) and w = Suc.prems(3) and w2 = Suc.prems(4)
  show ?case
  proof (cases nt)
    case Expr
    then obtain se1 e1 where 1: "parse n CatExpr se (None, None) env = Some (Inr (se1, e1))"
      and 2: "parse n ExprLoop se1 (None, None) e1 = Some (Inr (se', env'))"
      using Suc.prems(1) by (auto simp: expr_body_def bind_run_Inr_iff)
    have "parsed X env se se1 e1" using Suc.IH [OF 1 inv w strong_None] .
    then show ?thesis
    proof (rule parsed_trans)
      fix X1 assume b: "builds X1 e1 X env" and "se1 = se \<or> good_pair X1 e1 se1"
      then have "weak_pair X1 e1 se1" using w weak_after by blast
      with Suc.IH [OF 2 builds_inv [OF b] _ strong_None] show "parsed X1 e1 se1 se' env'" by blast
    qed
  next
    case ExprLoop
    show ?thesis
    proof (cases "cur_tok env = ALT")
      case False
      with Suc.prems(1) ExprLoop show ?thesis using inv by (auto simp: expr_loop_body_def parsed_same)
    next
      case True
      with Suc.prems(1) ExprLoop obtain e1 s2 e2 s3 e3 where a: "advance env = Inr e1"
        and 1: "parse n CatExpr se2 (None, None) e1 = Some (Inr (s2, e2))"
        and j: "join_or se s2 e2 = Inr (s3, e3)" and 2: "parse n ExprLoop s3 s2 e3 = Some (Inr (se', env'))"
        by (fastforce simp: expr_loop_body_def bind_run_Inr_iff)
      have b1: "builds X e1 X env" using a inv by (rule advance_builds)
      have "parsed X e1 se2 s2 e2"
        using Suc.IH [OF 1 builds_inv [OF b1] _ strong_None] strong_weak good_mono(4) [OF b1 w2] by blast
      then obtain X2 where b2: "builds X2 e2 X e1" and s2: "s2 = se2 \<or> good_pair X2 e2 s2"
        by (auto simp: parsed_def)
      have st2: "strong_pair X2 e2 s2" using strong_after [OF b2 good_mono(4) [OF b1 w2] s2] .
      obtain X3 where b3: "builds X3 e3 X2 e2" and g3: "good_pair X3 e3 s3"
        using join_or_builds [OF j builds_inv [OF b2] _ st2] good_mono(3) b1 b2 w by blast
      have "parsed X3 e3 s3 se' env'"
        using Suc.IH [OF 2 builds_inv [OF b3] _ good_mono(4) [OF b3 st2]] g3 by (simp add: weak_pair_def)
      moreover have "builds X3 e3 X env" using b1 b2 b3 by (meson builds_trans)
      ultimately show ?thesis using g3 parsed_via by blast
    qed
  next
    case CatExpr
    show ?thesis
    proof (cases "first_in_cat (cur_tok env) = Inr True")
      case True
      then obtain se1 e1 where 1: "parse n Factor se (None, None) env = Some (Inr (se1, e1))"
        and 2: "parse n CatLoop se1 (None, None) e1 = Some (Inr (se', env'))"
        using Suc.prems(1) CatExpr by (auto simp: cat_expr_body_def bind_run_Inr_iff)
      have "parsed X env se se1 e1" using Suc.IH [OF 1 inv w strong_None] .
      then show ?thesis
      proof (rule parsed_trans)
        fix X1 assume b: "builds X1 e1 X env" and "se1 = se \<or> good_pair X1 e1 se1"
        then have "weak_pair X1 e1 se1" using w weak_after by blast
        with Suc.IH [OF 2 builds_inv [OF b] _ strong_None] show "parsed X1 e1 se1 se' env'" by blast
      qed
    next
      case False
      then have "parse n CatLoop se (None, None) env = Some (Inr (se', env'))"
        using Suc.prems(1) CatExpr by (auto simp: cat_expr_body_def bind_run_Inr_iff split: if_splits)
      then show ?thesis using Suc.IH inv w strong_None by blast
    qed
  next
    case CatLoop
    show ?thesis
    proof (cases "first_in_cat (cur_tok env) = Inr True")
      case False
      with Suc.prems(1) CatLoop show ?thesis
        using inv by (auto simp: cat_loop_body_def bind_run_Inr_iff parsed_same split: if_splits)
    next
      case True
      with Suc.prems(1) CatLoop obtain s2 e2 s3 e3 where
        1: "parse n Factor se2 (None, None) env = Some (Inr (s2, e2))"
        and j: "join_cat se s2 e2 = Inr (s3, e3)" and 2: "parse n CatLoop s3 s2 e3 = Some (Inr (se', env'))"
        by (fastforce simp: cat_loop_body_def bind_run_Inr_iff)
      have "parsed X env se2 s2 e2" using Suc.IH [OF 1 inv strong_weak [OF w2] strong_None] .
      then obtain X2 where b2: "builds X2 e2 X env" and s2: "s2 = se2 \<or> good_pair X2 e2 s2"
        by (auto simp: parsed_def)
      have st2: "strong_pair X2 e2 s2" using strong_after [OF b2 w2 s2] .
      have b3: "builds X2 e3 X2 e2" and g3: "good_pair X2 e3 s3"
        using join_cat_builds [OF j builds_inv [OF b2] good_mono(3) [OF b2 w] st2] by simp_all
      have "parsed X2 e3 s3 se' env'"
        using Suc.IH [OF 2 builds_inv [OF b3] _ good_mono(4) [OF b3 st2]] g3 by (simp add: weak_pair_def)
      moreover have "builds X2 e3 X env" using b2 b3 by (meson builds_trans)
      ultimately show ?thesis using g3 parsed_via by blast
    qed
  next
    case Factor
    then obtain se1 e1 where 1: "parse n Term se (None, None) env = Some (Inr (se1, e1))"
      and c: "closure_op se1 e1 = Inr (se', env') \<or> se' = se1 \<and> env' = e1"
      using Suc.prems(1) by (auto simp: factor_body_def bind_run_Inr_iff split: if_splits)
    have "parsed X env se se1 e1" using Suc.IH [OF 1 inv w strong_None] .
    then show ?thesis
    proof (rule parsed_trans)
      fix X1 assume b: "builds X1 e1 X env" and "se1 = se \<or> good_pair X1 e1 se1"
      then have "weak_pair X1 e1 se1" using w weak_after by blast
      with c closure_op_builds [OF _ builds_inv [OF b], of se1 se' env'] show "parsed X1 e1 se1 se' env'"
        using parsed_same [OF builds_inv [OF b], of se1] by (auto intro: parsed_good)
    qed
  next
    case Term
    show ?thesis
    proof (cases "cur_tok env = OPEN_PAREN")
      case False
      with Suc.prems(1) Term have "single_term n env = Some (Inr (se', env'))" by (simp add: term_body_def)
      from single_term_builds [OF this inv] show ?thesis by (auto simp: parsed_def)
    next
      case True
      with Suc.prems(1) Term obtain e1 e2 where a: "advance env = Inr e1"
        and 1: "parse n Expr se (None, None) e1 = Some (Inr (se', e2))" and a2: "advance e2 = Inr env'"
        by (auto simp: term_body_def bind_run_Inr_iff split: if_splits)
      have b1: "builds X e1 X env" using a inv by (rule advance_builds)
      have "parsed X e1 se se' e2"
        using Suc.IH [OF 1 builds_inv [OF b1] good_mono(3) [OF b1 w] strong_None] .
      then obtain X2 where b2: "builds X2 e2 X e1" and s2: "se' = se \<or> good_pair X2 e2 se'"
        by (auto simp: parsed_def)
      have "builds X2 env' X2 e2" using a2 builds_inv [OF b2] by (rule advance_builds)
      then have b: "builds X2 env' X2 e2" "builds X2 env' X env" using b1 b2 by (blast intro: builds_trans)+
      then have "se' = se \<or> good_pair X2 env' se'" using s2 good_mono(2) by blast
      then show ?thesis using b(2) by (auto simp: parsed_def)
    qed
  qed
qed simp

section \<open>Rules\<close>

text \<open>The newline edge of an anchored rule: the state is open until the expression is there.\<close>

lemma open_state:
  assumes "env_inv {} env" and "p < next_alloc env"
  shows "env_inv {p} (upd_state p (\<lambda>r. r\<lparr>edge := 10\<rparr>) env)"
  using assms inv_epsilon [OF assms]
  by (auto simp: env_inv_def upd_state_def lex_ok_def nth_list_update_if state_ok_def)

lemma close_state:
  assumes inv: "env_inv X env" and X: "X \<subseteq> {p}" and p: "p < next_alloc env" and s: "s < next_alloc env"
  shows "env_inv {} (upd_state p (\<lambda>r. r\<lparr>nfa_next := Some s\<rparr>) env)"
proof -
  have "state_ok (next_alloc env) (p \<in> X) (mem env ! p)" using inv p by (simp add: env_inv_def)
  then have "wf_state (next_alloc env) ((mem env ! p)\<lparr>nfa_next := Some s\<rparr>)"
    using s by (auto simp: state_ok_def wf_state_def edge_codes split: if_splits)
  moreover have "i < next_alloc env \<Longrightarrow> i \<noteq> p \<Longrightarrow> wf_state (next_alloc env) (mem env ! i)" for i
    using inv X by (auto simp: env_inv_def state_ok_def split: if_splits)
  moreover have "i < NFA_MAX \<Longrightarrow> next_alloc env \<le> i \<Longrightarrow> i \<noteq> p \<and> mem env ! i = zero_state" for i
    using inv p by (auto simp: env_inv_def)
  moreover have "lex_ok env \<and> length (mem env) = NFA_MAX \<and> next_alloc env \<le> NFA_MAX \<and>
      set (dstack env) \<subseteq> {..<next_alloc env} \<and> int (next_alloc env) = nstates env + int (length (dstack env))"
    using inv by (simp add: env_inv_def)
  ultimately show ?thesis
    by (simp add: env_inv_def upd_state_def lex_ok_def nth_list_update_if state_ok_def)
qed

lemma expr_builds:
  assumes "expr n se env = Some (Inr ((s, e), env'))" and "env_inv X env" and "snd se = None" and "e \<noteq> None"
  shows "\<exists>X'. builds X' env' X env \<and> good_pair X' env' (s, e)"
proof -
  have "parsed X env se (s, e) env'"
    using assms parse_builds [of n Expr se "(None, None)" env "(s, e)" env' X]
    by (simp add: expr_def weak_pair_def strong_pair_def)
  then show ?thesis using assms(3,4) by (auto simp: parsed_def)
qed

lemma rule_body_builds:
  assumes rb: "rule_body n env = Some (Inr ((s, e, k), env'))" and inv: "env_inv {} env" and e: "e \<noteq> None"
  shows "builds {} env' {} env \<and> good_pair {} env' (s, e)"
proof (cases "cur_tok env = AT_BOL")
  case False
  then have "expr n (None, None) env = Some (Inr ((s, e), env'))"
    using rb by (auto simp: rule_body_def bind_run_Inr_iff)
  from expr_builds [OF this inv _ e] obtain X' where b: "builds X' env' {} env" and g: "good_pair X' env' (s, e)"
    by auto
  then have "X' = {}" by (simp add: builds_def)
  with b g show ?thesis by simp
next
  case True
  then obtain p e1 e2 s1 e3 where n1: "new env = Inr (p, e1)"
    and a: "advance (upd_state p (\<lambda>r. r\<lparr>edge := 10\<rparr>) e1) = Inr e2"
    and x: "expr n (nfa_next (mem e2 ! p), None) e2 = Some (Inr ((s1, e), e3))"
    and s: "s = Some p" and env': "env' = upd_state p (\<lambda>r. r\<lparr>nfa_next := s1\<rparr>) e3"
    using rb by (auto simp: rule_body_def bind_run_Inr_iff)
  have b1: "builds {} e1 {} env" "good {} e1 p" using new_builds [OF n1 inv] by simp_all
  let ?e1 = "upd_state p (\<lambda>r. r\<lparr>edge := 10\<rparr>) e1"
  have o1: "env_inv {p} ?e1" using builds_inv [OF b1(1)] good_less [OF b1(2)] by (rule open_state)
  have b2: "builds {p} e2 {p} ?e1" using a o1 by (rule advance_builds)
  obtain X3 where b3: "builds X3 e3 {p} e2" and g3: "good_pair X3 e3 (s1, e)"
    using expr_builds [OF x builds_inv [OF b2] _ e] by auto
  obtain j i where j: "s1 = Some j" "e = Some i" "j < next_alloc e3" "i < next_alloc e3"
    using g3 by (auto simp: good_pair_def good_def)
  have na: "next_alloc env \<le> next_alloc e1" "next_alloc e1 \<le> next_alloc e2" "next_alloc e2 \<le> next_alloc e3" "X3 \<subseteq> {p}"
    using b1(1) b2 b3 by (simp_all add: builds_def)
  have p: "p < next_alloc e3" using good_less [OF b1(2)] na by simp
  have "env_inv {} env'"
    unfolding env' j(1) by (rule close_state [OF builds_inv [OF b3] na(4) p j(3)])
  then show ?thesis using na p j s by (simp add: builds_def good_pair_def good_def env')
qed

lemma wf_eol: "wf_state n r \<Longrightarrow> p < n \<Longrightarrow> set_wf b \<Longrightarrow>
    wf_state n (r\<lparr>nfa_next := Some p, edge := CCL, bitset := Some b\<rparr>)"
  by (auto simp: wf_state_def)

lemma rule_eol_builds:
  assumes r: "rule_eol e k env = Inr ((e', k'), env')" and inv: "env_inv {} env"
    and e: "e = Some i" "good {} env i"
  shows "builds {} env' {} env \<and> (\<exists>j. e' = Some j \<and> good {} env' j)"
proof (cases "cur_tok env = AT_EOL")
  case False
  with r e inv show ?thesis by (auto simp: rule_eol_def builds_refl)
next
  case True
  define b where "b e = add_eol (unix_stype e) set_new" for e :: lex_env
  obtain e1 p e2 where a: "advance env = Inr e1" and n1: "new e1 = Inr (p, e2)" and e': "e' = Some p"
    and env': "env' = upd_state i (\<lambda>r. r\<lparr>nfa_next := Some p, edge := CCL, bitset := Some (b e2)\<rparr>) e2"
    using r True e by (auto simp: rule_eol_def bind_res_Inr_iff deref_Inr_iff b_def)
  have b1: "builds {} e1 {} env" using a inv by (rule advance_builds)
  have b2: "builds {} e2 {} e1" "good {} e2 p" using new_builds [OF n1 builds_inv [OF b1]] by simp_all
  have bb: "builds {} e2 {} env" using b1 b2(1) by (meson builds_trans)
  have b3: "builds {} env' {} e2" unfolding env'
    by (rule upd_builds [OF builds_inv [OF bb] good_mono(1) [OF bb e(2)]])
      (use good_less [OF b2(2)] in \<open>auto intro!: wf_eol simp: b_def add_eol_wf\<close>)
  show ?thesis using b3 bb b2(2) e' good_mono(1) by (blast intro: builds_trans)
qed

lemma env_inv_saved: "env_inv X (env\<lparr>savep := a, saved := b\<rparr>) = env_inv X env"
  by (simp add: env_inv_def lex_ok_def)

lemma save_cases: "save s env = Inr (pos, env') \<Longrightarrow> env' = env \<or> (\<exists>a b. env' = env\<lparr>savep := a, saved := b\<rparr>)"
  unfolding save_def Let_def by (simp split: if_splits) blast

lemma save_inv: "save s env = Inr (pos, env') \<Longrightarrow> env_inv X env \<Longrightarrow> builds X env' X env"
  by (drule save_cases) (elim disjE exE; simp add: builds_def env_inv_saved)

lemma rule_action_builds:
  assumes r: "rule_action (Some i) k env = Inr env'" and inv: "env_inv {} env" and g: "good {} env i"
  shows "builds {} env' {} env"
proof -
  obtain s pos e1 where i: "input env = Some s"
    and sv: "save (skip_space s) (env\<lparr>input := Some (skip_space s)\<rparr>) = Inr (pos, e1)"
    and a: "advance (upd_state i (\<lambda>r. r\<lparr>accept := Some pos, anchor := k\<rparr>) e1) = Inr env'"
    using r by (auto simp: rule_action_def deref_def Let_def bind_res_Inr_iff split: option.splits)
  let ?e0 = "env\<lparr>input := Some (skip_space s)\<rparr>"
  have "lex_ok ?e0" using skip_input_reads [OF i inv_lex_ok [OF inv]] by (rule reads_ok)
  then have b0: "builds {} ?e0 {} env" using inv by (simp add: builds_def env_inv_def)
  have b1: "builds {} e1 {} ?e0" using sv builds_inv [OF b0] by (rule save_inv)
  have bb: "builds {} e1 {} env" using b1 b0 by (rule builds_trans)
  have b2: "builds {} (upd_state i (\<lambda>r. r\<lparr>accept := Some pos, anchor := k\<rparr>) e1) {} e1"
    by (rule upd_builds [OF builds_inv [OF b1] good_mono(1) [OF bb g]]) (simp add: wf_state_def)
  have "builds {} env' {} (upd_state i (\<lambda>r. r\<lparr>accept := Some pos, anchor := k\<rparr>) e1)"
    using a builds_inv [OF b2] by (rule advance_builds)
  then show ?thesis using b2 bb by (meson builds_trans)
qed

lemma rule_builds:
  assumes "rule n env = Some (Inr (s, env'))" and inv: "env_inv {} env"
  shows "builds {} env' {} env \<and> (\<exists>j. s = Some j \<and> good {} env' j)"
  using assms(1)
proof (cases rule: rule_cases)
  case (1 e k e1 e' k' e2)
  have "e' \<noteq> None" using 1(3) by (auto simp: rule_action_def deref_def Let_def split: option.splits)
  then have e: "e \<noteq> None" using 1(2)
    by (auto simp: rule_eol_def bind_res_Inr_iff deref_Inr_iff split: if_splits)
  have b1: "builds {} e1 {} env" and g1: "good_pair {} e1 (s, e)"
    using rule_body_builds [OF 1(1) inv e] by simp_all
  obtain j i where j: "s = Some j" "e = Some i" "good {} e1 j" "good {} e1 i"
    using g1 by (auto simp: good_pair_def)
  obtain i2 where b2: "builds {} e2 {} e1" and i2: "e' = Some i2" "good {} e2 i2"
    using rule_eol_builds [OF 1(2) builds_inv [OF b1] j(2,4)] by blast
  have b3: "builds {} env' {} e2"
    using rule_action_builds [OF _ builds_inv [OF b2] i2(2)] 1(3) i2(1) by blast
  show ?thesis using b1 b2 b3 j good_mono(1) by (blast intro: builds_trans)
qed

lemma machine_loop_builds:
  "machine_loop n p env = Some (Inr env') \<Longrightarrow> env_inv {} env \<Longrightarrow> good {} env p \<Longrightarrow> builds {} env' {} env"
proof (induction n arbitrary: p env)
  case (Suc n)
  then obtain s e1 where r: "rule n env = Some (Inr (s, e1))"
    and rest: "env' = upd_state p (\<lambda>r. r\<lparr>nfa_next := s\<rparr>) e1 \<or>
      (\<exists>q e3. new (upd_state p (\<lambda>r. r\<lparr>nfa_next := s\<rparr>) e1) = Inr (q, e3) \<and>
        machine_loop n q (upd_state p (\<lambda>r. r\<lparr>nfa_next2 := Some q\<rparr>) e3) = Some (Inr env'))"
    by (auto simp: bind_run_Inr_iff Let_def split: if_splits)
  obtain j where b1: "builds {} e1 {} env" and j: "s = Some j" "good {} e1 j"
    using rule_builds [OF r Suc.prems(2)] by blast
  let ?e2 = "upd_state p (\<lambda>r. r\<lparr>nfa_next := s\<rparr>) e1"
  have b2: "builds {} ?e2 {} e1"
    by (rule upd_builds [OF builds_inv [OF b1] good_mono(1) [OF b1 Suc.prems(3)]])
      (use j good_less [OF j(2)] in \<open>auto intro!: wf_next\<close>)
  have bb: "builds {} ?e2 {} env" using b2 b1 by (rule builds_trans)
  from rest show ?case
  proof (elim disjE exE conjE)
    fix q e3
    assume n1: "new ?e2 = Inr (q, e3)"
      and m: "machine_loop n q (upd_state p (\<lambda>r. r\<lparr>nfa_next2 := Some q\<rparr>) e3) = Some (Inr env')"
    have b3: "builds {} e3 {} ?e2" "good {} e3 q" using new_builds [OF n1 builds_inv [OF b2]] by simp_all
    have b3': "builds {} e3 {} env" using b3(1) bb by (rule builds_trans)
    let ?e4 = "upd_state p (\<lambda>r. r\<lparr>nfa_next2 := Some q\<rparr>) e3"
    have b4: "builds {} ?e4 {} e3"
      by (rule upd_builds [OF builds_inv [OF b3'] good_mono(1) [OF b3' Suc.prems(3)]])
        (use good_less [OF b3(2)] in \<open>auto intro!: wf_next2\<close>)
    have "builds {} env' {} ?e4"
      using m builds_inv [OF b4] good_mono(1) [OF b4 b3(2)] by (rule Suc.IH)
    then show ?thesis using b4 b3' by (meson builds_trans)
  qed (use bb in simp)
qed simp

lemma thompson_builds:
  assumes t: "thompson n env = Some (Inr (nfa, start, env'))" and ok: "lex_ok (env\<lparr>cur_tok := EOS\<rparr>)"
    and m: "mem env = replicate NFA_MAX zero_state"
  shows "env_inv {} env' \<and> start < next_alloc env' \<and> nfa = take (next_alloc env') (mem env')"
proof -
  obtain e1 p e2 where a: "advance (env\<lparr>dstack := [], cur_tok := EOS\<rparr>) = Inr e1"
    and n1: "new (e1\<lparr>nstates := 0, next_alloc := 0\<rparr>) = Inr (p, e2)"
    and ml: "machine_loop n p e2 = Some (Inr env')" and res: "start = p" "nfa = take (next_alloc env') (mem env')"
    using t by (auto simp: thompson_def machine_def bind_run_Inr_iff)
  have "lex_ok (env\<lparr>dstack := [], cur_tok := EOS\<rparr>)" using ok by (simp add: lex_ok_def)
  from advance_ok [OF a this] have s: "lex_ok e1" "same_nfa e1 (env\<lparr>dstack := [], cur_tok := EOS\<rparr>)" by simp_all
  have inv: "env_inv {} (e1\<lparr>nstates := 0, next_alloc := 0\<rparr>)"
    using s m by (simp add: env_inv_def same_nfa_def lex_ok_def)
  have b1: "builds {} e2 {} (e1\<lparr>nstates := 0, next_alloc := 0\<rparr>)" "good {} e2 p"
    using new_builds [OF n1 inv] by simp_all
  have b2: "builds {} env' {} e2" using ml builds_inv [OF b1(1)] b1(2) by (rule machine_loop_builds)
  show ?thesis using builds_inv [OF b2] good_less [OF good_mono(1) [OF b2 b1(2)]] res by simp
qed

lemma env_inv_wf_nfa: "env_inv {} env \<Longrightarrow> wf_nfa (take (next_alloc env) (mem env))"
  by (auto simp: wf_nfa_def env_inv_def state_ok_def in_set_conv_nth min_def)

end
