(* ===== verification/Nfa.thy ===== *)
theory Nfa
  imports NfaInv
begin

text \<open>
  What the parser of the rules (\<open>src/compiler/lex/nfa.c\<close>) guarantees, and the inputs on which
  it does not do what its comments say.
\<close>

section \<open>Safe inputs\<close>

definition safe_rules :: "(string \<Rightarrow> MACRO option) \<Rightarrow> (int \<times> string) list \<Rightarrow> bool" where
  "safe_rules macs ls \<longleftrightarrow> mac_ok macs \<and> (\<forall>l\<in>set ls. text_ok (snd l))"

lemma safe_rules_lex_ok: "safe_rules macs ls \<Longrightarrow> lex_ok (init_env macs unix ls)"
  by (simp add: safe_rules_def lex_ok_def init_env_def)

lemma safe_rules_eos: "safe_rules macs ls \<Longrightarrow> lex_ok ((init_env macs unix ls)\<lparr>cur_tok := EOS\<rparr>)"
  by (simp add: safe_rules_def lex_ok_def init_env_def)

lemma mac_ok_none: "mac_ok (\<lambda>_. None)"
  by (simp add: mac_ok_def)

lemma init_env_eos: "(init_env macs unix ls)\<lparr>cur_tok := EOS\<rparr> = init_env macs unix ls"
  by (simp add: init_env_def)

section \<open>Macros\<close>

text \<open>A definition without blanks in its text.\<close>

definition plain_text :: "string \<Rightarrow> bool" where
  "plain_text s \<longleftrightarrow> (\<forall>c\<in>set s. \<not> isspace (sch c) \<and> c \<noteq> NUL)"

lemma find_edef_append:
  "\<forall>c\<in>set u. \<not> isspace (sch c) \<Longrightarrow> find_edef (u @ v) i in_run edef = find_edef v (i + length u) (in_run \<and> u = []) edef"
  by (induction u arbitrary: i in_run edef) auto

lemma find_edef_blanks:
  "\<forall>c\<in>set v. isspace (sch c) \<Longrightarrow>
     find_edef v i in_run edef = (if v = [] \<or> in_run then edef else Some i)"
  by (induction v arbitrary: i in_run edef) auto

lemma strncpy_word:
  assumes "length s < n" and "NUL \<notin> set s"
  shows "NUL \<in> set (strncpy s n)" and "takeWhile (\<lambda>c. c \<noteq> NUL) (strncpy s n @ rest) = s"
proof -
  obtain k where k: "n - length s = Suc k" using assms(1) by (cases "n - length s") auto
  have "strncpy s n = s @ replicate (n - length s) NUL" using assms(1) by (simp add: strncpy_def)
  then have e: "strncpy s n = s @ NUL # replicate k NUL" by (simp add: k)
  show "NUL \<in> set (strncpy s n)" by (simp add: e)
  have "\<And>c. c \<in> set s \<Longrightarrow> c \<noteq> NUL" using assms(2) by auto
  then show "takeWhile (\<lambda>c. c \<noteq> NUL) (strncpy s n @ rest) = s" by (simp add: e takeWhile_append)
qed

lemma takeWhile_word: "plain_text u \<Longrightarrow> isspace (sch c) \<Longrightarrow> takeWhile (\<lambda>c. \<not> isspace (sch c)) (u @ c # v) = u"
  by (induction u) (auto simp: plain_text_def)

lemma dropWhile_word: "plain_text u \<Longrightarrow> isspace (sch c) \<Longrightarrow> dropWhile (\<lambda>c. \<not> isspace (sch c)) (u @ c # v) = c # v"
  by (induction u) (auto simp: plain_text_def)

lemma skip_space_word: "plain_text u \<Longrightarrow> u \<noteq> [] \<Longrightarrow> skip_space (u @ v) = u @ v"
  by (cases u) (auto simp: plain_text_def)

lemma macro_def_plain:
  assumes nm: "plain_text nm" "length nm < MAC_NAME_MAX" and body: "plain_text body" "body \<noteq> []" "length body < MAC_TEXT_MAX"
    and sp: "sp \<noteq> []" "\<forall>c\<in>set sp. isspace (sch c)" and trail: "\<forall>c\<in>set trail. isspace (sch c)"
  shows "macro_name (macro_def (nm @ sp @ body @ trail)) = nm"
    and "macro_text (macro_def (nm @ sp @ body @ trail)) = Some body"
proof -
  obtain c sp' where c: "sp = c # sp'" "isspace (sch c)" "\<forall>c\<in>set sp'. isspace (sch c)"
    using sp by (cases sp) auto
  have sk: "skip_space (sp' @ body @ trail) = body @ trail"
    using c(3) body by (simp add: skip_space_append skip_space_word)
  have "\<forall>c\<in>set body. \<not> isspace (sch c)" using body(1) by (simp add: plain_text_def)
  then have ed: "find_edef (body @ trail) 0 False None = (if trail = [] then None else Some (length body))"
    using trail by (simp add: find_edef_append find_edef_blanks)
  have d: "macro_def (nm @ sp @ body @ trail) = \<lparr>mname = strncpy nm MAC_NAME_MAX, mtext = strncpy body MAC_TEXT_MAX\<rparr>"
    using c nm by (simp add: macro_def_def takeWhile_word dropWhile_word sk ed Let_def)
  have "NUL \<notin> set nm" "NUL \<notin> set body" using nm(1) body(1) by (auto simp: plain_text_def)
  then show "macro_name (macro_def (nm @ sp @ body @ trail)) = nm"
    and "macro_text (macro_def (nm @ sp @ body @ trail)) = Some body"
    using strncpy_word(2) [OF nm(2)] strncpy_word(1) [OF body(3)] strncpy_word(2) [OF body(3), of "[]"]
    by (simp_all add: d macro_name_def macro_text_def)
qed

lemma hash_new_sym_inv:
  assumes inv: "tab_inv hash t as" and a: "a \<notin> set as"
  shows "tab_inv hash (hash_new_sym t a x) as"
proof -
  let ?t = "hash_new_sym t a x"
  have h: "b \<noteq> a \<Longrightarrow> heap ?t b = heap t b" for b by (simp add: hash_new_sym_def)
  have "b \<in> set as \<Longrightarrow> buck ?t b = buck t b" for b using a h [of b] by (cases "b = a") (simp_all add: buck_def)
  then have s: "in_slot hash ?t i as = in_slot hash t i as" for i
    by (auto simp: in_slot_def slot_of_def hash_new_sym_def intro: filter_cong)
  have "chain ?t (Slot i) (table t ! i) (in_slot hash t i as)" if "i < max_size t" for i
  proof (rule chain_frame [of t])
    show "chain t (Slot i) (table t ! i) (in_slot hash t i as)" using inv that by (simp add: tab_inv_def)
    show "b \<in> set (in_slot hash t i as) \<Longrightarrow> heap ?t b = heap t b" for b
      using a h [of b] by (cases "b = a") simp_all
  qed
  then show ?thesis using inv s by (simp add: tab_inv_def hash_new_sym_def)
qed

lemma macro_lookup_list:
  assumes "tab_inv (hash_name macro_hash macro_name) t as" and "NUL \<notin> set nm"
  shows "macro_lookup (Some t) nm =
    map_option (\<lambda>a. user (buck t a)) (List.find (\<lambda>a. macro_name (user (buck t a)) = nm) as)"
proof -
  have "macro_name \<lparr>mname = nm, mtext = []\<rparr> = nm"
    using assms(2) by (auto simp: macro_name_def takeWhile_eq_all_conv)
  then have "hits macro_name t \<lparr>mname = nm, mtext = []\<rparr> = (\<lambda>a. macro_name (user (buck t a)) = nm)"
    by (auto simp: hits_def)
  then show ?thesis
    using named.find_holds [OF assms(1), of "\<lparr>mname = nm, mtext = []\<rparr>"]
    by (simp add: macro_lookup_def split: option.split)
qed

lemma new_macro_lookup:
  assumes inv: "tab_inv (hash_name macro_hash macro_name) t as" and a: "a \<notin> set as" and nul: "NUL \<notin> set nm"
  shows "macro_lookup (Some (new_macro (Some t) a def)) nm =
    (if macro_name (macro_def def) = nm then Some (macro_def def) else macro_lookup (Some t) nm)"
proof -
  let ?h = "hash_name macro_hash macro_name"
  let ?t1 = "hash_new_sym t a (macro_def def)"
  let ?t2 = "hash_add_sym ?h ?t1 a"
  have i1: "tab_inv ?h ?t1 as" using inv a by (rule hash_new_sym_inv)
  have i2: "tab_inv ?h ?t2 (a # as)"
    using i1 a by (intro hash_add_sym_tab_inv) (simp_all add: hash_new_sym_def)
  have u: "user (buck ?t2 b) = (if b = a then macro_def def else user (buck t b))" for b
    by (simp add: add_keeps) (simp add: hash_new_sym_def buck_def)
  have f: "List.find (\<lambda>b. macro_name (user (buck ?t2 b)) = nm) as = List.find (\<lambda>b. macro_name (user (buck t b)) = nm) as"
    using a by (induction as) (auto simp: u)
  have g: "b \<in> set as \<Longrightarrow> user (buck ?t2 b) = user (buck t b)" for b using a u by auto
  have "List.find (\<lambda>b. macro_name (user (buck t b)) = nm) as = Some b \<Longrightarrow> b \<in> set as" for b
    by (auto simp: find_Some_iff)
  then show ?thesis
    using macro_lookup_list [OF i2 nul] macro_lookup_list [OF inv nul] f g
    by (cases "List.find (\<lambda>b. macro_name (user (buck t b)) = nm) as") (simp_all add: new_macro_def u)
qed

section \<open>Examples\<close>

text \<open>Rules whose accepting states are allocated in the wrong order.\<close>

definition two_rules :: lex_env where
  "two_rules = init_env (\<lambda>_. None) False [(1, ''a?(b?(c?(d))) x''), (2, ''d y'')]"

definition st :: "int \<Rightarrow> nat option \<Rightarrow> nat option \<Rightarrow> nat option \<Rightarrow> NFA" where
  "st e n n2 acc = \<lparr>edge = e, bitset = None, nfa_next = n, nfa_next2 = n2, accept = acc, anchor = 0\<rparr>"

definition two_rules_nfa :: "NFA list" where
  "two_rules_nfa =
     [st (- 1) (Some 3) (Some 7) None, st 97 (Some 2) None None, st (- 1) (Some 4) None None,
      st (- 1) (Some 1) (Some 4) None, st (- 1) (Some 5) (Some 8) None, st 98 (Some 6) None None,
      st (- 1) (Some 8) None None, st (- 1) (Some 11) None None, st (- 1) (Some 9) (Some 12) None,
      st 99 (Some 10) None None, st (- 1) (Some 12) None None, st 100 (Some 13) None None,
      st 100 (Some 14) None None, st (- 1) None None (Some 3), st (- 1) None None (Some 1)]"

definition del_nfa :: "NFA list" where
  "del_nfa = [st (- 1) (Some 1) None None, st (- 1) (Some 2) None None, st (- 1) None None (Some 1)]"

text \<open>What is kept of a run in the examples: the automaton, its start and the accept strings.\<close>

definition outcome :: "(NFA list \<times> nat \<times> lex_env) run \<Rightarrow> (NFA list \<times> nat \<times> (nat \<times> int \<times> string) list) run" where
  "outcome r = bind_run r (\<lambda>(nfa, start, env). Some (Inr (nfa, start, saved env)))"

text \<open>The run needs fifteen states; the others are left as they are.\<close>

lemma two_rules_run_any:
  "outcome (thompson 30 (two_rules\<lparr>mem := replicate 15 zero_state @ zero_state # unused\<rparr>)) =
     Some (Inr (two_rules_nfa, 0, [(3, 2, ''y''), (1, 1, ''x'')]))"
  by code_simp

lemma two_rules_run:
  "outcome (thompson 30 two_rules) = Some (Inr (two_rules_nfa, 0, [(3, 2, ''y''), (1, 1, ''x'')]))"
proof -
  have "two_rules = two_rules\<lparr>mem := replicate (15 + 753) zero_state\<rparr>"
    by (simp add: two_rules_def init_env_def NFA_MAX_def)
  moreover have "replicate (15 + 753) zero_state = replicate 15 zero_state @ zero_state # replicate 752 zero_state"
    unfolding replicate_add replicate_Suc [symmetric] by simp
  ultimately show ?thesis using two_rules_run_any [of "replicate 752 zero_state"] by (simp only:)
qed

lemma eps_step: "i < length nfa \<Longrightarrow> edge (nfa ! i) = EPSILON \<Longrightarrow> nfa_next (nfa ! i) = Some j \<or> nfa_next2 (nfa ! i) = Some j \<Longrightarrow>
    (i, j) \<in> eps_rel nfa"
  by (auto simp: eps_rel_def eps_succ_def)

lemma two_rules_states: "{13, 14} \<subseteq> nfa_states two_rules_nfa 0 [100]"
proof -
  let ?N = two_rules_nfa
  have e: "(0, 7) \<in> eps_rel ?N" "(7, 11) \<in> eps_rel ?N" "(0, 3) \<in> eps_rel ?N" "(3, 4) \<in> eps_rel ?N"
    "(4, 8) \<in> eps_rel ?N" "(8, 12) \<in> eps_rel ?N"
    by (rule eps_step; simp add: two_rules_nfa_def st_def EPSILON_def)+
  have "(0, 11) \<in> (eps_rel ?N)\<^sup>*" using e(1,2) by (meson r_into_rtrancl rtrancl_trans)
  moreover have "(0, 12) \<in> (eps_rel ?N)\<^sup>*" using e(3-6) by (meson r_into_rtrancl rtrancl_trans)
  ultimately have "{11, 12} \<subseteq> eps_closure ?N {0}" by (auto simp: eps_closure_def)
  moreover have "nfa_next (?N ! 11) = Some 13" "nfa_next (?N ! 12) = Some 14" "matches (?N ! 11) 100" "matches (?N ! 12) 100"
    "length ?N = 15"
    by (simp_all add: two_rules_nfa_def st_def matches_def)
  ultimately have "{13, 14} \<subseteq> char_step ?N (eps_closure ?N {0}) 100"
    by (auto simp: char_step_def intro: bexI [of _ 11] bexI [of _ 12])
  also have "\<dots> \<subseteq> eps_closure ?N (char_step ?N (eps_closure ?N {0}) 100)" by (rule eps_closure_extensive)
  finally show ?thesis by (simp add: nfa_states_def)
qed

lemma wf_two_rules: "wf_nfa two_rules_nfa"
  by (auto simp: wf_nfa_def two_rules_nfa_def st_def wf_state_def NFA_MAX_def edge_codes)

section \<open>Properties\<close>

text \<open>C36.
  The parser of the rules ends on every input of seven-bit text without the negative control
  escapes: with a bound on the calls that grows with the \<open>weight\<close> of the input (its length,
  and what its macros can expand to), it returns an automaton or an error.
\<close>

theorem thompson_ends:
  assumes "safe_rules macs ls" and "8 * weight (init_env macs unix ls) + 7 < n"
  shows "thompson n (init_env macs unix ls) \<noteq> None"
  using thompson_returns [of "init_env macs unix ls" n] assms
  by (simp add: init_env_eos safe_rules_lex_ok del: not_None_eq)

lemma text_two_rules: "text_ok ''a?(b?(c?(d))) x''" "text_ok ''d y''"
  by code_simp+

lemma safe_two_rules: "safe_rules (\<lambda>_. None) [(1, ''a?(b?(c?(d))) x''), (2, ''d y'')]"
  by (simp add: safe_rules_def mac_ok_none text_two_rules del: text_ok.simps)

theorem thompson_ends_witness:
  "\<exists>n. thompson n two_rules \<noteq> None"
  unfolding two_rules_def using thompson_ends [OF safe_two_rules lessI, of False] by blast

lemma thompson_wf_nfa:
  assumes "safe_rules macs ls" and "thompson n (init_env macs unix ls) = Some (Inr (nfa, start, env))"
  shows "wf_nfa nfa \<and> start < length nfa"
proof -
  have "env_inv {} env \<and> start < next_alloc env \<and> nfa = take (next_alloc env) (mem env)"
    using assms(2) by (rule thompson_builds) (simp_all add: init_env_eos safe_rules_lex_ok assms(1), simp add: init_env_def)
  then show ?thesis using env_inv_wf_nfa [of env] by (auto simp: env_inv_def)
qed

text \<open>C37.
  What the parser returns on such an input is a well-formed automaton: it fits the array of
  states, every pointer leads to a state of the automaton, a state with a character or a
  class has a successor, and the sets of the classes are sound.
\<close>

theorem thompson_wf:
  assumes "safe_rules macs ls" and "thompson n (init_env macs unix ls) = Some (Inr (nfa, start, env))"
  shows "wf_nfa nfa \<and> start < length nfa"
  using assms by (rule thompson_wf_nfa)

theorem thompson_wf_witness: "wf_nfa two_rules_nfa"
proof -
  obtain env where "thompson 30 two_rules = Some (Inr (two_rules_nfa, 0, env))"
    using two_rules_run by (auto simp: outcome_def bind_run_Inr_iff)
  then show ?thesis unfolding two_rules_def using thompson_wf [OF safe_two_rules] by blast
qed

text \<open>C38.
  A macro expands to its text: after \<open>new_macro\<close> was given a line with a name, blanks, a text
  without blanks and trailing blanks, \<open>get_macro\<close> on the name in braces yields that text, and
  leaves what follows the closing brace to be read after it.  An older macro of the same name
  is hidden.
\<close>

theorem new_macro_expands:
  assumes "tab_inv (hash_name macro_hash macro_name) t as" and "a \<notin> set as"
    and "plain_text nm" and "length nm < MAC_NAME_MAX" and "CHR ''}'' \<notin> set nm"
    and "plain_text body" and "body \<noteq> []" and "length body < MAC_TEXT_MAX"
    and "sp \<noteq> []" and "\<forall>c\<in>set sp. isspace (sch c)" and "\<forall>c\<in>set trail. isspace (sch c)"
  shows "get_macro (macro_lookup (Some (new_macro (Some t) a (nm @ sp @ body @ trail))))
      (CHR ''{'' # nm @ CHR ''}'' # rest) = Inr (rest, body)"
proof -
  let ?d = "nm @ sp @ body @ trail"
  note m = macro_def_plain [OF assms(3,4,6-11)]
  have nul: "NUL \<notin> set nm" using assms(3) by (auto simp: plain_text_def)
  have "macro_lookup (Some (new_macro (Some t) a ?d)) nm = Some (macro_def ?d)"
    using new_macro_lookup [OF assms(1,2) nul, of ?d] m(1) by simp
  moreover have "\<And>c. c \<in> set nm \<Longrightarrow> c \<noteq> CHR ''}''" using assms(5) by auto
  ultimately show ?thesis using m(2) by (simp add: get_macro_def Let_def takeWhile_append dropWhile_append)
qed

theorem new_macro_expands_witness:
  "get_macro (macro_lookup (Some (new_macro (Some (hash_make_tab 31 Map.empty)) 0 ''D  [0-9] '')))
     ''{D}+'' = Inr (''+'', ''[0-9]'')"
proof -
  have p: "plain_text ''D''" "plain_text ''[0-9]''"
    "\<forall>c\<in>set ''  ''. isspace (sch c)" "\<forall>c\<in>set '' ''. isspace (sch c)"
    unfolding plain_text_def by code_simp+
  show ?thesis
    using new_macro_expands [OF make_tab_inv _ p(1) _ _ p(2) _ _ _ p(3,4), of 0 31 Map.empty "''+''"]
    by (simp add: MAC_NAME_MAX_def MAC_TEXT_MAX_def)
qed

text \<open>
  The text of a macro is cut at its last run of blanks, wherever that is: the loop that is to
  remove the trailing blanks does not see that a text goes on behind them.
\<close>

theorem macro_text_cut:
  "macro_text (macro_def ''D ab cd'') = Some ''ab'' \<and> macro_text (macro_def ''S \"a b c\"'') = Some ''\"a b''"
  by code_simp







text \<open>Three such inputs: no rules at all, an alternative without a second part, and a rule that is
  only an anchor.\<close>

theorem thompson_null_pointers:
  "outcome (thompson 9 (init_env (\<lambda>_. None) False [])) = Some (Inl Null_deref) \<and>
   outcome (thompson 12 (init_env (\<lambda>_. None) False [(1, ''a|'')])) = Some (Inl Null_deref) \<and>
   outcome (thompson 9 (init_env (\<lambda>_. None) False [(1, ''$'')])) = Some (Inl Null_deref)"
  by (intro conjI) code_simp+

text \<open>
  The escape for the character 127 gives the value \<open>- 1\<close>, which is the label of an epsilon
  edge: the comment of \<open>sys_esc\<close> takes the two for equal.  The rule matches the empty string.
\<close>

theorem thompson_delete_is_epsilon:
  "outcome (thompson 12 (init_env (\<lambda>_. None) False [(1, [CHR 0x5C, CHR ''^'', CHR ''?''])])) =
     Some (Inr (del_nfa, 0, [(1, 1, [])])) \<and>
   2 \<in> nfa_states del_nfa 0 []"
proof
  show "outcome (thompson 12 (init_env (\<lambda>_. None) False [(1, [CHR 0x5C, CHR ''^'', CHR ''?''])])) =
      Some (Inr (del_nfa, 0, [(1, 1, [])]))"
    by code_simp
  have "(0, 1) \<in> eps_rel del_nfa" "(1, 2) \<in> eps_rel del_nfa"
    by (rule eps_step; simp add: del_nfa_def st_def EPSILON_def)+
  then show "2 \<in> nfa_states del_nfa 0 []"
    by (auto simp: eps_closure_def intro: rtrancl_trans)
qed

text \<open>C40.
  The earlier of two rules does not always win.  The interpreter prefers the accepting state
  with the lowest index, but states that the concatenation gives back are used again, so a
  later rule can end in a state with a lower index: after \<open>d\<close> both rules accept, and the
  action is the one of the second.
\<close>

theorem thompson_inverts_priority:
  "outcome (thompson 30 two_rules) = Some (Inr (two_rules_nfa, 0, [(3, 2, ''y''), (1, 1, ''x'')])) \<and>
   {13, 14} \<subseteq> nfa_states two_rules_nfa 0 [100] \<and> accept (two_rules_nfa ! 14) = Some 1 \<and>
   win_accept two_rules_nfa (nfa_states two_rules_nfa 0 [100]) = Some 3"
proof -
  let ?P = "nfa_states two_rules_nfa 0 [100]"
  have len: "length two_rules_nfa = 15" by (simp add: two_rules_nfa_def)
  have acc: "accept (two_rules_nfa ! 13) = Some 3" "accept (two_rules_nfa ! 14) = Some 1"
    by (simp_all add: two_rules_nfa_def st_def)
  have none: "i < 13 \<Longrightarrow> accept (two_rules_nfa ! i) = None" for i
    by (auto simp: two_rules_nfa_def st_def less_Suc_eq numeral_eq_Suc)
  have sub: "?P \<subseteq> {..<15}" using nfa_states_less [OF wf_two_rules, of 0 "[100]"] by (simp add: len)
  have "acc_states two_rules_nfa ?P = {13, 14}"
  proof (rule equalityI; rule subsetI)
    fix i assume "i \<in> acc_states two_rules_nfa ?P"
    then have "i < 15" "\<not> i < 13" using sub none by (auto simp: acc_states_def)
    then show "i \<in> {13, 14}" by auto
  next
    fix i assume "i \<in> {13, 14::nat}"
    then show "i \<in> acc_states two_rules_nfa ?P" using two_rules_states acc by (auto simp: acc_states_def)
  qed
  then have "winner two_rules_nfa ?P = Some 13" by (simp add: winner_def)
  then show ?thesis using two_rules_run two_rules_states acc by (simp add: win_accept_def)
qed

end
