(* ===== verification/Grammar.thy ===== *)
theory Grammar
  imports BitSet HashTab
begin

text \<open>
  The grammar as \<open>src/compiler/parser/parser.h\<close> declares it: symbols, productions and the
  global state that the parser generators llama (LL(1)) and occs (LALR(1)) share.

  A symbol is an address.  Its name is the key of the bucket at that address in the hash
  table \<open>symtab\<close>; its other fields are \<open>symb a\<close>.  The linked list of the productions of a
  symbol is a HOL list, the newest first; no production is on two lists.  A right-hand side
  is the list of the first \<open>rhs_len\<close> entries of the array \<open>rhs\<close>: the entry behind them is
  null in the code, and every loop over the array stops there.  The sets \<open>first\<close> and \<open>follow\<close>
  of a symbol are \<open>None\<close> as long as the pointer is null.
\<close>

section \<open>Data\<close>

record PRODUCTION_S =
  num :: nat
  rhs :: "nat list"
  lhs :: nat
  non_acts :: nat
  select :: SET_S
  prec :: int

record SYMBOL_S =
  sname :: string
  field :: string
  val :: nat
  used :: nat
  defined :: nat
  sym_lineno :: nat
  action :: "string option"
  productions :: "PRODUCTION_S list"
  first :: "SET_S option"
  follow :: "SET_S option"

record PREC_TAB_S =
  level :: int
  assoc :: int

record parser_env =
  llama :: bool
  symtab :: "string HASH_TAB_S"
  symb :: "nat \<Rightarrow> SYMBOL_S"
  g_terms :: "nat \<Rightarrow> nat option"
  g_precedence :: "nat \<Rightarrow> PREC_TAB_S"
  g_synch :: SET_S
  g_goal_symbol :: "nat option"
  g_currterm :: nat
  g_currnonterm :: nat
  g_curract :: nat
  g_num_productions :: nat

definition MINTERM :: nat where "MINTERM = 1"
definition MINNONTERM :: nat where "MINNONTERM = 256"
definition MINACT :: nat where "MINACT = 512"
definition MAXTERM :: nat where "MAXTERM = MINNONTERM - 2"
definition MAXNONTERM :: nat where "MAXNONTERM = MINACT - 1"
definition MAXPROD :: nat where "MAXPROD = 512"
definition MAXRHS :: nat where "MAXRHS = 31"

text \<open>The token of the end of the input, from \<open>llout.h\<close>.\<close>

definition EOI :: nat where "EOI = 0"

definition ISTERM :: "('a parser_env_scheme) \<Rightarrow> nat \<Rightarrow> bool" where
  "ISTERM e x \<longleftrightarrow> MINTERM \<le> val (symb e x) \<and> val (symb e x) \<le> MAXTERM"

definition ISNONTERM :: "('a parser_env_scheme) \<Rightarrow> nat \<Rightarrow> bool" where
  "ISNONTERM e x \<longleftrightarrow> MINNONTERM \<le> val (symb e x) \<and> val (symb e x) \<le> MAXNONTERM"

definition ISACT :: "('a parser_env_scheme) \<Rightarrow> nat \<Rightarrow> bool" where
  "ISACT e x \<longleftrightarrow> MINACT \<le> val (symb e x)"

text \<open>
  \<open>EPSILON\<close> is the first number that no terminal has.  The counts are computed in unsigned
  arithmetic, so the order of the operations does not matter.
\<close>

definition EPS :: "('a parser_env_scheme) \<Rightarrow> nat" where
  "EPS e = g_currterm e + 1"

definition USED_TERMS :: "('a parser_env_scheme) \<Rightarrow> nat" where
  "USED_TERMS e = g_currterm e + 1 - MINTERM"

definition USED_NONTERMS :: "('a parser_env_scheme) \<Rightarrow> nat" where
  "USED_NONTERMS e = g_currnonterm e + 1 - MINNONTERM"

definition ADJ_VAL :: "nat \<Rightarrow> nat" where
  "ADJ_VAL x = x - MINNONTERM"

text \<open>
  Reading a set through a pointer that may be null.  Where C passes a null set on to \<open>set_op\<close> the
  program ends with status 1 instead; for the grammars of \<open>gram_ok\<close> neither happens.
\<close>

definition set_at :: "SET_S option \<Rightarrow> SET_S res" where
  "set_at p = (case p of None \<Rightarrow> Inl Null_deref | Some s \<Rightarrow> Inr s)"

definition NULLABLE :: "('a parser_env_scheme) \<Rightarrow> nat \<Rightarrow> bool res" where
  "NULLABLE e x =
     (if ISNONTERM e x then bind_res (set_at (first (symb e x))) (\<lambda>s. Inr (SET_MEMBER s (EPS e)))
      else Inr False)"

definition upd_symb :: "nat \<Rightarrow> (SYMBOL_S \<Rightarrow> SYMBOL_S) \<Rightarrow> ('a parser_env_scheme) \<Rightarrow> ('a parser_env_scheme)" where
  "upd_symb a f e = e\<lparr>symb := (symb e)(a := f (symb e a))\<rparr>"

text \<open>
  \<open>hash_print_tab(g_symtab, f, param, 0)\<close> calls \<open>f\<close> on every symbol, slot after slot: the
  walk over the table of \<open>HashTab\<close>, with the state threaded through the calls.
\<close>

fun fold_res :: "(nat \<Rightarrow> 's \<Rightarrow> 's res) \<Rightarrow> nat list \<Rightarrow> 's \<Rightarrow> 's res" where
  "fold_res f [] s = Inr s"
| "fold_res f (a # as) s = bind_res (f a s) (fold_res f as)"

definition each_symbol ::
  "('a parser_env_scheme) \<Rightarrow> (nat \<Rightarrow> 's \<Rightarrow> 's res) \<Rightarrow> 's \<Rightarrow> 's run" where
  "each_symbol e f s =
     (case walk_slots (symtab e) (table (symtab e)) of
        None \<Rightarrow> None
      | Some as \<Rightarrow> Some (fold_res f as s))"

section \<open>Well-formed grammars\<close>

text \<open>
  \<open>syms e\<close> is the list of symbols in the order of the walk.  In a well-formed state every
  symbol has a number of one of the three kinds, only nonterminals have productions and all
  of them have a set \<open>first\<close>, the right-hand sides consist of symbols of the table, and
  \<open>non_acts\<close> counts the symbols that are not actions.
\<close>

definition syms :: "('a parser_env_scheme) \<Rightarrow> nat list" where
  "syms e = (case walk_slots (symtab e) (table (symtab e)) of None \<Rightarrow> [] | Some as \<Rightarrow> as)"

definition kind_ok :: "('a parser_env_scheme) \<Rightarrow> nat \<Rightarrow> bool" where
  "kind_ok e x \<longleftrightarrow>
     MINTERM \<le> val (symb e x) \<and> val (symb e x) \<le> g_currterm e \<or>
     MINNONTERM \<le> val (symb e x) \<and> val (symb e x) \<le> g_currnonterm e \<or>
     MINACT \<le> val (symb e x)"

definition prod_ok :: "('a parser_env_scheme) \<Rightarrow> PRODUCTION_S \<Rightarrow> bool" where
  "prod_ok e p \<longleftrightarrow>
     set (rhs p) \<subseteq> set (syms e) \<and>
     non_acts p = length (filter (\<lambda>x. \<not> ISACT e x) (rhs p))"

definition set_plain :: "SET_S \<Rightarrow> bool" where
  "set_plain s \<longleftrightarrow> set_wf s \<and> compl s = 0"

definition sets_ok :: "('a parser_env_scheme) \<Rightarrow> (SYMBOL_S \<Rightarrow> SET_S option) \<Rightarrow> bool" where
  "sets_ok e f \<longleftrightarrow>
     (\<forall>x\<in>set (syms e). ISNONTERM e x \<longrightarrow> (\<exists>s. f (symb e x) = Some s \<and> set_plain s))"

definition gram_ok :: "('a parser_env_scheme) \<Rightarrow> bool" where
  "gram_ok e \<longleftrightarrow>
     walk_slots (symtab e) (table (symtab e)) \<noteq> None \<and> distinct (syms e) \<and>
     g_currterm e \<le> MAXTERM \<and> g_currnonterm e \<le> MAXNONTERM \<and>
     (\<forall>x\<in>set (syms e). kind_ok e x \<and> (\<forall>p\<in>set (productions (symb e x)). prod_ok e p)) \<and>
     (\<forall>x\<in>set (syms e). \<not> ISNONTERM e x \<longrightarrow> productions (symb e x) = []) \<and>
     sets_ok e first"

text \<open>The members of a set behind a pointer.\<close>

definition elems :: "SET_S option \<Rightarrow> nat set" where
  "elems p = (case p of None \<Rightarrow> {} | Some s \<Rightarrow> members s)"

lemma elems_simps [simp]: "elems None = {}" "elems (Some s) = members s"
  by (simp_all add: elems_def)

lemma set_at_simps [simp]:
  "set_at None = Inl Null_deref" "set_at (Some s) = Inr s"
  by (simp_all add: set_at_def)

lemmas kind_codes = MINTERM_def MINNONTERM_def MINACT_def MAXTERM_def MAXNONTERM_def

lemma kinds_disjoint:
  "ISTERM e x \<Longrightarrow> \<not> ISNONTERM e x" "ISTERM e x \<Longrightarrow> \<not> ISACT e x" "ISNONTERM e x \<Longrightarrow> \<not> ISACT e x"
  by (auto simp: ISTERM_def ISNONTERM_def ISACT_def kind_codes)

lemma act_not: "ISACT e x \<Longrightarrow> \<not> ISTERM e x" "ISACT e x \<Longrightarrow> \<not> ISNONTERM e x"
  using kinds_disjoint [of e x] by blast+

lemma set_plain_simps [simp]:
  "set_plain set_new"
  "set_plain s \<Longrightarrow> legal_bit x \<Longrightarrow> set_plain (SET_ADD s x)"
  "set_plain s \<Longrightarrow> set_plain t \<Longrightarrow> set_plain (SET_UNION s t)"
  "set_plain s \<Longrightarrow> set_plain t \<Longrightarrow> set_plain (SET_ASSIGN s t)"
  "set_plain s \<Longrightarrow> set_plain (SET_REMOVE s x)"
  by (simp_all add: set_plain_def)

lemma set_plain_members [simp]:
  "set_plain s \<Longrightarrow> legal_bit x \<Longrightarrow> members (SET_ADD s x) = insert x (members s)"
  "set_plain s \<Longrightarrow> set_plain t \<Longrightarrow> members (SET_UNION s t) = members s \<union> members t"
  "set_plain s \<Longrightarrow> set_plain t \<Longrightarrow> members (SET_ASSIGN s t) = members t"
  "set_plain s \<Longrightarrow> members (SET_REMOVE s x) = members s - {x}"
  "set_plain s \<Longrightarrow> SET_MEMBER s x \<longleftrightarrow> x \<in> members s"
  by (simp_all add: set_plain_def)

lemma legal_small_bit: "x \<le> 1024 \<Longrightarrow> legal_bit x"
  by (simp add: legal_bit_def)

lemma upd_symb_simps [simp]:
  "symtab (upd_symb a f e) = symtab e" "g_currterm (upd_symb a f e) = g_currterm e"
  "g_currnonterm (upd_symb a f e) = g_currnonterm e" "g_goal_symbol (upd_symb a f e) = g_goal_symbol e"
  "symb (upd_symb a f e) x = (if x = a then f (symb e a) else symb e x)"
  "EPS (upd_symb a f e) = EPS e" "syms (upd_symb a f e) = syms e"
  by (simp_all add: upd_symb_def EPS_def syms_def)

lemma kind_cong:
  "val (symb e' x) = val (symb e x) \<Longrightarrow> ISTERM e' x = ISTERM e x"
  "val (symb e' x) = val (symb e x) \<Longrightarrow> ISNONTERM e' x = ISNONTERM e x"
  "val (symb e' x) = val (symb e x) \<Longrightarrow> ISACT e' x = ISACT e x"
  by (simp_all add: ISTERM_def ISNONTERM_def ISACT_def)

text \<open>
  The passes over the grammar change one field of the symbols: \<open>with_first F e\<close> is the state
  \<open>e\<close> with the sets \<open>F\<close> in the place of the sets \<open>first\<close>.
\<close>

definition with_first :: "(nat \<Rightarrow> SET_S option) \<Rightarrow> ('a parser_env_scheme) \<Rightarrow> ('a parser_env_scheme)" where
  "with_first F e = e\<lparr>symb := \<lambda>x. (symb e x)\<lparr>first := F x\<rparr>\<rparr>"

definition with_follow :: "(nat \<Rightarrow> SET_S option) \<Rightarrow> ('a parser_env_scheme) \<Rightarrow> ('a parser_env_scheme)" where
  "with_follow F e = e\<lparr>symb := \<lambda>x. (symb e x)\<lparr>follow := F x\<rparr>\<rparr>"

lemma with_simps [simp]:
  "symtab (with_first F e) = symtab e" "symtab (with_follow F e) = symtab e"
  "symb (with_first F e) x = (symb e x)\<lparr>first := F x\<rparr>" "symb (with_follow F e) x = (symb e x)\<lparr>follow := F x\<rparr>"
  "g_currterm (with_first F e) = g_currterm e" "g_currterm (with_follow F e) = g_currterm e"
  "g_currnonterm (with_first F e) = g_currnonterm e" "g_currnonterm (with_follow F e) = g_currnonterm e"
  "g_goal_symbol (with_first F e) = g_goal_symbol e" "g_goal_symbol (with_follow F e) = g_goal_symbol e"
  "with_first F (with_first F' e) = with_first F e" "with_follow F (with_follow F' e) = with_follow F e"
  by (simp_all add: with_first_def with_follow_def)

lemma with_kinds [simp]:
  "ISTERM (with_first F e) x = ISTERM e x" "ISTERM (with_follow F e) x = ISTERM e x"
  "ISNONTERM (with_first F e) x = ISNONTERM e x" "ISNONTERM (with_follow F e) x = ISNONTERM e x"
  "ISACT (with_first F e) x = ISACT e x" "ISACT (with_follow F e) x = ISACT e x"
  "kind_ok (with_first F e) x = kind_ok e x" "kind_ok (with_follow F e) x = kind_ok e x"
  "EPS (with_first F e) = EPS e" "EPS (with_follow F e) = EPS e"
  "syms (with_first F e) = syms e" "syms (with_follow F e) = syms e"
  by (simp_all add: ISTERM_def ISNONTERM_def ISACT_def kind_ok_def EPS_def syms_def)

lemma with_prods [simp]:
  "prod_ok (with_first F e) p = prod_ok e p" "prod_ok (with_follow F e) p = prod_ok e p"
  by (simp_all add: prod_ok_def)

lemma with_first_self [simp]: "with_first (\<lambda>x. first (symb e x)) e = e"
  by (simp add: with_first_def)

lemma with_follow_self [simp]: "with_follow (\<lambda>x. follow (symb e x)) e = e"
  by (simp add: with_follow_def)

lemma upd_first_with: "upd_symb a (first_update (\<lambda>_. s)) e = with_first ((\<lambda>x. first (symb e x))(a := s)) e"
  by (auto simp: upd_symb_def with_first_def fun_eq_iff)

lemma upd_follow_with: "upd_symb a (follow_update (\<lambda>_. s)) e = with_follow ((\<lambda>x. follow (symb e x))(a := s)) e"
  by (auto simp: upd_symb_def with_follow_def fun_eq_iff)

lemma gram_ok_with:
  "gram_ok e \<Longrightarrow> sets_ok (with_first F e) first \<Longrightarrow> gram_ok (with_first F e)"
  "gram_ok e \<Longrightarrow> gram_ok (with_follow F e)"
  by (auto simp: gram_ok_def sets_ok_def)

end
