(* ===== verification/First.thy ===== *)
theory First
  imports Grammar
begin

text \<open>
  The FIRST sets of \<open>src/compiler/parser/first.c\<close>.  The static set of \<open>first_closure\<close> and the
  flag \<open>_did_somthing\<close> are threaded through the pass over the symbols with the state.
\<close>

section \<open>The code\<close>

fun scan_rhs :: "('a parser_env_scheme) \<Rightarrow> nat list \<Rightarrow> SET_S \<Rightarrow> SET_S res" where
  "scan_rhs e [] s = Inr s"
| "scan_rhs e (y # ys) s =
     (if ISACT e y then scan_rhs e ys s
      else bind_res
        (if ISTERM e y then Inr (SET_ADD s (val (symb e y)))
         else bind_res (set_at (first (symb e y))) (\<lambda>f. Inr (SET_UNION s f)))
        (\<lambda>s'. bind_res (NULLABLE e y) (\<lambda>b. if b then scan_rhs e ys s' else Inr s')))"

fun scan_prods :: "('a parser_env_scheme) \<Rightarrow> PRODUCTION_S list \<Rightarrow> SET_S \<Rightarrow> SET_S res" where
  "scan_prods e [] s = Inr s"
| "scan_prods e (p # ps) s =
     (if non_acts p = 0 then scan_prods e ps (SET_ADD s (EPS e))
      else bind_res (scan_rhs e (rhs p) s) (scan_prods e ps))"

definition first_closure ::
  "nat \<Rightarrow> SET_S option \<times> bool \<times> ('a parser_env_scheme) \<Rightarrow> (SET_S option \<times> bool \<times> ('a parser_env_scheme)) res" where
  "first_closure x st =
     (case st of (tmp, did, e) \<Rightarrow>
        if \<not> ISNONTERM e x then Inr st
        else bind_res (set_at (first (symb e x))) (\<lambda>f.
          bind_res (scan_prods e (productions (symb e x))
              (SET_ASSIGN (case tmp of None \<Rightarrow> set_new | Some s \<Rightarrow> s) f)) (\<lambda>s.
            if \<not> SET_IS_EQUIV s f
            then Inr (Some s, True, upd_symb x (first_update (\<lambda>_. Some (SET_ASSIGN f s))) e)
            else Inr (Some s, did, e))))"

partial_function (option) first_loop ::
  "SET_S option \<Rightarrow> ('a parser_env_scheme) \<Rightarrow> ('a parser_env_scheme) run" where
  "first_loop tmp e =
     (case each_symbol e first_closure (tmp, False, e) of
        None \<Rightarrow> None
      | Some (Inl a) \<Rightarrow> Some (Inl a)
      | Some (Inr st) \<Rightarrow>
          (case st of (tmp', did, e') \<Rightarrow> if did then first_loop tmp' e' else Some (Inr e')))"

definition first_sets :: "('a parser_env_scheme) \<Rightarrow> ('a parser_env_scheme) run" where
  "first_sets e = first_loop None e"

text \<open>\<open>first_rhs\<close> on the first \<open>len\<close> symbols of a right-hand side.\<close>

fun first_rhs_loop :: "('a parser_env_scheme) \<Rightarrow> SET_S \<Rightarrow> nat list \<Rightarrow> (SET_S \<times> bool) res" where
  "first_rhs_loop e dest [] = Inr (dest, True)"
| "first_rhs_loop e dest (x # xs) =
     (if ISACT e x then first_rhs_loop e dest xs
      else bind_res
        (if ISTERM e x then Inr (SET_ADD dest (val (symb e x)))
         else bind_res (set_at (first (symb e x))) (\<lambda>f. Inr (SET_UNION dest f)))
        (\<lambda>dest'. bind_res (NULLABLE e x)
           (\<lambda>b. if b then first_rhs_loop e dest' xs else Inr (dest', False))))"

definition first_rhs :: "('a parser_env_scheme) \<Rightarrow> SET_S \<Rightarrow> nat list \<Rightarrow> (SET_S \<times> bool) res" where
  "first_rhs e dest xs =
     (if xs = [] then Inr (SET_ADD dest (EPS e), True) else first_rhs_loop e dest xs)"

section \<open>What the code adds\<close>

text \<open>
  \<open>scanF e F ys\<close> are the numbers that scanning \<open>ys\<close> adds when \<open>F\<close> gives the members of the
  sets \<open>first\<close>; \<open>skipF\<close> says that a symbol is passed over.
\<close>

definition firsts :: "('a parser_env_scheme) \<Rightarrow> nat \<Rightarrow> nat set" where
  "firsts e x = elems (first (symb e x))"

definition skipF :: "('a parser_env_scheme) \<Rightarrow> (nat \<Rightarrow> nat set) \<Rightarrow> nat \<Rightarrow> bool" where
  "skipF e F y \<longleftrightarrow> ISACT e y \<or> ISNONTERM e y \<and> EPS e \<in> F y"

fun scanF :: "('a parser_env_scheme) \<Rightarrow> (nat \<Rightarrow> nat set) \<Rightarrow> nat list \<Rightarrow> nat set" where
  "scanF e F [] = {}"
| "scanF e F (y # ys) =
     (if ISTERM e y then {val (symb e y)} else if ISNONTERM e y then F y else {}) \<union>
     (if skipF e F y then scanF e F ys else {})"

definition prodF :: "('a parser_env_scheme) \<Rightarrow> (nat \<Rightarrow> nat set) \<Rightarrow> PRODUCTION_S \<Rightarrow> nat set" where
  "prodF e F p = (if non_acts p = 0 then {EPS e} else scanF e F (rhs p))"

definition closF :: "('a parser_env_scheme) \<Rightarrow> (nat \<Rightarrow> nat set) \<Rightarrow> nat \<Rightarrow> nat set" where
  "closF e F x = (\<Union>p\<in>set (productions (symb e x)). prodF e F p)"

lemma kind_cases:
  assumes "kind_ok e y" and "g_currterm e \<le> MAXTERM" and "g_currnonterm e \<le> MAXNONTERM"
  obtains (act) "ISACT e y" "\<not> ISTERM e y" "\<not> ISNONTERM e y"
    | (trm) "ISTERM e y" "\<not> ISACT e y" "\<not> ISNONTERM e y" "val (symb e y) \<le> g_currterm e"
    | (non) "ISNONTERM e y" "\<not> ISACT e y" "\<not> ISTERM e y"
  using assms by (auto simp: kind_ok_def ISACT_def ISTERM_def ISNONTERM_def kind_codes)

lemma gram_kind:
  assumes "gram_ok e" and "y \<in> set (syms e)"
  obtains (act) "ISACT e y" "\<not> ISTERM e y" "\<not> ISNONTERM e y"
    | (trm) "ISTERM e y" "\<not> ISACT e y" "\<not> ISNONTERM e y" "val (symb e y) \<le> g_currterm e"
    | (non) s where "ISNONTERM e y" "\<not> ISACT e y" "\<not> ISTERM e y" "first (symb e y) = Some s" "set_plain s"
proof -
  have k: "kind_ok e y" "g_currterm e \<le> MAXTERM" "g_currnonterm e \<le> MAXNONTERM"
    and s: "ISNONTERM e y \<Longrightarrow> \<exists>s. first (symb e y) = Some s \<and> set_plain s"
    using assms by (auto simp: gram_ok_def sets_ok_def)
  show thesis using k by (cases rule: kind_cases) (use that s in blast)+
qed

lemma gram_rhs:
  "gram_ok e \<Longrightarrow> x \<in> set (syms e) \<Longrightarrow> p \<in> set (productions (symb e x)) \<Longrightarrow> set (rhs p) \<subseteq> set (syms e)"
  by (simp add: gram_ok_def prod_ok_def)

lemma gram_legal:
  assumes "gram_ok e"
  shows "legal_bit (EPS e)" and "ISTERM e y \<Longrightarrow> legal_bit (val (symb e y))"
  using assms by (auto simp: gram_ok_def EPS_def ISTERM_def kind_codes intro!: legal_small_bit)

lemma NULLABLE_effect:
  assumes "gram_ok e" and "y \<in> set (syms e)"
  shows "NULLABLE e y = Inr (ISNONTERM e y \<and> EPS e \<in> firsts e y)"
  using assms by (cases rule: gram_kind) (simp_all add: NULLABLE_def firsts_def)

lemma first_rhs_loop_effect:
  assumes "gram_ok e"
  shows "set ys \<subseteq> set (syms e) \<Longrightarrow> set_plain s \<Longrightarrow>
    \<exists>s'. first_rhs_loop e s ys = Inr (s', \<forall>y\<in>set ys. skipF e (firsts e) y) \<and> set_plain s' \<and>
      members s' = members s \<union> scanF e (firsts e) ys"
proof (induction ys arbitrary: s)
  case (Cons y ys)
  have y: "y \<in> set (syms e)" and ys: "set ys \<subseteq> set (syms e)" using Cons.prems(1) by simp_all
  note N = NULLABLE_effect [OF assms y]
  from assms y show ?case
  proof (cases rule: gram_kind)
    case act
    then show ?thesis using Cons.IH [OF ys Cons.prems(2)] by (simp add: skipF_def)
  next
    case trm
    then show ?thesis using Cons.prems(2) gram_legal(2) [OF assms trm(1)]
      by (simp add: N skipF_def)
  next
    case (non f)
    have p: "set_plain (SET_UNION s f)" using Cons.prems(2) non(5) by simp
    from Cons.IH [OF ys p] Cons.prems(2) non show ?thesis
      by (auto simp: N skipF_def firsts_def)
  qed
qed simp

lemma bind_res_assoc: "bind_res (bind_res m f) g = bind_res m (\<lambda>x. bind_res (f x) g)"
  by (cases m) simp_all

text \<open>The scan of a production in \<open>first_closure\<close> adds what \<open>first_rhs\<close> adds.\<close>

lemma scan_rhs_first_rhs: "scan_rhs e ys s = bind_res (first_rhs_loop e s ys) (\<lambda>r. Inr (fst r))"
proof (induction ys arbitrary: s)
  case (Cons y ys)
  have "bind_res m (\<lambda>b. if b then scan_rhs e ys s' else Inr s') =
      bind_res (bind_res m (\<lambda>b. if b then first_rhs_loop e s' ys else Inr (s', False))) (\<lambda>r. Inr (fst r))" for m s'
    by (cases m) (simp_all add: Cons.IH)
  then show ?case by (simp add: Cons.IH bind_res_assoc)
qed simp

lemma scan_rhs_effect:
  assumes "gram_ok e" and "set ys \<subseteq> set (syms e)" and "set_plain s"
  shows "\<exists>s'. scan_rhs e ys s = Inr s' \<and> set_plain s' \<and> members s' = members s \<union> scanF e (firsts e) ys"
  using first_rhs_loop_effect [OF assms] by (auto simp: scan_rhs_first_rhs)

lemma scan_prods_effect:
  assumes "gram_ok e"
  shows "(\<forall>p\<in>set ps. prod_ok e p) \<Longrightarrow> set_plain s \<Longrightarrow>
    \<exists>s'. scan_prods e ps s = Inr s' \<and> set_plain s' \<and>
      members s' = members s \<union> (\<Union>p\<in>set ps. prodF e (firsts e) p)"
proof (induction ps arbitrary: s)
  case (Cons p ps)
  then have ps: "\<forall>p\<in>set ps. prod_ok e p" and r: "set (rhs p) \<subseteq> set (syms e)"
    by (simp_all add: prod_ok_def)
  obtain s1 where s1: "scan_prods e (p # ps) s = scan_prods e ps s1" "set_plain s1"
    "members s1 = members s \<union> prodF e (firsts e) p"
  proof (cases "non_acts p = 0")
    case True
    then show thesis
      using that [of "SET_ADD s (EPS e)"] Cons.prems(2) gram_legal(1) [OF assms] by (simp add: prodF_def)
  next
    case False
    then show thesis
      using that scan_rhs_effect [OF assms r Cons.prems(2)] by (auto simp: prodF_def)
  qed
  with Cons.IH [OF ps s1(2)] show ?case by (auto simp: Un_assoc)
qed simp

lemma first_rhs_effect:
  assumes "gram_ok e" and "set ys \<subseteq> set (syms e)" and "set_plain s"
  shows "\<exists>s'. first_rhs e s ys = Inr (s', \<forall>y\<in>set ys. skipF e (firsts e) y) \<and> set_plain s' \<and>
      members s' = members s \<union> (if ys = [] then {EPS e} else scanF e (firsts e) ys)"
  using first_rhs_loop_effect [OF assms] assms(3) gram_legal(1) [OF assms(1)]
  by (auto simp: first_rhs_def)

section \<open>One pass\<close>

definition stepF :: "('a parser_env_scheme) \<Rightarrow> nat \<Rightarrow> (nat \<Rightarrow> nat set) \<Rightarrow> nat \<Rightarrow> nat set" where
  "stepF e x F = (if ISNONTERM e x then F(x := F x \<union> closF e F x) else F)"

lemma skipF_with [simp]: "skipF (with_first G e) F y = skipF e F y"
  by (simp add: skipF_def)

lemma scanF_with [simp]: "scanF (with_first G e) F ys = scanF e F ys"
  by (induction ys) simp_all

lemma stepF_with [simp]: "stepF (with_first G e) x F = stepF e x F"
  by (simp add: stepF_def closF_def prodF_def [abs_def])

lemma firsts_with: "firsts (with_first G e) = (\<lambda>x. elems (G x))"
  by (simp add: firsts_def fun_eq_iff)

lemma stepF_mono: "F \<le> stepF e x F"
  by (auto simp: stepF_def le_fun_def)

definition tmp_ok :: "SET_S option \<Rightarrow> bool" where
  "tmp_ok tmp \<longleftrightarrow> (\<forall>s. tmp = Some s \<longrightarrow> set_plain s)"

lemma first_closure_effect:
  assumes ok: "gram_ok e" and x: "x \<in> set (syms e)" and tmp: "tmp_ok tmp"
  shows "\<exists>tmp' G. first_closure x (tmp, did, e) =
      Inr (tmp', did \<or> stepF e x (firsts e) \<noteq> firsts e, with_first G e) \<and>
    tmp_ok tmp' \<and> gram_ok (with_first G e) \<and> firsts (with_first G e) = stepF e x (firsts e)"
proof (cases "ISNONTERM e x")
  case False
  then show ?thesis
    using tmp ok by (intro exI [of _ tmp] exI [of _ "\<lambda>x. first (symb e x)"]) (simp add: first_closure_def stepF_def)
next
  case True
  let ?F = "firsts e"
  obtain f where f: "first (symb e x) = Some f" "set_plain f"
    using ok x True by (auto simp: gram_ok_def sets_ok_def)
  let ?s0 = "SET_ASSIGN (case tmp of None \<Rightarrow> set_new | Some s \<Rightarrow> s) f"
  have s0: "set_plain ?s0" "members ?s0 = members f"
    using tmp f(2) by (auto simp: tmp_ok_def split: option.split)
  have "\<forall>p\<in>set (productions (symb e x)). prod_ok e p" using ok x by (simp add: gram_ok_def)
  from scan_prods_effect [OF ok this s0(1)] obtain s where
    s: "scan_prods e (productions (symb e x)) ?s0 = Inr s" "set_plain s"
    "members s = ?F x \<union> closF e ?F x"
    using s0(2) f(1) by (auto simp: closF_def firsts_def)
  have run: "first_closure x (tmp, did, e) = (if members s = members f then Inr (Some s, did, e)
      else Inr (Some s, True, upd_symb x (first_update (\<lambda>_. Some (SET_ASSIGN f s))) e))"
    using True f(1) s(1) by (simp add: first_closure_def)
  have Fx: "members f = ?F x" using f(1) by (simp add: firsts_def)
  show ?thesis
  proof (cases "members s = members f")
    case same: True
    then have "stepF e x ?F = ?F" using s(3) True Fx by (simp add: stepF_def fun_upd_idem)
    with run same s(2) ok show ?thesis
      by (intro exI [of _ "Some s"] exI [of _ "\<lambda>x. first (symb e x)"]) (simp add: tmp_ok_def)
  next
    case other: False
    let ?G = "(\<lambda>x. first (symb e x))(x := Some (SET_ASSIGN f s))"
    have st: "stepF e x ?F = (\<lambda>y. elems (?G y))"
      using True s(2,3) f(2) by (auto simp: stepF_def firsts_def fun_eq_iff)
    moreover have "?F \<noteq> (\<lambda>y. elems (?G y))" using other s(2) f(2) Fx by (auto simp: fun_eq_iff dest: spec [of _ x])
    moreover have "gram_ok (with_first ?G e)"
      using ok s(2) f(2) by (auto intro!: gram_ok_with(1) simp: gram_ok_def sets_ok_def)
    ultimately show ?thesis
      using run other s(2)
      by (intro exI [of _ "Some s"] exI [of _ ?G]) (simp add: upd_first_with tmp_ok_def firsts_with eq_commute)
  qed
qed

fun passF :: "('a parser_env_scheme) \<Rightarrow> nat list \<Rightarrow> (nat \<Rightarrow> nat set) \<Rightarrow> nat \<Rightarrow> nat set" where
  "passF e [] F = F"
| "passF e (x # xs) F = passF e xs (stepF e x F)"

lemma passF_with [simp]: "passF (with_first G e) xs F = passF e xs F"
  by (induction xs arbitrary: F) simp_all

lemma passF_mono: "F \<le> passF e xs F"
  by (induction xs arbitrary: F) (auto intro: order_trans [OF stepF_mono])

lemma passF_fixed: "passF e xs F = F \<Longrightarrow> x \<in> set xs \<Longrightarrow> stepF e x F = F"
proof (induction xs)
  case (Cons a xs)
  have "stepF e a F \<le> F" using passF_mono [of "stepF e a F" e xs] Cons.prems(1) by simp
  then have "stepF e a F = F" using stepF_mono [of F e a] by simp
  with Cons show ?case by auto
qed simp

lemma first_pass_effect:
  assumes "set xs \<subseteq> set (syms e)"
  shows "gram_ok e \<Longrightarrow> tmp_ok tmp \<Longrightarrow>
    \<exists>tmp' G. fold_res first_closure xs (tmp, did, e) =
      Inr (tmp', did \<or> passF e xs (firsts e) \<noteq> firsts e, with_first G e) \<and>
    tmp_ok tmp' \<and> gram_ok (with_first G e) \<and> firsts (with_first G e) = passF e xs (firsts e)"
  using assms
proof (induction xs arbitrary: tmp did e)
  case Nil
  then show ?case by (intro exI [of _ tmp] exI [of _ "\<lambda>x. first (symb e x)"]) simp
next
  case (Cons x xs)
  let ?F = "firsts e" and ?F1 = "stepF e x (firsts e)"
  have x: "x \<in> set (syms e)" using Cons.prems(3) by simp
  obtain tmp1 G1 where 1: "first_closure x (tmp, did, e) = Inr (tmp1, did \<or> ?F1 \<noteq> ?F, with_first G1 e)"
    "tmp_ok tmp1" "gram_ok (with_first G1 e)" "firsts (with_first G1 e) = ?F1"
    using first_closure_effect [OF Cons.prems(1) x Cons.prems(2), of did] by blast
  have "set xs \<subseteq> set (syms (with_first G1 e))" using Cons.prems(3) by simp
  from Cons.IH [OF 1(3,2) this, of "did \<or> ?F1 \<noteq> ?F"] obtain tmp2 G2 where
    2: "fold_res first_closure xs (tmp1, did \<or> ?F1 \<noteq> ?F, with_first G1 e) =
      Inr (tmp2, did \<or> ?F1 \<noteq> ?F \<or> passF e xs ?F1 \<noteq> ?F1, with_first G2 e)"
    "tmp_ok tmp2" "gram_ok (with_first G2 e)" "firsts (with_first G2 e) = passF e xs ?F1"
    by (auto simp: 1(4))
  have "passF e xs ?F1 = ?F \<Longrightarrow> ?F1 = ?F"
    using passF_mono [of ?F1 e xs] stepF_mono [of ?F e x] by simp
  then have flag: "(did \<or> ?F1 \<noteq> ?F \<or> passF e xs ?F1 \<noteq> ?F1) = (did \<or> passF e xs ?F1 \<noteq> ?F)" by metis
  have "fold_res first_closure (x # xs) (tmp, did, e) =
      Inr (tmp2, did \<or> passF e xs ?F1 \<noteq> ?F, with_first G2 e)"
    by (simp only: fold_res.simps 1(1) bind_res_simps 2(1) flag)
  with 2(2-4) show ?case by (intro exI [of _ tmp2] exI [of _ G2]) simp
qed

section \<open>The least sets closed under the rules of the code\<close>

text \<open>
  \<open>code_first e x t\<close>: the rules in the comment of \<open>first_closure\<close> put \<open>t\<close> into the set of \<open>x\<close>.
\<close>

inductive code_first :: "('a parser_env_scheme) \<Rightarrow> nat \<Rightarrow> nat \<Rightarrow> bool" for e where
  empty_prod: "x \<in> set (syms e) \<Longrightarrow> ISNONTERM e x \<Longrightarrow> p \<in> set (productions (symb e x)) \<Longrightarrow> non_acts p = 0 \<Longrightarrow>
    code_first e x (EPS e)"
| shifts: "x \<in> set (syms e) \<Longrightarrow> ISNONTERM e x \<Longrightarrow> p \<in> set (productions (symb e x)) \<Longrightarrow> non_acts p \<noteq> 0 \<Longrightarrow>
    rhs p = as @ y # bs \<Longrightarrow> \<forall>a\<in>set as. ISACT e a \<or> ISNONTERM e a \<and> code_first e a (EPS e) \<Longrightarrow>
    ISTERM e y \<Longrightarrow> code_first e x (val (symb e y))"
| descends: "x \<in> set (syms e) \<Longrightarrow> ISNONTERM e x \<Longrightarrow> p \<in> set (productions (symb e x)) \<Longrightarrow> non_acts p \<noteq> 0 \<Longrightarrow>
    rhs p = as @ y # bs \<Longrightarrow> \<forall>a\<in>set as. ISACT e a \<or> ISNONTERM e a \<and> code_first e a (EPS e) \<Longrightarrow>
    ISNONTERM e y \<Longrightarrow> code_first e y t \<Longrightarrow> code_first e x t"

definition CF :: "('a parser_env_scheme) \<Rightarrow> nat \<Rightarrow> nat set" where
  "CF e x = {t. code_first e x t}"

lemma scanF_iff:
  "t \<in> scanF e F ys \<longleftrightarrow>
     (\<exists>as y bs. ys = as @ y # bs \<and> (\<forall>a\<in>set as. skipF e F a) \<and>
        (ISTERM e y \<and> t = val (symb e y) \<or> ISNONTERM e y \<and> t \<in> F y))"
proof (induction ys)
  case (Cons z ys)
  show ?case (is "?L \<longleftrightarrow> ?R")
  proof
    assume ?L
    then consider "ISTERM e z \<and> t = val (symb e z) \<or> ISNONTERM e z \<and> t \<in> F z"
      | "skipF e F z" "t \<in> scanF e F ys"
      by (auto split: if_splits)
    then show ?R
    proof cases
      case 1
      then show ?thesis by (intro exI [of _ "[]"]) simp
    next
      case 2
      from 2(2) obtain as y bs where "ys = as @ y # bs" "\<forall>a\<in>set as. skipF e F a"
        "ISTERM e y \<and> t = val (symb e y) \<or> ISNONTERM e y \<and> t \<in> F y"
        unfolding Cons.IH by blast
      with 2(1) show ?thesis by (intro exI [of _ "z # as"] exI [of _ y] exI [of _ bs]) simp
    qed
  next
    assume ?R
    then obtain as y bs where r: "z # ys = as @ y # bs" "\<forall>a\<in>set as. skipF e F a"
      "ISTERM e y \<and> t = val (symb e y) \<or> ISNONTERM e y \<and> t \<in> F y"
      by blast
    show ?L
    proof (cases as)
      case Nil
      with r show ?thesis using kinds_disjoint(1) [of e y] by auto
    next
      case (Cons a as')
      with r have "t \<in> scanF e F ys" unfolding Cons.IH by auto
      with Cons r show ?thesis by auto
    qed
  qed
qed simp

lemma closF_code_first: "x \<in> set (syms e) \<Longrightarrow> ISNONTERM e x \<Longrightarrow> closF e (CF e) x \<subseteq> CF e x"
  by (auto simp: closF_def prodF_def CF_def scanF_iff skipF_def split: if_splits
      intro: code_first.intros)

lemma closFI: "p \<in> set (productions (symb e x)) \<Longrightarrow> t \<in> prodF e F p \<Longrightarrow> t \<in> closF e F x"
  by (auto simp: closF_def)

lemma skipF_mono: "F \<le> G \<Longrightarrow> skipF e F a \<Longrightarrow> skipF e G a"
  by (auto simp: skipF_def le_fun_def)

lemma closF_mono: "F \<le> G \<Longrightarrow> closF e F x \<subseteq> closF e G x"
proof -
  assume "F \<le> G"
  then have "scanF e F ys \<subseteq> scanF e G ys" for ys
  proof (induction ys)
    case (Cons y ys)
    have "F y \<subseteq> G y" using \<open>F \<le> G\<close> by (simp add: le_fun_def)
    moreover have "skipF e F y \<Longrightarrow> skipF e G y" using \<open>F \<le> G\<close> by (rule skipF_mono)
    ultimately show ?case using Cons.IH [OF \<open>F \<le> G\<close>] by auto
  qed simp
  then show ?thesis by (auto simp: closF_def prodF_def)
qed

lemma passF_le_CF: "set xs \<subseteq> set (syms e) \<Longrightarrow> F \<le> CF e \<Longrightarrow> passF e xs F \<le> CF e"
proof (induction xs arbitrary: F)
  case (Cons x xs)
  have "stepF e x F \<le> CF e"
    using Cons.prems closF_mono [OF Cons.prems(2), of e x] closF_code_first [of x e]
    by (auto simp: stepF_def le_fun_def)
  with Cons show ?case by simp
qed simp

lemma CF_least:
  assumes "\<And>x. x \<in> set (syms e) \<Longrightarrow> ISNONTERM e x \<Longrightarrow> closF e F x \<subseteq> F x"
  shows "CF e \<le> F"
proof -
  have "code_first e x t \<Longrightarrow> t \<in> F x" for x t
  proof (induction rule: code_first.induct)
    case (empty_prod x p)
    then show ?case using assms [of x] closFI [of p e x "EPS e" F] by (auto simp: prodF_def)
  next
    case (shifts x p as y bs)
    then have "val (symb e y) \<in> scanF e F (rhs p)" unfolding scanF_iff by (auto simp: skipF_def)
    with shifts show ?case using assms [of x] closFI [of p e x _ F] by (auto simp: prodF_def)
  next
    case (descends x p as y bs t)
    then have "t \<in> scanF e F (rhs p)" unfolding scanF_iff by (auto simp: skipF_def)
    with descends show ?case using assms [of x] closFI [of p e x _ F] by (auto simp: prodF_def)
  qed
  then show ?thesis by (auto simp: CF_def le_fun_def)
qed

lemma CF_range:
  assumes "gram_ok e"
  shows "CF e x \<subseteq> {..EPS e}"
proof -
  have "t \<le> EPS e" if "code_first e x t" for x t
    using that
  proof (induction rule: code_first.induct)
    case (shifts x p as y bs)
    then have "y \<in> set (syms e)" using gram_rhs [OF assms, of x p] by simp
    with assms show ?case by (rule gram_kind) (use shifts in \<open>auto simp: EPS_def kinds_disjoint\<close>)
  qed simp_all
  then show ?thesis by (auto simp: CF_def)
qed

lemma CF_symbols: "t \<in> CF e x \<Longrightarrow> x \<in> set (syms e)"
  by (auto simp: CF_def elim: code_first.cases)

section \<open>The loop ends\<close>

definition missing :: "('a parser_env_scheme) \<Rightarrow> (nat \<Rightarrow> nat set) \<Rightarrow> nat" where
  "missing e F = card {(x, t). x \<in> set (syms e) \<and> t \<le> EPS e \<and> t \<notin> F x}"

lemma missing_less:
  assumes "F \<le> G" and "F \<noteq> G" and "\<And>x t. t \<in> G x \<Longrightarrow> x \<in> set (syms e) \<and> t \<le> EPS e"
  shows "missing e G < missing e F"
proof -
  let ?M = "\<lambda>H. {(x, t). x \<in> set (syms e) \<and> t \<le> EPS e \<and> t \<notin> H x}"
  have fin: "finite (?M F)"
    by (rule finite_subset [of _ "set (syms e) \<times> {..EPS e}"]) auto
  obtain x t where xt: "t \<in> G x" "t \<notin> F x" using assms(1,2) by (auto simp: le_fun_def fun_eq_iff)
  then have "x \<in> set (syms e)" "t \<le> EPS e" using assms(3) by simp_all
  with xt have "(x, t) \<in> ?M F - ?M G" by auto
  moreover have "?M G \<subseteq> ?M F" using assms(1) by (auto simp: le_fun_def)
  ultimately show ?thesis unfolding missing_def by (intro psubset_card_mono fin) blast
qed

lemma each_symbol_syms: "gram_ok e \<Longrightarrow> each_symbol e f s = Some (fold_res f (syms e) s)"
  by (auto simp: each_symbol_def gram_ok_def syms_def)

lemma CF_with [simp]: "CF (with_first G e) = CF e"
proof -
  have "closF (with_first G e) F x = closF e F x" for F x
    by (simp add: closF_def prodF_def [abs_def])
  note c = this
  have "CF (with_first G e) \<le> CF e" by (rule CF_least) (simp add: c closF_code_first)
  moreover have "CF e \<le> CF (with_first G e)"
    by (rule CF_least) (use closF_code_first [of _ "with_first G e"] in \<open>simp add: c\<close>)
  ultimately show ?thesis by simp
qed

lemma missing_with [simp]: "missing (with_first G e) F = missing e F"
  by (simp add: missing_def)

lemma first_loop_effect:
  "gram_ok e \<Longrightarrow> tmp_ok tmp \<Longrightarrow> firsts e \<le> CF e \<Longrightarrow>
    \<exists>G. first_loop tmp e = Some (Inr (with_first G e)) \<and> gram_ok (with_first G e) \<and>
      firsts (with_first G e) = CF e"
proof (induction "missing e (firsts e)" arbitrary: tmp e rule: less_induct)
  case less
  let ?F = "firsts e" and ?P = "passF e (syms e) (firsts e)"
  obtain tmp1 G1 where 1:
    "fold_res first_closure (syms e) (tmp, False, e) = Inr (tmp1, ?P \<noteq> ?F, with_first G1 e)"
    "tmp_ok tmp1" "gram_ok (with_first G1 e)" "firsts (with_first G1 e) = ?P"
    using first_pass_effect [OF subset_refl less.prems(1,2), of False] by auto
  have run: "first_loop tmp e = (if ?P \<noteq> ?F then first_loop tmp1 (with_first G1 e)
      else Some (Inr (with_first G1 e)))"
    by (simp add: first_loop.simps [of tmp e] each_symbol_syms [OF less.prems(1)] 1(1))
  have le: "?P \<le> CF e" using less.prems(3) by (intro passF_le_CF) simp_all
  have bound: "t \<in> ?P x \<Longrightarrow> x \<in> set (syms e) \<and> t \<le> EPS e" for x t
    using le CF_symbols [of t e x] CF_range [OF less.prems(1), of x] by (auto simp: le_fun_def)
  show ?case
  proof (cases "?P = ?F")
    case True
    have "closF e ?F x \<subseteq> ?F x" if "x \<in> set (syms e)" "ISNONTERM e x" for x
      using passF_fixed [OF True that(1), THEN fun_cong, of x] that(2) by (auto simp: stepF_def)
    then have "CF e \<le> ?F" by (rule CF_least)
    with less.prems(3) True run 1(3,4) show ?thesis by (intro exI [of _ G1]) simp
  next
    case False
    have "missing (with_first G1 e) (firsts (with_first G1 e)) < missing e ?F"
      using missing_less [of ?F ?P e] passF_mono [of ?F e "syms e"] False bound by (simp add: 1(4))
    from less.hyps [OF this 1(3,2)] le obtain G where
      "first_loop tmp1 (with_first G1 e) = Some (Inr (with_first G e))"
      "gram_ok (with_first G e)" "firsts (with_first G e) = CF e"
      by (auto simp: 1(4))
    with run False show ?thesis by auto
  qed
qed

lemma first_sets_effect:
  assumes "gram_ok e" and "\<And>x. firsts e x = {}"
  shows "\<exists>G. first_sets e = Some (Inr (with_first G e)) \<and> gram_ok (with_first G e) \<and>
    firsts (with_first G e) = CF e"
  using first_loop_effect [of e None] assms by (simp add: first_sets_def tmp_ok_def le_fun_def)

end
