(* ===== verification/Follow.thy ===== *)
theory Follow
  imports First
begin

text \<open>
  The FOLLOW sets of \<open>src/compiler/parser/llfollow.c\<close>: an initial pass over the symbols,
  passes of \<open>follow_closure\<close> until nothing changes, and a pass that takes the epsilon out.
\<close>

section \<open>The code\<close>

text \<open>The loop over the symbols behind \<open>x\<close>, on the set of \<open>x\<close>.\<close>

fun init_tail :: "('a parser_env_scheme) \<Rightarrow> nat list \<Rightarrow> SET_S option \<Rightarrow> SET_S option res" where
  "init_tail e [] s = Inr s"
| "init_tail e (y # ys) s =
     (if ISACT e y then init_tail e ys s
      else if ISTERM e y then bind_res (set_at s) (\<lambda>d. Inr (Some (SET_ADD d (val (symb e y)))))
      else bind_res (set_at s) (\<lambda>d. bind_res (set_at (first (symb e y))) (\<lambda>f.
        bind_res (NULLABLE e y) (\<lambda>b.
          if b then init_tail e ys (Some (SET_UNION d f)) else Inr (Some (SET_UNION d f))))))"

fun init_rhs :: "nat list \<Rightarrow> ('a parser_env_scheme) \<Rightarrow> ('a parser_env_scheme) res" where
  "init_rhs [] e = Inr e"
| "init_rhs (x # xs) e =
     (if ISNONTERM e x
      then bind_res (init_tail e xs (follow (symb e x))) (\<lambda>s.
        init_rhs xs (upd_symb x (follow_update (\<lambda>_. s)) e))
      else init_rhs xs e)"

fun init_prods :: "PRODUCTION_S list \<Rightarrow> ('a parser_env_scheme) \<Rightarrow> ('a parser_env_scheme) res" where
  "init_prods [] e = Inr e"
| "init_prods (p # ps) e = bind_res (init_rhs (rhs p) e) (init_prods ps)"

definition follow_init :: "nat \<Rightarrow> ('a parser_env_scheme) \<Rightarrow> ('a parser_env_scheme) res" where
  "follow_init x e =
     (if \<not> ISNONTERM e x then Inr e
      else bind_res
        (if g_goal_symbol e = Some x
         then bind_res (set_at (follow (symb e x))) (\<lambda>s.
           Inr (upd_symb x (follow_update (\<lambda>_. Some (SET_ADD s EOI))) e))
         else Inr e)
        (\<lambda>e'. init_prods (productions (symb e' x)) e'))"

text \<open>The loop of \<open>follow_closure\<close> runs through a right-hand side from its end.\<close>

fun closure_rhs :: "nat \<Rightarrow> nat list \<Rightarrow> bool \<times> ('a parser_env_scheme) \<Rightarrow> (bool \<times> ('a parser_env_scheme)) res" where
  "closure_rhs x [] st = Inr st"
| "closure_rhs x (y # ys) st =
     (case st of (did, e) \<Rightarrow>
        if ISACT e y then closure_rhs x ys st
        else if ISTERM e y then Inr st
        else bind_res (set_subset (follow (symb e y)) (follow (symb e x))) (\<lambda>sub.
          bind_res
            (if \<not> sub
             then bind_res (set_at (follow (symb e y))) (\<lambda>d. bind_res (set_at (follow (symb e x))) (\<lambda>s.
               Inr (True, upd_symb y (follow_update (\<lambda>_. Some (SET_UNION d s))) e)))
             else Inr st)
            (\<lambda>st'. bind_res (NULLABLE (snd st') y) (\<lambda>b.
               if b then closure_rhs x ys st' else Inr st'))))"

fun closure_prods :: "nat \<Rightarrow> PRODUCTION_S list \<Rightarrow> bool \<times> ('a parser_env_scheme) \<Rightarrow> (bool \<times> ('a parser_env_scheme)) res" where
  "closure_prods x [] st = Inr st"
| "closure_prods x (p # ps) st = bind_res (closure_rhs x (rev (rhs p)) st) (closure_prods x ps)"

definition follow_closure :: "nat \<Rightarrow> bool \<times> ('a parser_env_scheme) \<Rightarrow> (bool \<times> ('a parser_env_scheme)) res" where
  "follow_closure x st =
     (case st of (did, e) \<Rightarrow>
        if ISACT e x \<or> ISTERM e x then Inr st else closure_prods x (productions (symb e x)) st)"

definition remove_epsilon :: "nat \<Rightarrow> ('a parser_env_scheme) \<Rightarrow> ('a parser_env_scheme) res" where
  "remove_epsilon x e =
     (if ISNONTERM e x
      then bind_res (set_at (follow (symb e x))) (\<lambda>s.
        Inr (upd_symb x (follow_update (\<lambda>_. Some (SET_REMOVE s (EPS e)))) e))
      else Inr e)"

partial_function (option) follow_loop :: "('a parser_env_scheme) \<Rightarrow> ('a parser_env_scheme) run" where
  "follow_loop e =
     (case each_symbol e follow_closure (False, e) of
        None \<Rightarrow> None
      | Some (Inl a) \<Rightarrow> Some (Inl a)
      | Some (Inr st) \<Rightarrow> (case st of (did, e') \<Rightarrow> if did then follow_loop e' else Some (Inr e')))"

definition follow_sets :: "('a parser_env_scheme) \<Rightarrow> ('a parser_env_scheme) run" where
  "follow_sets e =
     bind_run (each_symbol e follow_init e) (\<lambda>e1.
     bind_run (follow_loop e1) (\<lambda>e2. each_symbol e2 remove_epsilon e2))"

section \<open>The initial pass\<close>

definition follow_ok :: "('a parser_env_scheme) \<Rightarrow> bool" where
  "follow_ok e \<longleftrightarrow> gram_ok e \<and> sets_ok e follow"

definition follows :: "('a parser_env_scheme) \<Rightarrow> nat \<Rightarrow> nat set" where
  "follows e x = elems (follow (symb e x))"

lemma firsts_with_follow [simp]: "firsts (with_follow G e) = firsts e"
  by (simp add: firsts_def fun_eq_iff)

lemma follows_with: "follows (with_follow G e) = (\<lambda>x. elems (G x))"
  by (simp add: follows_def fun_eq_iff)

lemma scanF_follow [simp]:
  "skipF (with_follow G e) F y = skipF e F y" "scanF (with_follow G e) F ys = scanF e F ys"
  by (simp add: skipF_def, induction ys, simp_all add: skipF_def)

lemma follow_ok_update:
  assumes "follow_ok e" and "set_plain s"
  shows "follow_ok (with_follow ((\<lambda>x. follow (symb e x))(a := Some s)) e)"
  using assms by (auto simp: follow_ok_def gram_ok_with sets_ok_def)

lemma follow_ok_set:
  assumes "follow_ok e" and "x \<in> set (syms e)" and "ISNONTERM e x"
  obtains s where "follow (symb e x) = Some s" "set_plain s"
  using assms by (auto simp: follow_ok_def sets_ok_def)

lemma init_tail_effect:
  assumes "gram_ok e"
  shows "set ys \<subseteq> set (syms e) \<Longrightarrow> set_plain s \<Longrightarrow>
    \<exists>s'. init_tail e ys (Some s) = Inr (Some s') \<and> set_plain s' \<and>
      members s' = members s \<union> scanF e (firsts e) ys"
proof (induction ys arbitrary: s)
  case (Cons y ys)
  have y: "y \<in> set (syms e)" and ys: "set ys \<subseteq> set (syms e)" using Cons.prems(1) by simp_all
  note N = NULLABLE_effect [OF assms y]
  from assms y show ?case
  proof (cases rule: gram_kind)
    case act
    then show ?thesis using Cons.IH [OF ys Cons.prems(2)] by (simp add: skipF_def)
  next
    case trm
    then show ?thesis using Cons.prems(2) gram_legal(2) [OF assms trm(1)]
      by (simp add: skipF_def)
  next
    case (non f)
    have p: "set_plain (SET_UNION s f)" using Cons.prems(2) non(5) by simp
    from Cons.IH [OF ys p] Cons.prems(2) non show ?thesis
      by (auto simp: N skipF_def firsts_def)
  qed
qed simp

text \<open>What the initial pass adds to the set of \<open>z\<close>.\<close>

fun rhsI :: "('a parser_env_scheme) \<Rightarrow> nat list \<Rightarrow> nat \<Rightarrow> nat set" where
  "rhsI e [] z = {}"
| "rhsI e (x # xs) z =
     (if x = z \<and> ISNONTERM e x then scanF e (firsts e) xs else {}) \<union> rhsI e xs z"

definition symI :: "('a parser_env_scheme) \<Rightarrow> nat \<Rightarrow> nat \<Rightarrow> nat set" where
  "symI e x z =
     (if ISNONTERM e x
      then (if g_goal_symbol e = Some x \<and> z = x then {EOI} else {}) \<union>
        (\<Union>p\<in>set (productions (symb e x)). rhsI e (rhs p) z)
      else {})"

lemma rhsI_with [simp]: "rhsI (with_follow G e) xs z = rhsI e xs z"
  by (induction xs) auto

lemma symI_with [simp]: "symI (with_follow G e) x z = symI e x z"
  by (simp add: symI_def)

text \<open>
  A step of the passes: it ends in a state that differs in the sets \<open>follow\<close> only, and the
  members of these have changed as \<open>H\<close> says.
\<close>

definition follow_step ::
  "('a parser_env_scheme) \<Rightarrow> ('a parser_env_scheme) res \<Rightarrow> ((nat \<Rightarrow> nat set) \<Rightarrow> nat \<Rightarrow> nat set) \<Rightarrow> bool" where
  "follow_step e r H \<longleftrightarrow>
     (\<exists>G. r = Inr (with_follow G e) \<and> follow_ok (with_follow G e) \<and>
        follows (with_follow G e) = H (follows e))"

lemma follow_step_refl: "follow_ok e \<Longrightarrow> follow_step e (Inr e) (\<lambda>F. F)"
  unfolding follow_step_def by (intro exI [of _ "\<lambda>x. follow (symb e x)"]) simp

lemma follow_step_bind:
  assumes "follow_step e r H"
    and "\<And>G. follow_ok (with_follow G e) \<Longrightarrow> follow_step (with_follow G e) (f (with_follow G e)) H'"
  shows "follow_step e (bind_res r f) (\<lambda>F. H' (H F))"
proof -
  obtain G1 where 1: "r = Inr (with_follow G1 e)" "follow_ok (with_follow G1 e)"
    "follows (with_follow G1 e) = H (follows e)"
    using assms(1) by (auto simp: follow_step_def)
  obtain G2 where "f (with_follow G1 e) = Inr (with_follow G2 e)" "follow_ok (with_follow G2 e)"
    "follows (with_follow G2 e) = H' (H (follows e))"
    using assms(2) [OF 1(2)] by (auto simp: follow_step_def 1(3))
  with 1(1) show ?thesis unfolding follow_step_def by auto
qed

lemma follow_step_cong: "follow_step e r H \<Longrightarrow> H (follows e) = H' (follows e) \<Longrightarrow> follow_step e r H'"
  by (simp add: follow_step_def)

lemma follow_step_set:
  assumes "follow_ok e" and "set_plain s" and "members s = A"
  shows "follow_step e (Inr (upd_symb x (follow_update (\<lambda>_. Some s)) e)) (\<lambda>F. F(x := A))"
  unfolding follow_step_def upd_follow_with
  by (intro exI [of _ "(\<lambda>x. follow (symb e x))(x := Some s)"])
    (use assms follow_ok_update [OF assms(1,2)] in \<open>auto simp: follows_with follows_def fun_eq_iff\<close>)

definition addF :: "(nat \<Rightarrow> nat set) \<Rightarrow> (nat \<Rightarrow> nat set) \<Rightarrow> nat \<Rightarrow> nat set" where
  "addF A F z = F z \<union> A z"

lemma follow_init_rhs:
  "follow_ok e \<Longrightarrow> set xs \<subseteq> set (syms e) \<Longrightarrow> follow_step e (init_rhs xs e) (addF (rhsI e xs))"
proof (induction xs arbitrary: e)
  case Nil
  then show ?case using follow_step_refl [of e] by (auto intro: follow_step_cong simp: addF_def)
next
  case (Cons x xs)
  have xs: "set xs \<subseteq> set (syms e)" and x: "x \<in> set (syms e)" using Cons.prems(2) by simp_all
  show ?case
  proof (cases "ISNONTERM e x")
    case False
    then show ?thesis using Cons.IH [OF Cons.prems(1) xs]
      by (auto intro: follow_step_cong simp: addF_def)
  next
    case True
    obtain d where d: "follow (symb e x) = Some d" "set_plain d"
      using follow_ok_set [OF Cons.prems(1) x True] .
    have ok: "gram_ok e" using Cons.prems(1) by (simp add: follow_ok_def)
    obtain s where s: "init_tail e xs (Some d) = Inr (Some s)" "set_plain s"
      "members s = members d \<union> scanF e (firsts e) xs"
      using init_tail_effect [OF ok xs d(2)] by blast
    have "follow_step e (Inr (upd_symb x (follow_update (\<lambda>_. Some s)) e)) (\<lambda>F. F(x := members s))"
      by (rule follow_step_set [OF Cons.prems(1) s(2) refl])
    then have "follow_step e
        (bind_res (Inr (upd_symb x (follow_update (\<lambda>_. Some s)) e)) (init_rhs xs))
        (\<lambda>F. addF (rhsI e xs) (F(x := members s)))"
    proof (rule follow_step_bind [where H = "\<lambda>F. F(x := members s)"])
      show "follow_step (with_follow G e) (init_rhs xs (with_follow G e)) (addF (rhsI e xs))"
        if "follow_ok (with_follow G e)" for G
        using Cons.IH [OF that] xs by simp
    qed
    then have "follow_step e (init_rhs (x # xs) e) (\<lambda>F. addF (rhsI e xs) (F(x := members s)))"
      using True d(1) s(1) by simp
    then show ?thesis
      by (rule follow_step_cong) (use True d(1) s(3) in \<open>auto simp: addF_def follows_def fun_eq_iff\<close>)
  qed
qed

lemma follow_init_prods:
  "follow_ok e \<Longrightarrow> \<forall>p\<in>set ps. set (rhs p) \<subseteq> set (syms e) \<Longrightarrow>
    follow_step e (init_prods ps e) (addF (\<lambda>z. \<Union>p\<in>set ps. rhsI e (rhs p) z))"
proof (induction ps arbitrary: e)
  case Nil
  then show ?case using follow_step_refl [of e] by (auto intro: follow_step_cong simp: addF_def)
next
  case (Cons p ps)
  have "follow_step e (bind_res (init_rhs (rhs p) e) (init_prods ps))
      (\<lambda>F. addF (\<lambda>z. \<Union>p\<in>set ps. rhsI e (rhs p) z) (addF (rhsI e (rhs p)) F))"
  proof (rule follow_step_bind [where H = "addF (rhsI e (rhs p))"])
    show "follow_step e (init_rhs (rhs p) e) (addF (rhsI e (rhs p)))"
      using Cons.prems by (intro follow_init_rhs) simp_all
    show "follow_step (with_follow G e) (init_prods ps (with_follow G e))
        (addF (\<lambda>z. \<Union>p\<in>set ps. rhsI e (rhs p) z))" if "follow_ok (with_follow G e)" for G
      using Cons.IH [OF that] Cons.prems(2) by simp
  qed
  then have "follow_step e (init_prods (p # ps) e)
      (\<lambda>F. addF (\<lambda>z. \<Union>p\<in>set ps. rhsI e (rhs p) z) (addF (rhsI e (rhs p)) F))"
    by simp
  then show ?case by (rule follow_step_cong) (simp add: addF_def fun_eq_iff Un_ac)
qed

lemma gram_prods:
  "gram_ok e \<Longrightarrow> x \<in> set (syms e) \<Longrightarrow> \<forall>p\<in>set (productions (symb e x)). set (rhs p) \<subseteq> set (syms e)"
  by (simp add: gram_rhs)

lemma follow_init_effect:
  assumes ok: "follow_ok e" and x: "x \<in> set (syms e)"
  shows "follow_step e (follow_init x e) (addF (symI e x))"
proof (cases "ISNONTERM e x")
  case False
  then have "follow_step e (follow_init x e) (\<lambda>F. F)"
    using follow_step_refl [OF ok] by (simp add: follow_init_def)
  then show ?thesis by (rule follow_step_cong) (simp add: False addF_def symI_def fun_eq_iff)
next
  case True
  let ?goal = "if g_goal_symbol e = Some x then {EOI} else {}"
  let ?I = "\<lambda>z. \<Union>p\<in>set (productions (symb e x)). rhsI e (rhs p) z"
  obtain d where d: "follow (symb e x) = Some d" "set_plain d"
    using follow_ok_set [OF ok x True] .
  have legal: "legal_bit EOI" by (simp add: EOI_def legal_bit_def)
  have g: "gram_ok e" using ok by (simp add: follow_ok_def)
  have "follow_step e
      (bind_res
        (if g_goal_symbol e = Some x
         then Inr (upd_symb x (follow_update (\<lambda>_. Some (SET_ADD d EOI))) e) else Inr e)
        (\<lambda>e'. init_prods (productions (symb e' x)) e'))
      (\<lambda>F. addF ?I (addF (\<lambda>z. if z = x then ?goal else {}) F))"
  proof (rule follow_step_bind [where H = "addF (\<lambda>z. if z = x then ?goal else {})"])
    show "follow_step e
      (if g_goal_symbol e = Some x
       then Inr (upd_symb x (follow_update (\<lambda>_. Some (SET_ADD d EOI))) e) else Inr e)
      (addF (\<lambda>z. if z = x then ?goal else {}))"
      using follow_step_set [OF ok set_plain_simps(2) [OF d(2) legal] refl, of x] follow_step_refl [OF ok]
        d legal
      by (auto elim!: follow_step_cong simp: addF_def follows_def fun_eq_iff)
    show "follow_step (with_follow G e) (init_prods (productions (symb (with_follow G e) x)) (with_follow G e))
        (addF ?I)" if "follow_ok (with_follow G e)" for G
      using follow_init_prods [OF that, of "productions (symb e x)"] gram_prods [OF g x] by simp
  qed
  then have "follow_step e (follow_init x e) (\<lambda>F. addF ?I (addF (\<lambda>z. if z = x then ?goal else {}) F))"
    using True d(1) by (simp add: follow_init_def split del: if_split cong: if_cong)
  then show ?thesis
    by (rule follow_step_cong) (use True in \<open>auto simp: addF_def symI_def fun_eq_iff\<close>)
qed

lemma follow_init_pass:
  "follow_ok e \<Longrightarrow> set xs \<subseteq> set (syms e) \<Longrightarrow>
    follow_step e (fold_res follow_init xs e) (addF (\<lambda>z. \<Union>x\<in>set xs. symI e x z))"
proof (induction xs arbitrary: e)
  case Nil
  then show ?case using follow_step_refl [of e] by (auto intro: follow_step_cong simp: addF_def)
next
  case (Cons x xs)
  have "follow_step e (bind_res (follow_init x e) (fold_res follow_init xs))
      (\<lambda>F. addF (\<lambda>z. \<Union>x\<in>set xs. symI e x z) (addF (symI e x) F))"
  proof (rule follow_step_bind [where H = "addF (symI e x)"])
    show "follow_step e (follow_init x e) (addF (symI e x))"
      using Cons.prems by (intro follow_init_effect) simp_all
    show "follow_step (with_follow G e) (fold_res follow_init xs (with_follow G e))
        (addF (\<lambda>z. \<Union>x\<in>set xs. symI e x z))" if "follow_ok (with_follow G e)" for G
      using Cons.IH [OF that] Cons.prems(2) by simp
  qed
  then have "follow_step e (fold_res follow_init (x # xs) e)
      (\<lambda>F. addF (\<lambda>z. \<Union>x\<in>set xs. symI e x z) (addF (symI e x) F))"
    by simp
  then show ?case by (rule follow_step_cong) (simp add: addF_def fun_eq_iff Un_ac)
qed

section \<open>One closure pass\<close>

text \<open>A step that also raises the flag exactly when a set has grown.\<close>

definition flag_step ::
  "bool \<Rightarrow> ('a parser_env_scheme) \<Rightarrow> (bool \<times> ('a parser_env_scheme)) res \<Rightarrow>
   ((nat \<Rightarrow> nat set) \<Rightarrow> nat \<Rightarrow> nat set) \<Rightarrow> bool" where
  "flag_step did e r H \<longleftrightarrow>
     (\<exists>G. r = Inr (did \<or> H (follows e) \<noteq> follows e, with_follow G e) \<and>
        follow_ok (with_follow G e) \<and> follows (with_follow G e) = H (follows e))"

definition grows :: "((nat \<Rightarrow> nat set) \<Rightarrow> nat \<Rightarrow> nat set) \<Rightarrow> bool" where
  "grows H \<longleftrightarrow> (\<forall>F. F \<le> H F)"

lemma grows_id [simp]: "grows (\<lambda>F. F)"
  by (simp add: grows_def)

lemma grows_comp: "grows H \<Longrightarrow> grows H' \<Longrightarrow> grows (\<lambda>F. H' (H F))"
  by (auto simp: grows_def intro: order_trans)

lemma grows_add [simp]: "grows (\<lambda>F. F(y := F y \<union> F x))"
  by (auto simp: grows_def le_fun_def)

lemma flag_step_refl: "follow_ok e \<Longrightarrow> flag_step did e (Inr (did, e)) (\<lambda>F. F)"
  unfolding flag_step_def by (intro exI [of _ "\<lambda>x. follow (symb e x)"]) simp

lemma flag_step_cong: "flag_step did e r H \<Longrightarrow> H (follows e) = H' (follows e) \<Longrightarrow> flag_step did e r H'"
  by (simp add: flag_step_def)

lemma flag_step_bind:
  assumes s: "flag_step did e r H" and g: "grows H" "grows H'"
    and f: "\<And>G did'. follow_ok (with_follow G e) \<Longrightarrow>
      flag_step did' (with_follow G e) (f (did', with_follow G e)) H'"
  shows "flag_step did e (bind_res r f) (\<lambda>F. H' (H F))"
proof -
  let ?F = "follows e"
  obtain G1 where 1: "r = Inr (did \<or> H ?F \<noteq> ?F, with_follow G1 e)" "follow_ok (with_follow G1 e)"
    "follows (with_follow G1 e) = H ?F"
    using s by (auto simp: flag_step_def)
  obtain G2 where 2: "f (did \<or> H ?F \<noteq> ?F, with_follow G1 e) =
      Inr ((did \<or> H ?F \<noteq> ?F) \<or> H' (H ?F) \<noteq> H ?F, with_follow G2 e)"
    "follow_ok (with_follow G2 e)" "follows (with_follow G2 e) = H' (H ?F)"
    using f [OF 1(2), of "did \<or> H ?F \<noteq> ?F"] by (auto simp: flag_step_def 1(3))
  have "H' (H ?F) = ?F \<Longrightarrow> H ?F = ?F"
    using g by (metis grows_def order_antisym)
  then have "((did \<or> H ?F \<noteq> ?F) \<or> H' (H ?F) \<noteq> H ?F) = (did \<or> H' (H ?F) \<noteq> ?F)" by metis
  with 1(1) 2 show ?thesis unfolding flag_step_def by (intro exI [of _ G2]) simp
qed

fun rhsC :: "('a parser_env_scheme) \<Rightarrow> nat \<Rightarrow> nat list \<Rightarrow> (nat \<Rightarrow> nat set) \<Rightarrow> nat \<Rightarrow> nat set" where
  "rhsC e x [] F = F"
| "rhsC e x (y # ys) F =
     (if ISACT e y then rhsC e x ys F
      else if ISTERM e y then F
      else if skipF e (firsts e) y then rhsC e x ys (F(y := F y \<union> F x))
      else F(y := F y \<union> F x))"

fun prodsC :: "('a parser_env_scheme) \<Rightarrow> nat \<Rightarrow> PRODUCTION_S list \<Rightarrow> (nat \<Rightarrow> nat set) \<Rightarrow> nat \<Rightarrow> nat set" where
  "prodsC e x [] F = F"
| "prodsC e x (p # ps) F = prodsC e x ps (rhsC e x (rev (rhs p)) F)"

definition symC :: "('a parser_env_scheme) \<Rightarrow> nat \<Rightarrow> (nat \<Rightarrow> nat set) \<Rightarrow> nat \<Rightarrow> nat set" where
  "symC e x F = (if ISNONTERM e x then prodsC e x (productions (symb e x)) F else F)"

fun passC :: "('a parser_env_scheme) \<Rightarrow> nat list \<Rightarrow> (nat \<Rightarrow> nat set) \<Rightarrow> nat \<Rightarrow> nat set" where
  "passC e [] F = F"
| "passC e (x # xs) F = passC e xs (symC e x F)"

lemma closure_abs_with [simp]:
  "rhsC (with_follow G e) x ys F = rhsC e x ys F"
  "prodsC (with_follow G e) x ps F = prodsC e x ps F"
  "symC (with_follow G e) x F = symC e x F"
  "passC (with_follow G e) xs F = passC e xs F"
proof -
  show 1: "rhsC (with_follow G e) x ys F = rhsC e x ys F" for x ys F
    by (induction ys arbitrary: F) simp_all
  show 2: "prodsC (with_follow G e) x ps F = prodsC e x ps F" for x ps F
    by (induction ps arbitrary: F) (simp_all add: 1)
  show 3: "symC (with_follow G e) x F = symC e x F" for x F
    by (simp add: symC_def 2)
  show "passC (with_follow G e) xs F = passC e xs F"
    by (induction xs arbitrary: F) (simp_all add: 3)
qed

lemma grows_rhsC [simp]: "grows (rhsC e x ys)"
proof -
  have "F \<le> rhsC e x ys F" for F
  proof (induction ys arbitrary: F)
    case (Cons y ys)
    have "F \<le> F(y := F y \<union> F x)" by (simp add: le_fun_def)
    moreover have "F \<le> rhsC e x ys (F(y := F y \<union> F x))" by (rule order_trans [OF calculation Cons.IH])
    ultimately show ?case using Cons.IH [of F] by (simp only: rhsC.simps split: if_split) blast
  qed simp
  then show ?thesis by (simp add: grows_def)
qed

lemma grows_prodsC [simp]: "grows (prodsC e x ps)"
proof (induction ps)
  case (Cons p ps)
  have "grows (\<lambda>F. prodsC e x ps (rhsC e x (rev (rhs p)) F))"
    by (rule grows_comp [OF grows_rhsC Cons.IH])
  then show ?case by (simp add: grows_def)
qed (simp add: grows_def)

lemma grows_symC [simp]: "grows (symC e x)"
  using grows_prodsC [of e x "productions (symb e x)"] by (simp add: grows_def symC_def)

lemma grows_passC [simp]: "grows (passC e xs)"
proof (induction xs)
  case (Cons x xs)
  have "grows (\<lambda>F. passC e xs (symC e x F))" by (rule grows_comp [OF grows_symC Cons.IH])
  then show ?case by (simp add: grows_def)
qed (simp add: grows_def)

lemma flag_step_set:
  assumes "follow_ok e" and "set_plain s" and "members s = A" and "A \<noteq> follows e x"
  shows "flag_step did e (Inr (True, upd_symb x (follow_update (\<lambda>_. Some s)) e)) (\<lambda>F. F(x := A))"
proof -
  have "(follows e)(x := A) \<noteq> follows e" using assms(4) by (metis fun_upd_same)
  with follow_step_set [OF assms(1-3), of x] show ?thesis
    by (auto simp: follow_step_def flag_step_def)
qed

lemma closure_rhs_effect:
  assumes x: "x \<in> set (syms e)" "ISNONTERM e x"
  shows "follow_ok e' \<Longrightarrow> (\<exists>G. e' = with_follow G e) \<Longrightarrow> set ys \<subseteq> set (syms e) \<Longrightarrow>
    flag_step did e' (closure_rhs x ys (did, e')) (rhsC e x ys)"
proof (induction ys arbitrary: e' did)
  case Nil
  then show ?case using flag_step_refl [of e' did] by (auto elim: flag_step_cong)
next
  case (Cons y ys)
  have ys: "set ys \<subseteq> set (syms e)" and y: "y \<in> set (syms e')" and xe: "x \<in> set (syms e')" "ISNONTERM e' x"
    and k: "ISACT e' y = ISACT e y" "ISTERM e' y = ISTERM e y" "skipF e' (firsts e') y = skipF e (firsts e) y"
    using Cons.prems x by auto
  have ok: "gram_ok e'" using Cons.prems(1) by (simp add: follow_ok_def)
  from ok y show ?case
  proof (cases rule: gram_kind)
    case act
    then show ?thesis using Cons.IH [OF Cons.prems(1,2) ys] k by (simp add: flag_step_def)
  next
    case trm
    then show ?thesis using flag_step_refl [OF Cons.prems(1), of did] k by (simp add: flag_step_def)
  next
    case (non f)
    obtain s where s: "follow (symb e' x) = Some s" "set_plain s"
      using follow_ok_set [OF Cons.prems(1) xe] .
    obtain d where d: "follow (symb e' y) = Some d" "set_plain d"
      using follow_ok_set [OF Cons.prems(1) y non(1)] .
    let ?H = "\<lambda>F :: nat \<Rightarrow> nat set. F(y := F y \<union> F x)"
    let ?r = "if \<not> members s \<subseteq> members d
        then Inr (True, upd_symb y (follow_update (\<lambda>_. Some (SET_UNION d s))) e') else Inr (did, e')"
    have F: "follows e' y = members d" "follows e' x = members s" using d s by (simp_all add: follows_def)
    have step: "flag_step did e' ?r ?H"
    proof (cases "members s \<subseteq> members d")
      case True
      then show ?thesis using flag_step_refl [OF Cons.prems(1), of did] F
        by (auto elim!: flag_step_cong simp: fun_upd_idem Un_absorb2)
    next
      case False
      then have "flag_step did e' ?r (\<lambda>F. F(y := members d \<union> members s))"
        using flag_step_set [OF Cons.prems(1), of "SET_UNION d s" "members d \<union> members s" y did] d s F by auto
      then show ?thesis by (rule flag_step_cong) (simp add: F)
    qed
    have run: "closure_rhs x (y # ys) (did, e') =
        bind_res ?r (\<lambda>st'. bind_res (NULLABLE (snd st') y) (\<lambda>b. if b then closure_rhs x ys st' else Inr st'))"
      using non s(1) d(1) by simp
    have null: "NULLABLE (with_follow G e') y = Inr (skipF e (firsts e) y)"
      if "follow_ok (with_follow G e')" for G
      using NULLABLE_effect [of "with_follow G e'" y] that y non(1,2) k
      by (simp add: follow_ok_def skipF_def)
    have "flag_step did e' (closure_rhs x (y # ys) (did, e'))
        (\<lambda>F. (if skipF e (firsts e) y then rhsC e x ys else (\<lambda>F. F)) (?H F))"
      unfolding run
    proof (rule flag_step_bind [OF step grows_add])
      show "grows (if skipF e (firsts e) y then rhsC e x ys else (\<lambda>F. F))" by simp
      fix G did'
      assume G: "follow_ok (with_follow G e')"
      have "\<exists>G'. with_follow G e' = with_follow G' e" using Cons.prems(2) by auto
      from Cons.IH [OF G this ys] flag_step_refl [OF G]
      show "flag_step did' (with_follow G e')
        (bind_res (NULLABLE (snd (did', with_follow G e')) y)
          (\<lambda>b. if b then closure_rhs x ys (did', with_follow G e') else Inr (did', with_follow G e')))
        (if skipF e (firsts e) y then rhsC e x ys else (\<lambda>F. F))"
        by (simp add: null [OF G])
    qed
    then show ?thesis by (rule flag_step_cong) (use non k in \<open>simp add: fun_upd_def\<close>)
  qed
qed

lemma closure_prods_effect:
  assumes x: "x \<in> set (syms e)" "ISNONTERM e x"
  shows "follow_ok e \<Longrightarrow> \<forall>p\<in>set ps. set (rhs p) \<subseteq> set (syms e) \<Longrightarrow>
    flag_step did e (closure_prods x ps (did, e)) (prodsC e x ps)"
  using x
proof (induction ps arbitrary: e did)
  case Nil
  then show ?case using flag_step_refl [of e did] by (auto elim: flag_step_cong)
next
  case (Cons p ps)
  have "flag_step did e (bind_res (closure_rhs x (rev (rhs p)) (did, e)) (closure_prods x ps))
      (\<lambda>F. prodsC e x ps (rhsC e x (rev (rhs p)) F))"
  proof (rule flag_step_bind [where H = "rhsC e x (rev (rhs p))"])
    show "flag_step did e (closure_rhs x (rev (rhs p)) (did, e)) (rhsC e x (rev (rhs p)))"
      by (rule closure_rhs_effect)
        (use Cons.prems in \<open>auto intro: exI [of _ "\<lambda>x. follow (symb e x)"]\<close>)
    show "flag_step did' (with_follow G e) (closure_prods x ps (did', with_follow G e)) (prodsC e x ps)"
      if "follow_ok (with_follow G e)" for G did'
      using Cons.IH [OF that] Cons.prems by simp
  qed simp_all
  then show ?case by (simp add: flag_step_def)
qed

lemma follow_closure_effect:
  assumes ok: "follow_ok e" and x: "x \<in> set (syms e)"
  shows "flag_step did e (follow_closure x (did, e)) (symC e x)"
proof -
  have g: "gram_ok e" using ok by (simp add: follow_ok_def)
  from g x show ?thesis
  proof (cases rule: gram_kind)
    case (non f)
    with closure_prods_effect [OF x non(1) ok gram_prods [OF g x], of did] show ?thesis
      by (simp add: follow_closure_def symC_def flag_step_def)
  qed (use flag_step_refl [OF ok, of did] in \<open>simp_all add: follow_closure_def symC_def flag_step_def\<close>)
qed

lemma follow_pass_effect:
  "follow_ok e \<Longrightarrow> set xs \<subseteq> set (syms e) \<Longrightarrow>
    flag_step did e (fold_res follow_closure xs (did, e)) (passC e xs)"
proof (induction xs arbitrary: e did)
  case Nil
  then show ?case using flag_step_refl [of e did] by (auto elim: flag_step_cong)
next
  case (Cons x xs)
  have "flag_step did e (bind_res (follow_closure x (did, e)) (fold_res follow_closure xs))
      (\<lambda>F. passC e xs (symC e x F))"
  proof (rule flag_step_bind [where H = "symC e x"])
    show "flag_step did e (follow_closure x (did, e)) (symC e x)"
      using Cons.prems by (intro follow_closure_effect) simp_all
    show "flag_step did' (with_follow G e) (fold_res follow_closure xs (did', with_follow G e)) (passC e xs)"
      if "follow_ok (with_follow G e)" for G did'
      using Cons.IH [OF that] Cons.prems by simp
  qed simp_all
  then show ?case by (simp add: flag_step_def)
qed

section \<open>The least sets closed under the rules of the code\<close>

text \<open>
  \<open>code_follow e x t\<close>: the rules in the comments of \<open>init\<close> and \<open>follow_closure\<close> put \<open>t\<close> into
  the set of \<open>x\<close>, for given sets \<open>first\<close>.
\<close>

inductive code_follow :: "('a parser_env_scheme) \<Rightarrow> nat \<Rightarrow> nat \<Rightarrow> bool" for e where
  goal: "g_goal_symbol e = Some x \<Longrightarrow> x \<in> set (syms e) \<Longrightarrow> ISNONTERM e x \<Longrightarrow> code_follow e x EOI"
| after: "z \<in> set (syms e) \<Longrightarrow> ISNONTERM e z \<Longrightarrow> p \<in> set (productions (symb e z)) \<Longrightarrow>
    rhs p = as @ x # bs \<Longrightarrow> ISNONTERM e x \<Longrightarrow> t \<in> scanF e (firsts e) bs \<Longrightarrow> code_follow e x t"
| at_end: "z \<in> set (syms e) \<Longrightarrow> ISNONTERM e z \<Longrightarrow> p \<in> set (productions (symb e z)) \<Longrightarrow>
    rhs p = as @ x # bs \<Longrightarrow> ISNONTERM e x \<Longrightarrow> \<forall>b\<in>set bs. skipF e (firsts e) b \<Longrightarrow>
    code_follow e z t \<Longrightarrow> code_follow e x t"

definition GF :: "('a parser_env_scheme) \<Rightarrow> nat \<Rightarrow> nat set" where
  "GF e x = {t. code_follow e x t}"

definition initF :: "('a parser_env_scheme) \<Rightarrow> nat \<Rightarrow> nat set" where
  "initF e z = (\<Union>x\<in>set (syms e). symI e x z)"

lemma rhsI_iff:
  "t \<in> rhsI e xs z \<longleftrightarrow> (\<exists>as bs. xs = as @ z # bs \<and> ISNONTERM e z \<and> t \<in> scanF e (firsts e) bs)"
proof (induction xs)
  case (Cons x xs)
  show ?case (is "?L \<longleftrightarrow> ?R")
  proof
    assume ?L
    then consider "x = z" "ISNONTERM e z" "t \<in> scanF e (firsts e) xs" | "t \<in> rhsI e xs z"
      by (auto split: if_splits)
    then show ?R
    proof cases
      case 1
      then show ?thesis by (intro exI [of _ "[]"] exI [of _ xs]) simp
    next
      case 2
      then obtain as bs where "xs = as @ z # bs" "ISNONTERM e z" "t \<in> scanF e (firsts e) bs"
        unfolding Cons.IH by blast
      then show ?thesis by (intro exI [of _ "x # as"] exI [of _ bs]) simp
    qed
  next
    assume ?R
    then obtain as bs where r: "x # xs = as @ z # bs" "ISNONTERM e z" "t \<in> scanF e (firsts e) bs"
      by blast
    show ?L
    proof (cases as)
      case Nil
      with r show ?thesis by simp
    next
      case (Cons a as')
      with r have "t \<in> rhsI e xs z" unfolding Cons.IH by auto
      then show ?thesis by simp
    qed
  qed
qed simp

lemma initF_le_GF: "initF e \<le> GF e"
  by (auto simp: initF_def symI_def le_fun_def GF_def rhsI_iff split: if_splits
      intro: code_follow.goal code_follow.after)

lemma rhsC_le_GF:
  "rhs p = rev ys @ bs \<Longrightarrow> \<forall>b\<in>set bs. skipF e (firsts e) b \<Longrightarrow> F \<le> GF e \<Longrightarrow>
    z \<in> set (syms e) \<Longrightarrow> ISNONTERM e z \<Longrightarrow> p \<in> set (productions (symb e z)) \<Longrightarrow>
    set (rhs p) \<subseteq> set (syms e) \<Longrightarrow> gram_ok e \<Longrightarrow> rhsC e z ys F \<le> GF e"
proof (induction ys arbitrary: bs F)
  case (Cons y ys)
  have split: "rhs p = rev ys @ y # bs" using Cons.prems(1) by simp
  then have "y \<in> set (syms e)" using Cons.prems(7) by auto
  with Cons.prems(8) show ?case
  proof (cases rule: gram_kind)
    case act
    then have "\<forall>b\<in>set (y # bs). skipF e (firsts e) b" using Cons.prems(2) by (simp add: skipF_def)
    from Cons.IH [OF split this Cons.prems(3-8)] act show ?thesis by simp
  next
    case trm
    with Cons.prems(3) show ?thesis by simp
  next
    case (non s)
    have "GF e z \<subseteq> GF e y"
      using code_follow.at_end [OF Cons.prems(4-6) split non(1) Cons.prems(2)] by (auto simp: GF_def)
    then have F': "F(y := F y \<union> F z) \<le> GF e" using Cons.prems(3) by (auto simp: le_fun_def)
    show ?thesis
    proof (cases "skipF e (firsts e) y")
      case True
      then have "\<forall>b\<in>set (y # bs). skipF e (firsts e) b" using Cons.prems(2) by simp
      from Cons.IH [OF split this F' Cons.prems(4-8)] non True show ?thesis by (simp add: fun_upd_def)
    next
      case False
      with non F' show ?thesis by (simp add: fun_upd_def)
    qed
  qed
qed simp

lemma passC_le_GF:
  assumes "gram_ok e"
  shows "set xs \<subseteq> set (syms e) \<Longrightarrow> F \<le> GF e \<Longrightarrow> passC e xs F \<le> GF e"
proof (induction xs arbitrary: F)
  case (Cons x xs)
  have x: "x \<in> set (syms e)" using Cons.prems(1) by simp
  have "prodsC e x ps F \<le> GF e"
    if "ISNONTERM e x" "set ps \<subseteq> set (productions (symb e x))" "F \<le> GF e" for ps F
    using that(2,3)
  proof (induction ps arbitrary: F)
    case (Cons p ps)
    have p: "p \<in> set (productions (symb e x))" using Cons.prems(1) by simp
    have "rhsC e x (rev (rhs p)) F \<le> GF e"
      by (rule rhsC_le_GF [of p _ "[]"]) (use Cons.prems(2) x that(1) p gram_rhs [OF assms x p] assms in simp_all)
    with Cons show ?case by simp
  qed simp
  then have "symC e x F \<le> GF e" using Cons.prems(2) by (simp add: symC_def)
  with Cons show ?case by simp
qed simp

lemma grows_fixed:
  assumes "grows H" and "grows H'" and "H' (H F) = F"
  shows "H F = F" and "H' F = F"
proof -
  have "F \<le> H F" "H F \<le> H' (H F)" using assms(1,2) by (simp_all add: grows_def)
  with assms(3) show "H F = F" by simp
  with assms(3) show "H' F = F" by simp
qed

lemma passC_fixed: "passC e xs F = F \<Longrightarrow> x \<in> set xs \<Longrightarrow> symC e x F = F"
proof (induction xs)
  case (Cons a xs)
  have "symC e a F = F" "passC e xs F = F"
    using grows_fixed [OF grows_symC grows_passC, of e xs e a F] Cons.prems(1) by simp_all
  with Cons show ?case by auto
qed simp

lemma prodsC_fixed: "prodsC e x ps F = F \<Longrightarrow> p \<in> set ps \<Longrightarrow> rhsC e x (rev (rhs p)) F = F"
proof (induction ps)
  case (Cons q ps)
  have "rhsC e x (rev (rhs q)) F = F" "prodsC e x ps F = F"
    using grows_fixed [OF grows_rhsC grows_prodsC, of e x ps e x "rev (rhs q)" F] Cons.prems(1) by simp_all
  with Cons show ?case by auto
qed simp

lemma rhsC_fixed:
  "rhsC e x (bs @ y # ys) F = F \<Longrightarrow> \<forall>b\<in>set bs. skipF e (firsts e) b \<Longrightarrow> ISNONTERM e y \<Longrightarrow> F x \<subseteq> F y"
proof (induction bs)
  case Nil
  have k: "\<not> ISACT e y" "\<not> ISTERM e y" using Nil.prems(3) kinds_disjoint by blast+
  have "F(y := F y \<union> F x) = F"
  proof (cases "skipF e (firsts e) y")
    case True
    then have "rhsC e x ys (F(y := F y \<union> F x)) = F" using Nil.prems(1) k by simp
    then show ?thesis using grows_fixed(1) [OF grows_add grows_rhsC, of e x ys F y x] by simp
  next
    case False
    then show ?thesis using Nil.prems(1) k by (simp add: fun_upd_def)
  qed
  then show ?case by (metis Un_upper2 fun_upd_same)
next
  case (Cons b bs)
  consider "ISACT e b" | "ISNONTERM e b" "\<not> ISACT e b" "\<not> ISTERM e b" "skipF e (firsts e) b"
    using Cons.prems(2) kinds_disjoint [of e b] by (auto simp: skipF_def)
  then have "rhsC e x (bs @ y # ys) F = F"
  proof cases
    case 1
    then show ?thesis using Cons.prems(1) by simp
  next
    case 2
    then have "rhsC e x (bs @ y # ys) (F(b := F b \<union> F x)) = F" using Cons.prems(1) by simp
    then show ?thesis using grows_fixed(2) [OF grows_add grows_rhsC, of e x "bs @ y # ys" F b x] by simp
  qed
  with Cons show ?case by simp
qed

lemma GF_least:
  assumes "initF e \<le> F" and "\<And>x. x \<in> set (syms e) \<Longrightarrow> symC e x F = F"
  shows "GF e \<le> F"
proof -
  have "code_follow e x t \<Longrightarrow> t \<in> F x" for x t
  proof (induction rule: code_follow.induct)
    case (goal x)
    then have "EOI \<in> initF e x" by (auto simp: initF_def symI_def)
    with assms(1) show ?case by (auto simp: le_fun_def)
  next
    case (after z p as x bs t)
    then have "t \<in> rhsI e (rhs p) x" unfolding rhsI_iff by blast
    with after(1-3) have "t \<in> symI e z x" by (auto simp: symI_def)
    with after(1) have "t \<in> initF e x" by (auto simp: initF_def)
    with assms(1) show ?case by (auto simp: le_fun_def)
  next
    case (at_end z p as x bs t)
    have "rhsC e z (rev (rhs p)) F = F"
      using assms(2) [OF at_end(1)] at_end(2,3) prodsC_fixed [of e z _ F p] by (simp add: symC_def)
    then have "F z \<subseteq> F x"
      using rhsC_fixed [of e z "rev bs" x "rev as" F] at_end(4-6) by simp
    with at_end.IH show ?case by blast
  qed
  then show ?thesis by (auto simp: GF_def le_fun_def)
qed

section \<open>The loop ends\<close>

lemma with_follow_abs [simp]:
  "symI (with_follow G e) = symI e" "initF (with_follow G e) = initF e"
  "missing (with_follow G e) F = missing e F"
  by (simp_all add: fun_eq_iff initF_def missing_def)

lemma GF_with [simp]: "GF (with_follow G e) = GF e"
proof -
  have "code_follow (with_follow G e) x t \<longleftrightarrow> code_follow e x t" for x t
  proof
    show "code_follow (with_follow G e) x t \<Longrightarrow> code_follow e x t"
      by (induction rule: code_follow.induct) (auto intro: code_follow.intros)
    show "code_follow e x t \<Longrightarrow> code_follow (with_follow G e) x t"
      by (induction rule: code_follow.induct) (auto intro: code_follow.intros)
  qed
  then show ?thesis by (simp add: GF_def fun_eq_iff)
qed

lemma scanF_range:
  assumes "gram_ok e" and "\<And>x. F x \<subseteq> {..EPS e}"
  shows "set ys \<subseteq> set (syms e) \<Longrightarrow> scanF e F ys \<subseteq> {..EPS e}"
proof (induction ys)
  case (Cons y ys)
  have y: "y \<in> set (syms e)" using Cons.prems by simp
  have "ISTERM e y \<Longrightarrow> val (symb e y) \<le> EPS e"
    by (rule gram_kind [OF assms(1) y]) (auto simp: EPS_def)
  with Cons assms(2) [of y] show ?case by auto
qed simp

lemma GF_range:
  assumes "gram_ok e" and "\<And>x. firsts e x \<subseteq> {..EPS e}"
  shows "code_follow e x t \<Longrightarrow> x \<in> set (syms e) \<and> t \<le> EPS e"
proof (induction rule: code_follow.induct)
  case (after z p as x bs t)
  have r: "set (rhs p) \<subseteq> set (syms e)" using gram_rhs [OF assms(1) after(1,3)] .
  then have "scanF e (firsts e) bs \<subseteq> {..EPS e}"
    using after(4) by (intro scanF_range [OF assms]) auto
  with r after show ?case by auto
next
  case (at_end z p as x bs t)
  then show ?case using gram_rhs [OF assms(1) at_end(1,3)] by auto
qed (simp add: EOI_def)

lemma follow_loop_effect:
  "follow_ok e \<Longrightarrow> (\<And>x. firsts e x \<subseteq> {..EPS e}) \<Longrightarrow> initF e \<le> follows e \<Longrightarrow> follows e \<le> GF e \<Longrightarrow>
    \<exists>G. follow_loop e = Some (Inr (with_follow G e)) \<and> follow_ok (with_follow G e) \<and>
      follows (with_follow G e) = GF e"
proof (induction "missing e (follows e)" arbitrary: e rule: less_induct)
  case less
  let ?F = "follows e" and ?P = "passC e (syms e) (follows e)"
  have ok: "gram_ok e" using less.prems(1) by (simp add: follow_ok_def)
  obtain G1 where 1:
    "fold_res follow_closure (syms e) (False, e) = Inr (?P \<noteq> ?F, with_follow G1 e)"
    "follow_ok (with_follow G1 e)" "follows (with_follow G1 e) = ?P"
    using follow_pass_effect [OF less.prems(1) subset_refl, of False] by (auto simp: flag_step_def)
  have run: "follow_loop e = (if ?P \<noteq> ?F then follow_loop (with_follow G1 e)
      else Some (Inr (with_follow G1 e)))"
    by (simp add: follow_loop.simps [of e] each_symbol_syms [OF ok] 1(1))
  have le: "?P \<le> GF e" using less.prems(4) by (intro passC_le_GF [OF ok]) simp_all
  have grow: "?F \<le> ?P" using grows_passC [of e "syms e"] by (simp add: grows_def)
  show ?case
  proof (cases "?P = ?F")
    case True
    have "GF e \<le> ?F" by (rule GF_least [OF less.prems(3)]) (rule passC_fixed [OF True])
    with less.prems(4) True run 1(2,3) show ?thesis by (intro exI [of _ G1]) simp
  next
    case False
    have "t \<in> ?P x \<Longrightarrow> x \<in> set (syms e) \<and> t \<le> EPS e" for x t
      using le GF_range [OF ok less.prems(2), of x t] by (auto simp: le_fun_def GF_def)
    then have "missing (with_follow G1 e) (follows (with_follow G1 e)) < missing e ?F"
      using missing_less [OF grow, of e] False by (simp add: 1(3))
    from less.hyps [OF this 1(2)] less.prems(2,3) le grow obtain G where
      "follow_loop (with_follow G1 e) = Some (Inr (with_follow G e))"
      "follow_ok (with_follow G e)" "follows (with_follow G e) = GF e"
      by (auto simp: 1(3) intro: order_trans)
    with run False show ?thesis by auto
  qed
qed

definition dropE :: "('a parser_env_scheme) \<Rightarrow> nat list \<Rightarrow> (nat \<Rightarrow> nat set) \<Rightarrow> nat \<Rightarrow> nat set" where
  "dropE e xs F x = (if x \<in> set xs \<and> ISNONTERM e x then F x - {EPS e} else F x)"

lemma remove_epsilon_pass:
  "follow_ok e \<Longrightarrow> set xs \<subseteq> set (syms e) \<Longrightarrow>
    follow_step e (fold_res remove_epsilon xs e) (dropE e xs)"
proof (induction xs arbitrary: e)
  case Nil
  then show ?case using follow_step_refl [of e] by (auto intro: follow_step_cong simp: dropE_def)
next
  case (Cons x xs)
  let ?H = "dropE e [x]"
  have "follow_step e (remove_epsilon x e) ?H"
  proof (cases "ISNONTERM e x")
    case True
    have "x \<in> set (syms e)" using Cons.prems(2) by simp
    from follow_ok_set [OF Cons.prems(1) this True] obtain s where
      s: "follow (symb e x) = Some s" "set_plain s" .
    then have "follow_step e (remove_epsilon x e) (\<lambda>F. F(x := members s - {EPS e}))"
      using follow_step_set [OF Cons.prems(1), of "SET_REMOVE s (EPS e)" _ x] True
      by (simp add: remove_epsilon_def)
    then show ?thesis
      by (rule follow_step_cong) (use True s in \<open>auto simp: dropE_def follows_def fun_eq_iff\<close>)
  next
    case False
    then have "follow_step e (remove_epsilon x e) (\<lambda>F. F)"
      using follow_step_refl [OF Cons.prems(1)] by (simp add: remove_epsilon_def)
    then show ?thesis by (rule follow_step_cong) (use False in \<open>auto simp: dropE_def fun_eq_iff\<close>)
  qed
  then have "follow_step e (bind_res (remove_epsilon x e) (fold_res remove_epsilon xs))
      (\<lambda>F. dropE e xs (?H F))"
  proof (rule follow_step_bind [where H = ?H])
    show "follow_step (with_follow G e) (fold_res remove_epsilon xs (with_follow G e)) (dropE e xs)"
      if "follow_ok (with_follow G e)" for G
    proof -
      have "dropE (with_follow G e) xs = dropE e xs" by (simp add: dropE_def fun_eq_iff)
      with Cons.IH [OF that] Cons.prems(2) show ?thesis by simp
    qed
  qed
  then have "follow_step e (fold_res remove_epsilon (x # xs) e) (\<lambda>F. dropE e xs (?H F))" by simp
  then show ?case by (rule follow_step_cong) (auto simp: dropE_def fun_eq_iff)
qed

lemma follow_sets_effect:
  assumes ok: "follow_ok e" and empty: "\<And>x. follows e x = {}" and r: "\<And>x. firsts e x \<subseteq> {..EPS e}"
  shows "\<exists>G. follow_sets e = Some (Inr (with_follow G e)) \<and> follow_ok (with_follow G e) \<and>
    (\<forall>x. follows (with_follow G e) x = GF e x - {EPS e})"
proof -
  have g: "gram_ok e" using ok by (simp add: follow_ok_def)
  obtain G1 where 1: "each_symbol e follow_init e = Some (Inr (with_follow G1 e))"
    "follow_ok (with_follow G1 e)" "follows (with_follow G1 e) = initF e"
    using follow_init_pass [OF ok subset_refl] empty
    by (auto simp: follow_step_def each_symbol_syms [OF g] addF_def initF_def fun_eq_iff)
  obtain G2 where 2: "follow_loop (with_follow G1 e) = Some (Inr (with_follow G2 e))"
    "follow_ok (with_follow G2 e)" "follows (with_follow G2 e) = GF e"
    using follow_loop_effect [OF 1(2)] r initF_le_GF [of e] by (auto simp: 1(3))
  have g2: "gram_ok (with_follow G2 e)" using 2(2) by (simp add: follow_ok_def)
  obtain G3 where 3: "each_symbol (with_follow G2 e) remove_epsilon (with_follow G2 e) =
      Some (Inr (with_follow G3 e))"
    "follow_ok (with_follow G3 e)" "follows (with_follow G3 e) = dropE (with_follow G2 e) (syms e) (GF e)"
    using remove_epsilon_pass [OF 2(2), of "syms e"]
    by (auto simp: follow_step_def each_symbol_syms [OF g2] 2(3))
  have "x \<in> set (syms e) \<and> ISNONTERM e x" if "code_follow e x t" for x t
    using that GF_range [OF g r that] by (auto elim: code_follow.cases)
  then have "follows (with_follow G3 e) x = GF e x - {EPS e}" for x
    by (auto simp: 3(3) dropE_def GF_def)
  with 1 2 3 show ?thesis by (intro exI [of _ G3]) (simp add: follow_sets_def)
qed

end
