(* ===== verification/Derive.thy ===== *)
theory Derive
  imports Follow
begin

text \<open>
  The strings of a grammar, and what the FIRST and FOLLOW sets of the code say about them.
  Actions derive the empty string.
\<close>

section \<open>Derivations\<close>

text \<open>\<open>derives e ss w\<close>: the symbols \<open>ss\<close> derive the string \<open>w\<close> of terminals.\<close>

inductive derives :: "('a parser_env_scheme) \<Rightarrow> nat list \<Rightarrow> nat list \<Rightarrow> bool" for e where
  none: "derives e [] []"
| act: "ISACT e a \<Longrightarrow> derives e ss w \<Longrightarrow> derives e (a # ss) w"
| trm: "ISTERM e y \<Longrightarrow> derives e ss w \<Longrightarrow> derives e (y # ss) (y # w)"
| non: "ISNONTERM e x \<Longrightarrow> p \<in> set (productions (symb e x)) \<Longrightarrow> derives e (rhs p) u \<Longrightarrow>
    derives e ss w \<Longrightarrow> derives e (x # ss) (u @ w)"

text \<open>
  \<open>reach e ss\<close>: the parser that starts with the goal symbol on its stack and replaces
  nonterminals by right-hand sides can have the stack \<open>ss\<close>.
\<close>

inductive reach :: "('a parser_env_scheme) \<Rightarrow> nat list \<Rightarrow> bool" for e where
  start: "g_goal_symbol e = Some g \<Longrightarrow> reach e [g]"
| act: "reach e (a # ss) \<Longrightarrow> ISACT e a \<Longrightarrow> reach e ss"
| shift: "reach e (y # ss) \<Longrightarrow> ISTERM e y \<Longrightarrow> reach e ss"
| expand: "reach e (x # ss) \<Longrightarrow> ISNONTERM e x \<Longrightarrow> p \<in> set (productions (symb e x)) \<Longrightarrow> reach e (rhs p @ ss)"

inductive_cases derives_NilE: "derives e [] w"
inductive_cases derives_ConsE: "derives e (x # ss) w"

text \<open>The number of the token in front of the rest \<open>w\<close> of the input.\<close>

definition lookahead :: "('a parser_env_scheme) \<Rightarrow> nat list \<Rightarrow> nat" where
  "lookahead e w = (case w of [] \<Rightarrow> EOI | y # _ \<Rightarrow> val (symb e y))"

section \<open>FIRST sets\<close>

lemma non_acts_0: "prod_ok e p \<Longrightarrow> non_acts p = 0 \<longleftrightarrow> (\<forall>a\<in>set (rhs p). ISACT e a)"
  by (auto simp: prod_ok_def filter_empty_conv)

lemma scanF_acts: "\<forall>a\<in>set ys. ISACT e a \<Longrightarrow> scanF e F ys = {}"
  by (induction ys) (simp_all add: act_not)

lemma scanF_append:
  "scanF e F (xs @ ys) = scanF e F xs \<union> (if \<forall>x\<in>set xs. skipF e F x then scanF e F ys else {})"
  by (induction xs) auto

lemma gram_prod_ok:
  "gram_ok e \<Longrightarrow> x \<in> set (syms e) \<Longrightarrow> p \<in> set (productions (symb e x)) \<Longrightarrow> prod_ok e p"
  by (simp add: gram_ok_def)

lemma skips_nullable:
  assumes ok: "gram_ok e" and x: "x \<in> set (syms e)" "ISNONTERM e x" "p \<in> set (productions (symb e x))"
    and skip: "\<forall>y\<in>set (rhs p). skipF e (CF e) y"
  shows "EPS e \<in> CF e x"
proof (cases "non_acts p = 0")
  case True
  then show ?thesis using code_first.empty_prod [OF x] by (simp add: CF_def)
next
  case False
  then have "\<exists>y\<in>set (rhs p). \<not> ISACT e y"
    unfolding non_acts_0 [OF gram_prod_ok [OF ok x(1,3)]] by blast
  then obtain as y bs where s: "rhs p = as @ y # bs" "\<not> ISACT e y"
    using split_list_first_prop [of "rhs p" "\<lambda>y. \<not> ISACT e y"] by blast
  with skip have "ISNONTERM e y" "code_first e y (EPS e)" by (auto simp: skipF_def CF_def)
  moreover have "\<forall>a\<in>set as. ISACT e a \<or> ISNONTERM e a \<and> code_first e a (EPS e)"
    using skip s(1) by (auto simp: skipF_def CF_def)
  ultimately show ?thesis
    using code_first.descends [OF x False s(1)] by (simp add: CF_def)
qed

lemma scanF_in_CF:
  assumes ok: "gram_ok e" and x: "x \<in> set (syms e)" "ISNONTERM e x" "p \<in> set (productions (symb e x))"
    and t: "t \<in> scanF e (CF e) (rhs p)"
  shows "t \<in> CF e x"
proof -
  have "non_acts p \<noteq> 0"
    using t scanF_acts [of "rhs p" e "CF e"] non_acts_0 [OF gram_prod_ok [OF ok x(1,3)]] by auto
  with t have "t \<in> closF e (CF e) x" using closFI [OF x(3)] by (simp add: prodF_def)
  then show ?thesis using closF_code_first [OF x(1,2)] by blast
qed

lemma derives_first:
  assumes "gram_ok e"
  shows "derives e ss w \<Longrightarrow> set ss \<subseteq> set (syms e) \<Longrightarrow>
    (w = [] \<longrightarrow> (\<forall>y\<in>set ss. skipF e (CF e) y)) \<and>
    (w \<noteq> [] \<longrightarrow> lookahead e w \<in> scanF e (CF e) ss)"
proof (induction rule: derives.induct)
  case (act a ss w)
  then show ?case by (auto simp: skipF_def act_not)
next
  case (trm y ss w)
  then show ?case by (simp add: lookahead_def)
next
  case (non x p u ss w)
  have x: "x \<in> set (syms e)" and ss: "set ss \<subseteq> set (syms e)" using non.prems by simp_all
  have r: "set (rhs p) \<subseteq> set (syms e)" by (rule gram_rhs [OF assms x non(2)])
  note IH1 = non.IH(1) [OF r] and IH2 = non.IH(2) [OF ss]
  have k: "\<not> ISTERM e x" using non(1) kinds_disjoint by blast
  show ?case
  proof (cases u)
    case Nil
    then have "EPS e \<in> CF e x" using IH1 skips_nullable [OF assms x non(1,2)] by simp
    then have "skipF e (CF e) x" using non(1) by (simp add: skipF_def)
    with Nil IH2 non(1) k show ?thesis by auto
  next
    case (Cons y u')
    then have "lookahead e (u @ w) = lookahead e u" by (simp add: lookahead_def)
    moreover have "lookahead e u \<in> CF e x"
      using IH1 Cons scanF_in_CF [OF assms x non(1,2)] by simp
    ultimately show ?thesis using Cons non(1) k by simp
  qed
qed simp

lemma val_not_EPS: "gram_ok e \<Longrightarrow> y \<in> set (syms e) \<Longrightarrow> ISTERM e y \<Longrightarrow> val (symb e y) \<noteq> EPS e"
  by (rule gram_kind) (auto simp: EPS_def)

section \<open>FOLLOW sets\<close>

text \<open>What can stand behind \<open>bs\<close> at the end of the input.\<close>

definition behind :: "('a parser_env_scheme) \<Rightarrow> nat list \<Rightarrow> nat set" where
  "behind e bs = scanF e (firsts e) bs \<union> (if \<forall>b\<in>set bs. skipF e (firsts e) b then {EOI} else {})"

lemma behind_append:
  "behind e (xs @ ys) = scanF e (firsts e) xs \<union> (if \<forall>x\<in>set xs. skipF e (firsts e) x then behind e ys else {})"
  by (auto simp: behind_def scanF_append)

lemma reach_behind:
  assumes "gram_ok e" and goal: "\<And>g. g_goal_symbol e = Some g \<Longrightarrow> g \<in> set (syms e)"
  shows "reach e ss \<Longrightarrow>
    set ss \<subseteq> set (syms e) \<and> (\<forall>as x bs. ss = as @ x # bs \<longrightarrow> ISNONTERM e x \<longrightarrow> behind e bs \<subseteq> GF e x)"
proof (induction rule: reach.induct)
  case (start g)
  then show ?case using goal [of g] code_follow.goal [of e g]
    by (auto simp: behind_def GF_def Cons_eq_append_conv)
next
  case (act a ss)
  have "behind e bs \<subseteq> GF e x" if "ss = as @ x # bs" "ISNONTERM e x" for as x bs
    using act.IH that by (auto dest: spec [of _ "a # as"])
  with act.IH show ?case by auto
next
  case (shift y ss)
  have "behind e bs \<subseteq> GF e x" if "ss = as @ x # bs" "ISNONTERM e x" for as x bs
    using shift.IH that by (auto dest: spec [of _ "y # as"])
  with shift.IH show ?case by auto
next
  case (expand x ss p)
  have x: "x \<in> set (syms e)" and ss: "set ss \<subseteq> set (syms e)"
    and above: "behind e ss \<subseteq> GF e x"
    using expand.IH expand(2) by (auto dest: spec [of _ "[]"])
  have inner: "behind e bs \<subseteq> GF e z" if "rhs p = as @ z # ds" "bs = ds @ ss" "ISNONTERM e z" for as z bs ds
  proof -
    have "scanF e (firsts e) ds \<subseteq> GF e z"
      using code_follow.after [OF x expand(2,3) that(1,3)] by (auto simp: GF_def)
    moreover have "GF e x \<subseteq> GF e z" if "\<forall>d\<in>set ds. skipF e (firsts e) d"
      using code_follow.at_end [OF x expand(2,3) \<open>rhs p = as @ z # ds\<close> \<open>ISNONTERM e z\<close> that]
      by (auto simp: GF_def)
    ultimately show ?thesis using above by (auto simp: that(2) behind_append)
  qed
  show ?case
  proof (intro conjI allI impI)
    show "set (rhs p @ ss) \<subseteq> set (syms e)" using ss gram_rhs [OF assms(1) x expand(3)] by simp
    fix as z bs
    assume s: "rhs p @ ss = as @ z # bs" and z: "ISNONTERM e z"
    from s consider us where "rhs p = as @ us" "us @ ss = z # bs" | us where "as = rhs p @ us" "ss = us @ z # bs"
      by (auto simp: append_eq_append_conv2)
    then show "behind e bs \<subseteq> GF e z"
    proof cases
      case 1
      show ?thesis
      proof (cases us)
        case Nil
        then have "x # ss = [x] @ z # bs" using 1(2) by simp
        then show ?thesis using expand.IH z by blast
      next
        case (Cons u ds)
        with 1 inner [of as z ds bs] z show ?thesis by simp
      qed
    next
      case 2
      then have "x # ss = (x # us) @ z # bs" by simp
      then show ?thesis using expand.IH z by blast
    qed
  qed
qed

lemma derives_behind:
  assumes "gram_ok e" and "firsts e = CF e" and "derives e ss w" and "set ss \<subseteq> set (syms e)"
  shows "lookahead e w \<in> behind e ss"
  using derives_first [OF assms(1,3,4)]
  by (cases w) (simp_all add: behind_def assms(2) lookahead_def)

lemma derives_terminal:
  "derives e ss w \<Longrightarrow> gram_ok e \<Longrightarrow> set ss \<subseteq> set (syms e) \<Longrightarrow> \<forall>y\<in>set w. y \<in> set (syms e) \<and> ISTERM e y"
proof (induction rule: derives.induct)
  case (non x p u ss w)
  have "x \<in> set (syms e)" and ss: "set ss \<subseteq> set (syms e)" using non.prems(2) by simp_all
  from non.IH(1) [OF non.prems(1) gram_rhs [OF non.prems(1) this(1) non(2)]] non.IH(2) [OF non.prems(1) ss]
  show ?case by (simp add: ball_Un)
qed simp_all

lemma lookahead_not_EPS:
  assumes "gram_ok e" and "derives e ss w" and "set ss \<subseteq> set (syms e)"
  shows "lookahead e w \<noteq> EPS e"
  using derives_terminal [OF assms(2,1,3)] val_not_EPS [OF assms(1)]
  by (cases w) (simp_all add: lookahead_def EOI_def EPS_def)

end
