(* ===== verification/Select.thy ===== *)
theory Select
  imports Derive SetIter
begin

text \<open>
  The SELECT sets of \<open>src/compiler/parser/llselect.c\<close> and the transition table of
  \<open>src/compiler/parser/llcode.c\<close> that is filled from them.
\<close>

section \<open>SELECT sets\<close>

fun select_prods :: "('a parser_env_scheme) \<Rightarrow> SET_S option \<Rightarrow> PRODUCTION_S list \<Rightarrow> PRODUCTION_S list res" where
  "select_prods e fol [] = Inr []"
| "select_prods e fol (p # ps) =
     bind_res (first_rhs e (select p) (rhs p)) (\<lambda>(s, nullable).
       bind_res (if nullable then bind_res (set_at fol) (\<lambda>f. Inr (SET_UNION s f)) else Inr s) (\<lambda>s'.
         bind_res (select_prods e fol ps) (\<lambda>ps'.
           Inr (p\<lparr>select := SET_REMOVE s' (EPS e)\<rparr> # ps'))))"

definition find_select_set :: "nat \<Rightarrow> ('a parser_env_scheme) \<Rightarrow> ('a parser_env_scheme) res" where
  "find_select_set x e =
     bind_res (select_prods e (follow (symb e x)) (productions (symb e x))) (\<lambda>ps.
       Inr (upd_symb x (productions_update (\<lambda>_. ps)) e))"

definition llselect :: "('a parser_env_scheme) \<Rightarrow> ('a parser_env_scheme) run" where
  "llselect e = each_symbol e find_select_set e"

section \<open>The transition table\<close>

text \<open>
  The table is a flat array; the second component counts the messages about conflicts.  A
  write behind the end of the array is the value \<open>Overflow\<close>.
\<close>

fun fill_cells :: "nat \<Rightarrow> nat \<Rightarrow> int list \<Rightarrow> int list \<times> nat \<Rightarrow> (int list \<times> nat) res" where
  "fill_cells off n [] st = Inr st"
| "fill_cells off n (i # is) st =
     (case st of (d, errs) \<Rightarrow>
        if length d \<le> off + nat i then Inl Overflow
        else if d ! (off + nat i) = - 1 then fill_cells off n is (d[off + nat i := int n], errs)
        else fill_cells off n is (d, errs + 1))"

fun fill_prods :: "nat \<Rightarrow> PRODUCTION_S list \<Rightarrow> int list \<times> nat \<Rightarrow> (int list \<times> nat) res" where
  "fill_prods off [] st = Inr st"
| "fill_prods off (p # ps) st =
     bind_res (fill_cells off (num p) (fst (drain 0 (select p) iter_init)) st) (fill_prods off ps)"

definition fill_row :: "('a parser_env_scheme) \<Rightarrow> nat \<Rightarrow> int list \<times> nat \<Rightarrow> (int list \<times> nat) res" where
  "fill_row e x st =
     (if \<not> ISNONTERM e x then Inr st
      else fill_prods (ADJ_VAL (val (symb e x)) * (USED_TERMS e + 1)) (productions (symb e x)) st)"

definition make_dtran :: "('a parser_env_scheme) \<Rightarrow> (int list \<times> nat) run" where
  "make_dtran e =
     each_symbol e (fill_row e) (replicate ((USED_TERMS e + 1) * USED_NONTERMS e) (- 1), 0)"

text \<open>The analysis of a grammar in \<open>do_file\<close> of \<open>main.c\<close>, up to the table.\<close>

definition ll_tables :: "('a parser_env_scheme) \<Rightarrow> (('a parser_env_scheme) \<times> int list \<times> nat) run" where
  "ll_tables e =
     bind_run (first_sets e) (\<lambda>e1. bind_run (follow_sets e1) (\<lambda>e2. bind_run (llselect e2) (\<lambda>e3.
       bind_run (make_dtran e3) (\<lambda>(d, errs). Some (Inr (e3, d, errs))))))"

section \<open>What the SELECT sets are\<close>

definition selF :: "('a parser_env_scheme) \<Rightarrow> nat \<Rightarrow> PRODUCTION_S \<Rightarrow> nat set" where
  "selF e x p =
     ((if rhs p = [] then {EPS e} else scanF e (firsts e) (rhs p)) \<union>
      (if \<forall>y\<in>set (rhs p). skipF e (firsts e) y then follows e x else {})) - {EPS e}"

definition fresh_select :: "('a parser_env_scheme) \<Rightarrow> bool" where
  "fresh_select e \<longleftrightarrow>
     (\<forall>x\<in>set (syms e). \<forall>p\<in>set (productions (symb e x)). set_plain (select p) \<and> members (select p) = {})"

definition selected :: "('a parser_env_scheme) \<Rightarrow> nat \<Rightarrow> PRODUCTION_S \<Rightarrow> PRODUCTION_S \<Rightarrow> bool" where
  "selected e x p p' \<longleftrightarrow>
     p' = p\<lparr>select := select p'\<rparr> \<and> set_plain (select p') \<and> members (select p') = selF e x p"

lemma select_prods_effect:
  assumes ok: "follow_ok e" and x: "x \<in> set (syms e)" "ISNONTERM e x"
  shows "\<forall>p\<in>set ps. set (rhs p) \<subseteq> set (syms e) \<and> set_plain (select p) \<and> members (select p) = {} \<Longrightarrow>
    \<exists>ps'. select_prods e (follow (symb e x)) ps = Inr ps' \<and> list_all2 (selected e x) ps ps'"
proof (induction ps)
  case (Cons p ps)
  let ?nullable = "\<forall>y\<in>set (rhs p). skipF e (firsts e) y"
  have g: "gram_ok e" using ok by (simp add: follow_ok_def)
  obtain f where f: "follow (symb e x) = Some f" "set_plain f" using follow_ok_set [OF ok x] .
  obtain s where s: "first_rhs e (select p) (rhs p) = Inr (s, ?nullable)" "set_plain s"
    "members s = (if rhs p = [] then {EPS e} else scanF e (firsts e) (rhs p))"
    using first_rhs_effect [OF g, of "rhs p" "select p"] Cons.prems by auto
  obtain ps' where ps': "select_prods e (follow (symb e x)) ps = Inr ps'" "list_all2 (selected e x) ps ps'"
    using Cons by auto
  let ?s = "SET_REMOVE (if ?nullable then SET_UNION s f else s) (EPS e)"
  have "select_prods e (follow (symb e x)) (p # ps) = Inr (p\<lparr>select := ?s\<rparr> # ps')"
    using s(1) f(1) ps'(1) by simp
  moreover have "selected e x p (p\<lparr>select := ?s\<rparr>)"
    using s(2,3) f by (auto simp: selected_def selF_def follows_def)
  ultimately show ?case using ps'(2) by (intro exI [of _ "p\<lparr>select := ?s\<rparr> # ps'"]) simp
qed simp

text \<open>The state with other productions, symbol by symbol.\<close>

definition with_sel :: "(nat \<Rightarrow> PRODUCTION_S list) \<Rightarrow> ('a parser_env_scheme) \<Rightarrow> ('a parser_env_scheme)" where
  "with_sel P e = e\<lparr>symb := \<lambda>x. (symb e x)\<lparr>productions := P x\<rparr>\<rparr>"

lemma with_sel_simps [simp]:
  "symtab (with_sel P e) = symtab e" "symb (with_sel P e) x = (symb e x)\<lparr>productions := P x\<rparr>"
  "g_currterm (with_sel P e) = g_currterm e" "g_currnonterm (with_sel P e) = g_currnonterm e"
  "syms (with_sel P e) = syms e" "EPS (with_sel P e) = EPS e" "USED_TERMS (with_sel P e) = USED_TERMS e"
  "USED_NONTERMS (with_sel P e) = USED_NONTERMS e" "ISTERM (with_sel P e) x = ISTERM e x"
  "ISNONTERM (with_sel P e) x = ISNONTERM e x" "ISACT (with_sel P e) x = ISACT e x"
  "NULLABLE (with_sel P e) x = NULLABLE e x" "with_sel P (with_sel P' e) = with_sel P e"
  "with_sel (\<lambda>x. productions (symb e x)) e = e"
  by (simp_all add: with_sel_def syms_def EPS_def USED_TERMS_def USED_NONTERMS_def ISTERM_def
      ISNONTERM_def ISACT_def NULLABLE_def)

lemma first_rhs_with_sel [simp]: "first_rhs (with_sel P e) s xs = first_rhs e s xs"
proof -
  have "first_rhs_loop (with_sel P e) s xs = first_rhs_loop e s xs" for s
    by (induction xs arbitrary: s) (simp_all cong: if_cong)
  then show ?thesis by (simp add: first_rhs_def)
qed

lemma select_prods_with_sel [simp]: "select_prods (with_sel P e) f ps = select_prods e f ps"
  by (induction ps) (simp_all cong: if_cong)

lemma upd_sel_with: "upd_symb x (productions_update (\<lambda>_. ps)) e = with_sel ((\<lambda>x. productions (symb e x))(x := ps)) e"
  by (auto simp: upd_symb_def with_sel_def fun_eq_iff)

lemma select_pass:
  assumes ok: "follow_ok e" and fr: "fresh_select e"
  shows "set xs \<subseteq> set (syms e) \<Longrightarrow> distinct xs \<Longrightarrow> \<forall>x\<in>set xs. P x = productions (symb e x) \<Longrightarrow>
    \<exists>P'. fold_res find_select_set xs (with_sel P e) = Inr (with_sel P' e) \<and>
      (\<forall>x\<in>set xs. list_all2 (selected e x) (productions (symb e x)) (P' x)) \<and>
      (\<forall>x. x \<notin> set xs \<longrightarrow> P' x = P x)"
proof (induction xs arbitrary: P)
  case (Cons x xs)
  have x: "x \<in> set (syms e)" and Px: "P x = productions (symb e x)" using Cons.prems by simp_all
  have g: "gram_ok e" using ok by (simp add: follow_ok_def)
  obtain ps where ps: "select_prods e (follow (symb e x)) (P x) = Inr ps"
    "list_all2 (selected e x) (productions (symb e x)) ps"
  proof (cases "ISNONTERM e x")
    case True
    have "\<forall>p\<in>set (productions (symb e x)). set (rhs p) \<subseteq> set (syms e) \<and> set_plain (select p) \<and> members (select p) = {}"
      using fr x gram_rhs [OF g x] by (simp add: fresh_select_def)
    from select_prods_effect [OF ok x True this] that Px show thesis by auto
  next
    case False
    then have "productions (symb e x) = []" using g x by (simp add: gram_ok_def)
    with that [of "[]"] Px show thesis by simp
  qed
  let ?P = "P(x := ps)"
  have step: "find_select_set x (with_sel P e) = Inr (with_sel ?P e)"
    using ps(1) by (simp add: find_select_set_def upd_sel_with)
  have "\<forall>y\<in>set xs. ?P y = productions (symb e y)" using Cons.prems by auto
  from Cons.IH [OF _ _ this] Cons.prems(1,2) obtain P' where
    P': "fold_res find_select_set xs (with_sel ?P e) = Inr (with_sel P' e)"
    "\<forall>x\<in>set xs. list_all2 (selected e x) (productions (symb e x)) (P' x)"
    "\<forall>y. y \<notin> set xs \<longrightarrow> P' y = ?P y"
    by (auto simp: fun_upd_def)
  have "x \<notin> set xs" using Cons.prems(2) by simp
  with P' ps(2) step show ?case by (intro exI [of _ P']) auto
qed auto

lemma llselect_effect:
  assumes "follow_ok e" and "fresh_select e"
  shows "\<exists>P. llselect e = Some (Inr (with_sel P e)) \<and>
    (\<forall>x\<in>set (syms e). list_all2 (selected e x) (productions (symb e x)) (P x))"
proof -
  have "gram_ok e" using assms(1) by (simp add: follow_ok_def)
  then show ?thesis
    using select_pass [OF assms subset_refl, of "\<lambda>x. productions (symb e x)"]
    by (auto simp: llselect_def each_symbol_syms gram_ok_def)
qed

section \<open>What the table holds\<close>

text \<open>Filling the table as a sequence of writes of a number to an index.\<close>

fun write_all :: "(nat \<times> nat) list \<Rightarrow> int list \<times> nat \<Rightarrow> int list \<times> nat" where
  "write_all [] st = st"
| "write_all ((i, n) # ws) (d, errs) =
     write_all ws (if d ! i = - 1 then (d[i := int n], errs) else (d, errs + 1))"

definition prod_writes :: "nat \<Rightarrow> PRODUCTION_S \<Rightarrow> (nat \<times> nat) list" where
  "prod_writes off p = map (\<lambda>i. (off + i, num p)) (set_elems (select p))"

definition row_writes :: "('a parser_env_scheme) \<Rightarrow> nat \<Rightarrow> (nat \<times> nat) list" where
  "row_writes e x =
     (if ISNONTERM e x
      then concat (map (prod_writes (ADJ_VAL (val (symb e x)) * (USED_TERMS e + 1))) (productions (symb e x)))
      else [])"

lemma write_all_length [simp]: "length (fst (write_all ws st)) = length (fst st)"
  by (induction ws st rule: write_all.induct) auto

lemma write_all_append: "write_all (ws @ vs) st = write_all vs (write_all ws st)"
  by (induction ws st rule: write_all.induct) auto

lemma write_all_mono: "snd st \<le> snd (write_all ws st)"
  by (induction ws st rule: write_all.induct) (auto split: if_splits)

lemma write_all_keeps:
  "fst st ! i \<noteq> - 1 \<Longrightarrow> i < length (fst st) \<Longrightarrow> fst (write_all ws st) ! i = fst st ! i"
proof (induction ws st rule: write_all.induct)
  case (2 j n ws d errs)
  then show ?case by (cases "i = j") auto
qed simp

lemma write_all_values:
  assumes "\<forall>(i, n)\<in>set ws. i < length d" and "snd (write_all ws (d, errs)) = errs"
  shows "\<forall>(i, n)\<in>set ws. fst (write_all ws (d, errs)) ! i = int n"
  using assms
proof (induction ws arbitrary: d)
  case (Cons w ws)
  obtain i n where w: "w = (i, n)" by (cases w)
  have free: "d ! i = - 1"
    using Cons.prems(2) write_all_mono [of "(d, errs + 1)" ws] by (auto simp: w split: if_splits)
  then have run: "write_all (w # ws) (d, errs) = write_all ws (d[i := int n], errs)" by (simp add: w)
  have i: "i < length d" using Cons.prems(1) by (simp add: w)
  have "fst (write_all ws (d[i := int n], errs)) ! i = int n"
    using write_all_keeps [of "(d[i := int n], errs)" i ws] i by simp
  moreover have "\<forall>(j, m)\<in>set ws. fst (write_all ws (d[i := int n], errs)) ! j = int m"
    by (rule Cons.IH) (use Cons.prems run in auto)
  ultimately show ?case by (simp add: w free)
qed simp

lemma fill_cells_writes:
  "\<forall>i\<in>set is. off + i < length (fst st) \<Longrightarrow>
    fill_cells off n (map int is) st = Inr (write_all (map (\<lambda>i. (off + i, n)) is) st)"
  by (induction "is" arbitrary: st) (auto simp: not_le [symmetric] split: prod.split)

lemma fill_prods_writes:
  "\<forall>p\<in>set ps. \<forall>i\<in>set (set_elems (select p)). off + i < length (fst st) \<Longrightarrow>
    fill_prods off ps st = Inr (write_all (concat (map (prod_writes off) ps)) st)"
proof (induction ps arbitrary: st)
  case (Cons p ps)
  have d: "fst (drain 0 (select p) iter_init) = map int (set_elems (select p))"
    by (simp add: drain_set_elems iter_init_def)
  have "fill_cells off (num p) (map int (set_elems (select p))) st = Inr (write_all (prod_writes off p) st)"
    using Cons.prems by (simp add: fill_cells_writes prod_writes_def)
  with Cons show ?case by (simp add: d write_all_append)
qed simp

lemma fill_rows_writes:
  "\<forall>x\<in>set xs. \<forall>w\<in>set (row_writes e x). fst w < length (fst st) \<Longrightarrow>
    fold_res (fill_row e) xs st = Inr (write_all (concat (map (row_writes e) xs)) st)"
proof (induction xs arbitrary: st)
  case (Cons x xs)
  have "fill_row e x st = Inr (write_all (row_writes e x) st)"
    using Cons.prems
    by (auto simp: fill_row_def row_writes_def prod_writes_def intro!: fill_prods_writes)
  with Cons show ?case by (simp add: write_all_append)
qed simp

lemma select_elems: "set_plain s \<Longrightarrow> set (set_elems s) = {i \<in> members s. i < 2 ^ 31}"
  by (simp add: set_plain_def)

text \<open>Every member of a SELECT set is a column of the table, every nonterminal has a row.\<close>

lemma row_index_less:
  "r < n \<Longrightarrow> c \<le> m \<Longrightarrow> r * (m + 1) + c < (m + 1) * (n :: nat)"
proof -
  assume "r < n" "c \<le> m"
  then have "r * (m + 1) + c < (r + 1) * (m + 1)" by simp
  also have "\<dots> \<le> n * (m + 1)" using \<open>r < n\<close> by (intro mult_right_mono) simp_all
  finally show ?thesis by (simp add: mult.commute)
qed

lemma used_terms: "USED_TERMS e = g_currterm e"
  by (simp add: USED_TERMS_def MINTERM_def)

lemma dtran_index:
  assumes "gram_ok e" and "x \<in> set (syms e)" and "ISNONTERM e x" and "i \<le> g_currterm e"
  shows "ADJ_VAL (val (symb e x)) * (USED_TERMS e + 1) + i < (USED_TERMS e + 1) * USED_NONTERMS e"
proof (rule row_index_less)
  have "kind_ok e x" and t: "g_currterm e \<le> MAXTERM" using assms(1,2) by (simp_all add: gram_ok_def)
  with assms(3) have "MINNONTERM \<le> val (symb e x)" "val (symb e x) \<le> g_currnonterm e"
    by (auto simp: kind_ok_def ISNONTERM_def kind_codes)
  then show "ADJ_VAL (val (symb e x)) < USED_NONTERMS e"
    by (simp add: ADJ_VAL_def USED_NONTERMS_def less_diff_conv)
qed (simp add: used_terms assms(4))

lemma make_dtran_effect:
  assumes w: "walk_slots (symtab e) (table (symtab e)) = Some (syms e)"
    and bound: "\<And>x p i. x \<in> set (syms e) \<Longrightarrow> ISNONTERM e x \<Longrightarrow> p \<in> set (productions (symb e x)) \<Longrightarrow>
      set_plain (select p) \<and> (i \<in> members (select p) \<longrightarrow> i < 2 ^ 31 \<and>
        ADJ_VAL (val (symb e x)) * (USED_TERMS e + 1) + i < (USED_TERMS e + 1) * USED_NONTERMS e)"
  obtains d errs where "make_dtran e = Some (Inr (d, errs))" "length d = (USED_TERMS e + 1) * USED_NONTERMS e"
    "\<And>x p i. errs = 0 \<Longrightarrow> x \<in> set (syms e) \<Longrightarrow> ISNONTERM e x \<Longrightarrow> p \<in> set (productions (symb e x)) \<Longrightarrow>
      i \<in> members (select p) \<Longrightarrow> d ! (ADJ_VAL (val (symb e x)) * (USED_TERMS e + 1) + i) = int (num p)"
proof -
  let ?n = "(USED_TERMS e + 1) * USED_NONTERMS e"
  let ?st = "(replicate ?n (- 1), 0 :: nat)"
  let ?ws = "concat (map (row_writes e) (syms e))"
  have less: "fst w < ?n" if "x \<in> set (syms e)" "w \<in> set (row_writes e x)" for x w
    using that bound by (auto simp: row_writes_def prod_writes_def select_elems split: if_splits)
  obtain d errs where d: "write_all ?ws ?st = (d, errs)" by fastforce
  have run: "make_dtran e = Some (Inr (d, errs))"
    using fill_rows_writes [of "syms e" e ?st] less d
    by (simp add: make_dtran_def each_symbol_def w)
  show thesis
  proof (rule that [OF run])
    have "length (fst (write_all ?ws ?st)) = ?n"
      by (simp only: write_all_length fst_conv length_replicate)
    then show "length d = ?n" unfolding d by simp
    fix x p i
    assume a: "errs = 0" "x \<in> set (syms e)" "ISNONTERM e x" "p \<in> set (productions (symb e x))"
      "i \<in> members (select p)"
    have "set_plain (select p)" "i < 2 ^ 31" using bound [OF a(2-4)] a(5) by blast+
    then have "(ADJ_VAL (val (symb e x)) * (USED_TERMS e + 1) + i, num p) \<in> set ?ws"
      using a by (auto simp: row_writes_def prod_writes_def select_elems intro!: bexI [of _ x] bexI [of _ p])
    moreover have "\<forall>(i, n)\<in>set ?ws. i < length (replicate ?n (- 1 :: int))" using less by fastforce
    ultimately show "d ! (ADJ_VAL (val (symb e x)) * (USED_TERMS e + 1) + i) = int (num p)"
      using write_all_values [of ?ws "replicate ?n (- 1)" 0] d a(1) by fastforce
  qed
qed

section \<open>The table predicts\<close>

lemma derives_with: "derives (with_first G e) ss w = derives e ss w" "derives (with_follow G e) ss w = derives e ss w"
proof -
  have "derives e ss w \<Longrightarrow> derives (with_first G e) ss w \<and> derives (with_follow G e) ss w"
    by (induction rule: derives.induct) (auto intro: derives.intros)
  moreover have "derives (with_first G e) ss w \<Longrightarrow> derives e ss w"
    by (induction rule: derives.induct) (auto intro: derives.intros)
  moreover have "derives (with_follow G e) ss w \<Longrightarrow> derives e ss w"
    by (induction rule: derives.induct) (auto intro: derives.intros)
  ultimately show "derives (with_first G e) ss w = derives e ss w" "derives (with_follow G e) ss w = derives e ss w"
    by blast+
qed

lemma reach_with: "reach e ss \<Longrightarrow> reach (with_first G e) ss"
  by (induction rule: reach.induct) (auto intro: reach.intros)

text \<open>The state in which the specification has been read and the analysis begins.\<close>

definition fresh_gram :: "('a parser_env_scheme) \<Rightarrow> bool" where
  "fresh_gram e \<longleftrightarrow> follow_ok e \<and> fresh_select e \<and> (\<forall>x. firsts e x = {} \<and> follows e x = {}) \<and>
     (\<forall>g. g_goal_symbol e = Some g \<longrightarrow> g \<in> set (syms e))"

lemma scanF_cong: "(\<And>y. y \<in> set ys \<Longrightarrow> F y = G y) \<Longrightarrow> scanF e F ys = scanF e G ys"
  by (induction ys) (auto simp: skipF_def)

text \<open>The three passes together.\<close>

lemma ll_passes:
  assumes "fresh_gram e"
  obtains G H P where
    "first_sets e = Some (Inr (with_first G e))"
    "follow_sets (with_first G e) = Some (Inr (with_follow H (with_first G e)))"
    "llselect (with_follow H (with_first G e)) = Some (Inr (with_sel P (with_follow H (with_first G e))))"
    "gram_ok (with_first G e)" "firsts (with_first G e) = CF e"
    "follow_ok (with_follow H (with_first G e))"
    "\<And>x. follows (with_follow H (with_first G e)) x = GF (with_first G e) x - {EPS e}"
    "\<And>x. x \<in> set (syms e) \<Longrightarrow>
      list_all2 (selected (with_follow H (with_first G e)) x) (productions (symb e x)) (P x)"
proof -
  have f: "follow_ok e" "fresh_select e" "\<And>x. firsts e x = {}" "\<And>x. follows e x = {}"
    using assms by (simp_all add: fresh_gram_def)
  have ok: "gram_ok e" using f(1) by (simp add: follow_ok_def)
  obtain G where G: "first_sets e = Some (Inr (with_first G e))" "gram_ok (with_first G e)"
    "firsts (with_first G e) = CF e"
    using first_sets_effect [OF ok f(3)] by auto
  let ?e1 = "with_first G e"
  have "follow_ok ?e1" using f(1) G(2) by (simp add: follow_ok_def sets_ok_def)
  moreover have "follows ?e1 x = {}" for x using f(4) by (simp add: follows_def)
  moreover have "firsts ?e1 x \<subseteq> {..EPS ?e1}" for x using CF_range [OF ok] by (simp add: G(3))
  ultimately obtain H where H: "follow_sets ?e1 = Some (Inr (with_follow H ?e1))"
    "follow_ok (with_follow H ?e1)" "\<forall>x. follows (with_follow H ?e1) x = GF ?e1 x - {EPS ?e1}"
    using follow_sets_effect [of ?e1] by blast
  have "fresh_select (with_follow H ?e1)" using f(2) by (simp add: fresh_select_def)
  from llselect_effect [OF H(2) this] obtain P where
    P: "llselect (with_follow H ?e1) = Some (Inr (with_sel P (with_follow H ?e1)))"
    "\<forall>x\<in>set (syms e). list_all2 (selected (with_follow H ?e1) x) (productions (symb e x)) (P x)"
    by auto
  show thesis by (rule that [OF G(1) H(1) P(1) G(2,3) H(2)]) (use H(3) P(2) in simp_all)
qed

lemma selF_range:
  assumes "gram_ok e" and "\<And>x. firsts e x \<subseteq> {..EPS e}" and "follows e x \<subseteq> {..EPS e}"
    and "set (rhs p) \<subseteq> set (syms e)"
  shows "selF e x p \<subseteq> {..g_currterm e}"
proof -
  have "selF e x p \<subseteq> {..EPS e} - {EPS e}"
    using scanF_range [where F = "firsts e", OF assms(1,2,4)] assms(3) by (auto simp: selF_def split: if_splits)
  then show ?thesis by (fastforce simp: EPS_def)
qed

lemma ll_tables_effect:
  assumes fresh: "fresh_gram e"
  obtains e3 d errs where "ll_tables e = Some (Inr (e3, d, errs))"
    "length d = (USED_TERMS e + 1) * USED_NONTERMS e"
    "\<And>x p ss w. errs = 0 \<Longrightarrow> reach e (x # ss) \<Longrightarrow> ISNONTERM e x \<Longrightarrow> p \<in> set (productions (symb e x)) \<Longrightarrow>
      derives e (rhs p @ ss) w \<Longrightarrow>
      d ! (ADJ_VAL (val (symb e x)) * (USED_TERMS e + 1) + lookahead e w) = int (num p)"
proof -
  obtain G H P where passes: "first_sets e = Some (Inr (with_first G e))"
    "follow_sets (with_first G e) = Some (Inr (with_follow H (with_first G e)))"
    "llselect (with_follow H (with_first G e)) = Some (Inr (with_sel P (with_follow H (with_first G e))))"
    and ok1: "gram_ok (with_first G e)" and F: "firsts (with_first G e) = CF e"
    and ok2: "follow_ok (with_follow H (with_first G e))"
    and FO: "\<And>x. follows (with_follow H (with_first G e)) x = GF (with_first G e) x - {EPS e}"
    and P: "\<And>x. x \<in> set (syms e) \<Longrightarrow>
      list_all2 (selected (with_follow H (with_first G e)) x) (productions (symb e x)) (P x)"
    by (rule ll_passes [OF fresh]) blast
  define e1 where "e1 = with_first G e"
  define e2 where "e2 = with_follow H e1"
  define e3 where "e3 = with_sel P e2"
  have ok: "gram_ok e" and goal: "\<And>g. g_goal_symbol e1 = Some g \<Longrightarrow> g \<in> set (syms e1)"
    using fresh by (auto simp: fresh_gram_def follow_ok_def e1_def)
  have g2: "gram_ok e2" using ok2 by (simp add: follow_ok_def e1_def e2_def)
  have same: "syms e3 = syms e" "USED_TERMS e3 = USED_TERMS e" "USED_NONTERMS e3 = USED_NONTERMS e"
    "\<And>x. ISNONTERM e3 x = ISNONTERM e x" "\<And>x. val (symb e3 x) = val (symb e x)" "symtab e3 = symtab e"
    "\<And>x. productions (symb e3 x) = P x" "firsts e2 = CF e" "EPS e2 = EPS e" "syms e2 = syms e"
    "g_currterm e2 = g_currterm e" "\<And>x. productions (symb e2 x) = productions (symb e x)"
    by (simp_all add: e1_def e2_def e3_def F USED_TERMS_def USED_NONTERMS_def)
  have range: "selF e2 x p \<subseteq> {..g_currterm e}" if "x \<in> set (syms e)" "p \<in> set (productions (symb e x))" for x p
    unfolding same(11) [symmetric]
  proof (rule selF_range [OF g2])
    show "firsts e2 y \<subseteq> {..EPS e2}" for y using CF_range [OF ok] by (simp add: same)
    show "follows e2 x \<subseteq> {..EPS e2}"
      using GF_range [OF ok1] CF_range [OF ok] FO [of x] by (auto simp: e1_def e2_def GF_def F same)
    show "set (rhs p) \<subseteq> set (syms e2)" using gram_rhs [OF ok that] by (simp add: same)
  qed
  have sel: "\<exists>p'\<in>set (P x). selected e2 x p p'" if "x \<in> set (syms e)" "p \<in> set (productions (symb e x))" for x p
    using list_all2_left [OF P [OF that(1)] that(2)] by (simp add: e1_def e2_def)
  have sel': "\<exists>p\<in>set (productions (symb e x)). selected e2 x p p'" if "x \<in> set (syms e)" "p' \<in> set (P x)" for x p'
    using list_all2_right [OF P [OF that(1)] that(2)] by (simp add: e1_def e2_def)
  have walk: "walk_slots (symtab e3) (table (symtab e3)) = Some (syms e3)"
    using ok by (auto simp: same gram_ok_def syms_def)
  obtain d errs where d: "make_dtran e3 = Some (Inr (d, errs))" "length d = (USED_TERMS e + 1) * USED_NONTERMS e"
    "\<And>x p i. errs = 0 \<Longrightarrow> x \<in> set (syms e) \<Longrightarrow> ISNONTERM e x \<Longrightarrow> p \<in> set (P x) \<Longrightarrow>
      i \<in> members (select p) \<Longrightarrow> d ! (ADJ_VAL (val (symb e x)) * (USED_TERMS e + 1) + i) = int (num p)"
  proof (rule make_dtran_effect [OF walk, unfolded same])
    fix x p' i
    assume a: "x \<in> set (syms e)" "ISNONTERM e x" "p' \<in> set (P x)"
    obtain p where p: "p \<in> set (productions (symb e x))" "selected e2 x p p'" using sel' a by blast
    then have "i \<in> members (select p') \<Longrightarrow> i \<le> g_currterm e"
      using range [OF a(1)] by (auto simp: selected_def)
    moreover have "g_currterm e < 2 ^ 31" using ok by (simp add: gram_ok_def kind_codes)
    ultimately show "set_plain (select p') \<and> (i \<in> members (select p') \<longrightarrow> i < 2 ^ 31 \<and>
      ADJ_VAL (val (symb e x)) * (USED_TERMS e + 1) + i < (USED_TERMS e + 1) * USED_NONTERMS e)"
      using p dtran_index [OF ok a(1,2)] by (auto simp: selected_def)
  qed blast
  show thesis
  proof (rule that)
    show "ll_tables e = Some (Inr (e3, d, errs))"
      using passes d(1) by (simp add: ll_tables_def e1_def e2_def e3_def)
    show "length d = (USED_TERMS e + 1) * USED_NONTERMS e" by (rule d(2))
    fix x p ss w
    assume a: "errs = 0" "reach e (x # ss)" "ISNONTERM e x" "p \<in> set (productions (symb e x))"
      "derives e (rhs p @ ss) w"
    have r1: "reach e1 (x # ss)" using reach_with a(2) by (simp add: e1_def)
    have ok1': "gram_ok e1" using ok1 by (simp add: e1_def)
    note rb = reach_behind [OF ok1' goal r1]
    have x: "x \<in> set (syms e)" and ss: "set ss \<subseteq> set (syms e)" using rb by (auto simp: e1_def)
    have behind: "behind e1 ss \<subseteq> GF e1 x"
      using rb a(3) by (auto simp: e1_def dest: spec [of _ "[]"])
    have rs: "set (rhs p @ ss) \<subseteq> set (syms e)" using gram_rhs [OF ok x a(4)] ss by simp
    have "lookahead e1 w \<in> behind e1 (rhs p @ ss)"
      by (rule derives_behind [OF ok1']) (use a(5) F rs in \<open>simp_all add: e1_def derives_with\<close>)
    then have "lookahead e w \<in> scanF e1 (firsts e1) (rhs p) \<union>
        (if \<forall>y\<in>set (rhs p). skipF e1 (firsts e1) y then GF e1 x else {})"
      using behind by (auto simp: behind_append e1_def lookahead_def split: if_splits list.splits)
    moreover have "lookahead e w \<noteq> EPS e" by (rule lookahead_not_EPS [OF ok a(5) rs])
    moreover have "selF e2 x p = ((if rhs p = [] then {EPS e} else scanF e1 (firsts e1) (rhs p)) \<union>
        (if \<forall>y\<in>set (rhs p). skipF e1 (firsts e1) y then GF e1 x - {EPS e} else {})) - {EPS e}"
      unfolding selF_def e2_def by (simp add: FO [folded e1_def] cong: if_cong) (simp add: e1_def)
    ultimately have "lookahead e w \<in> selF e2 x p"
      by (cases "rhs p = []") (simp_all split: if_splits)
    moreover obtain p' where p': "p' \<in> set (P x)" "selected e2 x p p'" using sel [OF x a(4)] by blast
    ultimately have "lookahead e w \<in> members (select p')" by (simp add: selected_def)
    moreover have "num p' = num p"
    proof -
      have "p' = p\<lparr>select := select p'\<rparr>" using p'(2) unfolding selected_def by (rule conjunct1)
      then show ?thesis by (rule ssubst) simp
    qed
    ultimately show "d ! (ADJ_VAL (val (symb e x)) * (USED_TERMS e + 1) + lookahead e w) = int (num p)"
      using d(3) [OF a(1) x a(3) p'(1)] by simp
  qed
qed

end
