(* ===== verification/Ll.thy ===== *)
theory Ll
  imports Select
begin

text \<open>
  The properties of the LL(1) analysis of llama: the FIRST and FOLLOW sets, and the table
  that \<open>do_file\<close> makes of them.
\<close>

section \<open>A small grammar\<close>

text \<open>
  \<open>s : a b\<close> and \<open>a\<close> with an empty right-hand side.  The symbols \<open>s\<close>, \<open>a\<close> and \<open>b\<close> have the
  addresses 5, 6 and 7 and hang off one slot of the table.
\<close>

definition no_symbol :: SYMBOL_S where
  "no_symbol = \<lparr>sname = [], field = [], val = 0, used = 0, defined = 0, sym_lineno = 0, action = None,
     productions = [], first = None, follow = None\<rparr>"

definition demo_symb :: "nat \<Rightarrow> SYMBOL_S" where
  "demo_symb a =
     (if a = 5 then no_symbol\<lparr>sname := ''s'', val := 256, first := Some set_new, follow := Some set_new,
        productions := [\<lparr>num = 0, rhs = [6, 7], lhs = 5, non_acts = 2, select = set_new, prec = 0\<rparr>]\<rparr>
      else if a = 6 then no_symbol\<lparr>sname := ''a'', val := 257, first := Some set_new, follow := Some set_new,
        productions := [\<lparr>num = 1, rhs = [], lhs = 6, non_acts = 0, select = set_new, prec = 0\<rparr>]\<rparr>
      else if a = 7 then no_symbol\<lparr>sname := ''b'', val := 1\<rparr>
      else no_symbol)"

definition demo_symtab :: "string HASH_TAB_S" where
  "demo_symtab = \<lparr>max_size = 1, curr_num = 3, table = [Some 5],
     heap = [5 \<mapsto> \<lparr>bnext = Some 6, bprev = Slot 0, user = ''s''\<rparr>,
             6 \<mapsto> \<lparr>bnext = Some 7, bprev = NextOf 5, user = ''a''\<rparr>,
             7 \<mapsto> \<lparr>bnext = None, bprev = NextOf 6, user = ''b''\<rparr>]\<rparr>"

definition demo_gram :: parser_env where
  "demo_gram = \<lparr>llama = True, symtab = demo_symtab, symb = demo_symb, g_terms = (\<lambda>_. None),
     g_precedence = (\<lambda>_. \<lparr>level = 0, assoc = 0\<rparr>), g_synch = set_new, g_goal_symbol = Some 5,
     g_currterm = 1, g_currnonterm = 257, g_curract = 511, g_num_productions = 2\<rparr>"

lemma demo_walk: "walk_slots (symtab demo_gram) (table (symtab demo_gram)) = Some [5, 6, 7]"
  by (simp add: demo_gram_def demo_symtab_def walk.simps buck_def)

lemma demo_syms: "syms demo_gram = [5, 6, 7]"
  by (simp add: syms_def demo_walk)

lemma demo_kinds:
  "ISNONTERM demo_gram 5" "ISNONTERM demo_gram 6" "ISTERM demo_gram 7" "\<not> ISNONTERM demo_gram 7"
  "\<not> ISACT demo_gram 5" "\<not> ISACT demo_gram 6" "\<not> ISACT demo_gram 7" "\<not> ISTERM demo_gram 5" "\<not> ISTERM demo_gram 6"
  by (simp_all add: ISNONTERM_def ISTERM_def ISACT_def kind_codes demo_gram_def demo_symb_def no_symbol_def)

lemma demo_fields:
  "symb demo_gram = demo_symb" "g_goal_symbol demo_gram = Some 5" "g_currterm demo_gram = 1"
  "g_currnonterm demo_gram = 257"
  by (simp_all add: demo_gram_def)

lemma demo_prods:
  "productions (symb demo_gram 5) = [\<lparr>num = 0, rhs = [6, 7], lhs = 5, non_acts = 2, select = set_new, prec = 0\<rparr>]"
  "productions (symb demo_gram 6) = [\<lparr>num = 1, rhs = [], lhs = 6, non_acts = 0, select = set_new, prec = 0\<rparr>]"
  "productions (symb demo_gram 7) = []"
  by (simp_all add: demo_fields demo_symb_def no_symbol_def)

lemma demo_ok: "gram_ok demo_gram"
  by (auto simp: gram_ok_def demo_walk demo_syms kind_ok_def prod_ok_def sets_ok_def demo_kinds demo_prods
      demo_fields kind_codes demo_symb_def no_symbol_def)

lemma demo_fresh: "fresh_gram demo_gram"
proof -
  have "firsts demo_gram x = {} \<and> follows demo_gram x = {}" for x
    by (simp add: firsts_def follows_def demo_fields demo_symb_def no_symbol_def)
  moreover have "follow_ok demo_gram"
    by (auto simp: follow_ok_def demo_ok sets_ok_def demo_syms demo_kinds demo_fields demo_symb_def no_symbol_def)
  ultimately show ?thesis
    by (simp add: fresh_gram_def fresh_select_def demo_syms demo_prods) (simp add: demo_fields)
qed

lemma demo_first_a: "code_first demo_gram 6 (EPS demo_gram)"
  by (rule code_first.empty_prod [of 6 _ "hd (productions (symb demo_gram 6))"])
    (simp_all add: demo_syms demo_kinds demo_prods)

lemma demo_derives: "derives demo_gram [5] [7]"
proof -
  have "derives demo_gram [6, 7] ([] @ [7])"
    by (rule derives.non [of _ _ "hd (productions (symb demo_gram 6))"])
      (simp_all add: demo_kinds demo_prods derives.none derives.trm)
  then have "derives demo_gram [5] ([7] @ [])"
    by (intro derives.non [of _ _ "hd (productions (symb demo_gram 5))"])
      (simp_all add: demo_kinds demo_prods derives.none)
  then show ?thesis by simp
qed

section \<open>Properties\<close>

text \<open>C14.
  The computation of the FIRST sets ends, changes nothing but these sets, and leaves in them
  exactly the numbers that the rules in the comment of \<open>first_closure\<close>, and the one of the code
  for empty right-hand sides, put there: the least sets closed under the rules.
\<close>

theorem first_sets_least:
  assumes "gram_ok e" and "\<And>x. firsts e x = {}"
  shows "\<exists>G. first_sets e = Some (Inr (with_first G e)) \<and>
    (\<forall>x t. t \<in> firsts (with_first G e) x \<longleftrightarrow> code_first e x t)"
  using first_sets_effect [OF assms] by (auto simp: CF_def)

theorem first_sets_least_witness:
  "\<exists>G. first_sets demo_gram = Some (Inr (with_first G demo_gram)) \<and>
     EPS demo_gram \<in> firsts (with_first G demo_gram) 6"
proof -
  have "firsts demo_gram x = {}" for x using demo_fresh by (simp add: fresh_gram_def)
  from first_sets_least [OF demo_ok this] demo_first_a show ?thesis by blast
qed

text \<open>C15.
  The FIRST sets miss nothing: if the symbols of a nonterminal derive a string that begins
  with a terminal, the number of the terminal is in the set of the nonterminal, and if they
  derive the empty string, the number of epsilon is.
\<close>

theorem first_sets_cover:
  assumes "gram_ok e" and "\<And>x. firsts e x = {}" and "first_sets e = Some (Inr e')"
    and "x \<in> set (syms e)" and "ISNONTERM e x" and "derives e [x] w"
  shows "(case w of [] \<Rightarrow> EPS e | y # _ \<Rightarrow> val (symb e y)) \<in> firsts e' x"
proof -
  have "firsts e' = CF e" using first_sets_effect [OF assms(1,2)] assms(3) by auto
  moreover have "\<not> ISTERM e x" using assms(5) kinds_disjoint by blast
  ultimately show ?thesis
    using derives_first [OF assms(1,6)] assms(4,5) kinds_disjoint(3) [OF assms(5)]
    by (cases w) (auto simp: skipF_def lookahead_def split: if_splits)
qed

theorem first_sets_cover_witness:
  "\<exists>e'. first_sets demo_gram = Some (Inr e') \<and> 1 \<in> firsts e' 5"
proof -
  have f: "firsts demo_gram x = {}" for x using demo_fresh by (simp add: fresh_gram_def)
  obtain G where G: "first_sets demo_gram = Some (Inr (with_first G demo_gram))"
    using first_sets_effect [OF demo_ok f] by blast
  have "5 \<in> set (syms demo_gram)" by (simp add: demo_syms)
  from first_sets_cover [OF demo_ok f G this demo_kinds(1) demo_derives] G show ?thesis
    by (auto simp: demo_fields demo_symb_def no_symbol_def)
qed

text \<open>C17.
  The FIRST sets may hold too much: in the grammar with \<open>s : a b\<close> and an empty \<open>a\<close>, the number
  of epsilon gets into the set of \<open>s\<close> with the set of \<open>a\<close>, although \<open>s\<close> does not derive the
  empty string; from then on \<open>s\<close> is taken for nullable.
\<close>

theorem first_sets_leak_epsilon:
  "\<exists>e'. first_sets demo_gram = Some (Inr e') \<and> NULLABLE e' 5 = Inr True \<and> \<not> derives demo_gram [5] []"
proof -
  have f: "firsts demo_gram x = {}" for x using demo_fresh by (simp add: fresh_gram_def)
  obtain G where G: "first_sets demo_gram = Some (Inr (with_first G demo_gram))"
    "gram_ok (with_first G demo_gram)" "firsts (with_first G demo_gram) = CF demo_gram"
    using first_sets_effect [OF demo_ok f] by blast
  have "code_first demo_gram 5 (EPS demo_gram)"
    by (rule code_first.descends [of 5 _ "hd (productions (symb demo_gram 5))" "[]" 6 "[7]"])
      (simp_all add: demo_syms demo_kinds demo_prods demo_first_a)
  then have "NULLABLE (with_first G demo_gram) 5 = Inr True"
    using NULLABLE_effect [OF G(2), of 5] by (simp add: demo_syms demo_kinds G(3) CF_def)
  moreover have "\<not> derives demo_gram [5] []"
    using derives_first [OF demo_ok, of "[5]" "[]"]
    by (auto simp: demo_kinds demo_prods elim!: derives_ConsE)
  ultimately show ?thesis using G(1) by blast
qed

text \<open>C16.
  After the FIRST sets, the computation of the FOLLOW sets ends, changes nothing but these
  sets, and leaves in them the least sets closed under the rules in the comments of \<open>init\<close>
  and \<open>follow_closure\<close>, without epsilon.
\<close>

theorem follow_sets_least:
  assumes "fresh_gram e"
  shows "\<exists>G H. first_sets e = Some (Inr (with_first G e)) \<and>
    follow_sets (with_first G e) = Some (Inr (with_follow H (with_first G e))) \<and>
    (\<forall>x t. t \<in> follows (with_follow H (with_first G e)) x \<longleftrightarrow>
       t \<noteq> EPS e \<and> code_follow (with_first G e) x t)"
proof -
  obtain G H P where "first_sets e = Some (Inr (with_first G e))"
    "follow_sets (with_first G e) = Some (Inr (with_follow H (with_first G e)))"
    "\<And>x. follows (with_follow H (with_first G e)) x = GF (with_first G e) x - {EPS e}"
    by (rule ll_passes [OF assms]) blast
  then show ?thesis by (auto simp: GF_def)
qed

theorem follow_sets_least_witness:
  "\<exists>e1 e2. first_sets demo_gram = Some (Inr e1) \<and> follow_sets e1 = Some (Inr e2) \<and> EOI \<in> follows e2 5"
proof -
  obtain G H where 1: "first_sets demo_gram = Some (Inr (with_first G demo_gram))"
    "follow_sets (with_first G demo_gram) = Some (Inr (with_follow H (with_first G demo_gram)))"
    "\<And>x t. t \<in> follows (with_follow H (with_first G demo_gram)) x \<longleftrightarrow>
       t \<noteq> EPS demo_gram \<and> code_follow (with_first G demo_gram) x t"
    using follow_sets_least [OF demo_fresh] by blast
  have "code_follow (with_first G demo_gram) 5 EOI"
    by (rule code_follow.goal) (simp_all add: demo_fields demo_syms demo_kinds)
  moreover have "EOI \<noteq> EPS demo_gram" by (simp add: EOI_def EPS_def)
  ultimately show ?thesis using 1 by blast
qed

text \<open>C9.
  The table predicts.  The analysis of a grammar ends with a table of one row for every
  nonterminal and one column for every token and the end of input, without a write outside.
  If it reports no conflict, the table never misleads the parser: whenever a nonterminal is
  on top of a stack that the parser can have, and the rest of the input can be derived with
  one of its productions, the entry for the nonterminal and the next token is the number of
  that production.
\<close>

theorem ll_table_predicts:
  assumes "fresh_gram e"
  shows "\<exists>e3 d errs. ll_tables e = Some (Inr (e3, d, errs)) \<and>
    length d = (USED_TERMS e + 1) * USED_NONTERMS e \<and>
    (errs = 0 \<longrightarrow> (\<forall>x p ss w. reach e (x # ss) \<longrightarrow> ISNONTERM e x \<longrightarrow> p \<in> set (productions (symb e x)) \<longrightarrow>
      derives e (rhs p @ ss) w \<longrightarrow>
      d ! (ADJ_VAL (val (symb e x)) * (USED_TERMS e + 1) + lookahead e w) = int (num p)))"
  by (rule ll_tables_effect [OF assms]) blast

theorem ll_table_predicts_witness:
  "\<exists>e3 d errs. ll_tables demo_gram = Some (Inr (e3, d, errs)) \<and> length d = 4 \<and>
     (errs = 0 \<longrightarrow> d ! 1 = 0)"
proof -
  obtain e3 d errs where 1: "ll_tables demo_gram = Some (Inr (e3, d, errs))"
    "length d = (USED_TERMS demo_gram + 1) * USED_NONTERMS demo_gram"
    "errs = 0 \<Longrightarrow> reach demo_gram (x # ss) \<Longrightarrow> ISNONTERM demo_gram x \<Longrightarrow>
      p \<in> set (productions (symb demo_gram x)) \<Longrightarrow> derives demo_gram (rhs p @ ss) w \<Longrightarrow>
      d ! (ADJ_VAL (val (symb demo_gram x)) * (USED_TERMS demo_gram + 1) + lookahead demo_gram w) = int (num p)"
    for x p ss w
    using ll_table_predicts [OF demo_fresh] by blast
  have r: "reach demo_gram [5]" by (rule reach.start) (simp add: demo_fields)
  have "derives demo_gram [6, 7] ([] @ [7])"
    by (rule derives.non [of _ _ "hd (productions (symb demo_gram 6))"])
      (simp_all add: demo_kinds demo_prods derives.none derives.trm)
  with 1(3) [of 5 "[]" "hd (productions (symb demo_gram 5))" "[7]"] r have "errs = 0 \<Longrightarrow> d ! 1 = 0"
    by (simp add: demo_kinds demo_prods) (simp add: demo_fields demo_symb_def no_symbol_def ADJ_VAL_def
        MINNONTERM_def lookahead_def)
  with 1(1,2) show ?thesis
    by (auto simp: USED_TERMS_def USED_NONTERMS_def demo_fields MINTERM_def MINNONTERM_def)
qed

end
