(* ===== verification/LrState.thy ===== *)
theory LrState
  imports First ShellSort "HOL-Library.Tree"
begin

text \<open>
  The LALR(1) machine of \<open>src/compiler/parser/yystate.c\<close>: items, states, the table in which
  states are looked up by their kernels, and the tree of unfinished states.

  Productions do not change while the machine is built; the pointer to a production is the
  production itself, and two productions are told apart by their numbers.  A state is its
  number, which is also the address of its bucket in the hash table.  An item is owned by
  one array at a time (a closure, a kernel or the epsilon items of a state), so arrays of
  pointers to items are lists of items.
\<close>

section \<open>Data\<close>

definition MAXSTATE :: nat where "MAXSTATE = 1024"
definition MAXKERNEL :: nat where "MAXKERNEL = 64"
definition MAXCLOSE :: int where "MAXCLOSE = 256"
definition MAXEPSILON :: nat where "MAXEPSILON = 16"
definition MAXUNFINISHED :: nat where "MAXUNFINISHED = 257"

record ITEM_S =
  prod :: PRODUCTION_S
  right_of_dot :: "nat option"
  dot_posn :: nat
  lookaheads :: SET_S

record STATE_S =
  kernel_items :: "ITEM_S list"
  epsilon_items :: "ITEM_S list"
  closed :: bool

record ACT_S =
  sym :: nat
  do_this :: int

text \<open>
  The static variables of the file.  \<open>recycled_items\<close> is the free list: of a freed item only
  its set is used again.  \<open>available\<close> is the length of the free list of tree nodes,
  \<open>next_alloc_tnode\<close> the number of nodes taken from the array.  \<open>warnings\<close> is the counter of
  \<open>error.c\<close>.
\<close>

record lr_env = parser_env +
  states_hashtab :: "(nat \<times> nat) list HASH_TAB_S"
  lr_states :: "STATE_S list"
  nitems :: int
  ntab_entries :: nat
  nshift_reduce :: nat
  nreduce_reduce :: nat
  actions :: "nat \<Rightarrow> ACT_S list"
  gotos :: "nat \<Rightarrow> ACT_S list"
  unfinished :: "nat tree"
  available :: nat
  next_alloc_tnode :: nat
  recycled_items :: "SET_S list"
  warnings :: nat

text \<open>\<open>error(FATAL, ...)\<close> ends the program with \<open>EXIT_OTHER\<close>.\<close>

definition EXIT_OTHER :: int where "EXIT_OTHER = 252"

definition fatal :: "'b res" where "fatal = Inl (Exit EXIT_OTHER)"

text \<open>The entry of the array \<open>rhs\<close>, null behind the last symbol.\<close>

definition rhs_at :: "PRODUCTION_S \<Rightarrow> nat \<Rightarrow> nat option" where
  "rhs_at p i = (if i < length (rhs p) then Some (rhs p ! i) else None)"

definition prod_num :: "ITEM_S \<Rightarrow> nat" where
  "prod_num it = num (prod it)"

definition RIGHT_OF_DOT :: "('a lr_env_scheme) \<Rightarrow> ITEM_S \<Rightarrow> nat" where
  "RIGHT_OF_DOT e it = (case right_of_dot it of None \<Rightarrow> 0 | Some x \<Rightarrow> val (symb e x))"

section \<open>States by their kernels\<close>

text \<open>
  The key of a state is the list of the production numbers and dot positions of its kernel.
  \<open>state_hash\<close> and \<open>state_cmp\<close> read the key that is searched from a global variable; here it
  is their first argument.  The differences are unsigned and become an \<open>int\<close>.
\<close>

definition state_key :: "ITEM_S list \<Rightarrow> (nat \<times> nat) list" where
  "state_key items = map (\<lambda>it. (prod_num it, dot_posn it)) items"

fun state_hash :: "(nat \<times> nat) list \<Rightarrow> u32" where
  "state_hash [] = 0"
| "state_hash ((n, d) # ks) = of_nat (n + d) + state_hash ks"

fun key_cmp :: "(nat \<times> nat) list \<Rightarrow> (nat \<times> nat) list \<Rightarrow> int" where
  "key_cmp ((n, d) # ks) ((m, c) # ls) =
     (let r = sint (of_nat n - of_nat m :: u32)
      in if r \<noteq> 0 then r
         else let r' = sint (of_nat d - of_nat c :: u32)
              in if r' \<noteq> 0 then r' else key_cmp ks ls)"
| "key_cmp _ _ = 0"

definition state_cmp :: "(nat \<times> nat) list \<Rightarrow> (nat \<times> nat) list \<Rightarrow> int" where
  "state_cmp ks ls =
     (if length ks \<noteq> length ls then int (length ks) - int (length ls) else key_cmp ks ls)"

datatype new_state = NEW | UNCLOSED | CLOSED

definition newstate :: "ITEM_S list \<Rightarrow> ('a lr_env_scheme) \<Rightarrow> (new_state \<times> nat \<times> ('a lr_env_scheme)) run" where
  "newstate items e =
     (if MAXKERNEL < length items then Some fatal
      else
        (case hash_find_sym state_hash state_cmp (states_hashtab e) (state_key items) of
           None \<Rightarrow> None
         | Some (Some n) \<Rightarrow> Some (Inr (if closed (lr_states e ! n) then CLOSED else UNCLOSED, n, e))
         | Some None \<Rightarrow>
             (let n = length (lr_states e)
              in if MAXSTATE \<le> n then Some fatal
                 else Some (Inr (NEW, n,
                   e\<lparr>lr_states := lr_states e @ [\<lparr>kernel_items = items, epsilon_items = [], closed = False\<rparr>],
                     states_hashtab := hash_add_sym state_hash
                       (hash_new_sym (states_hashtab e) n (state_key items)) n\<rparr>)))))"

section \<open>Unfinished states\<close>

text \<open>
  The tree is searched from the root; a number that is not found becomes a leaf, in a node
  of the free list or of the array.
\<close>

fun tree_mem :: "nat tree \<Rightarrow> nat \<Rightarrow> bool" where
  "tree_mem Leaf n \<longleftrightarrow> False"
| "tree_mem (Node l m r) n \<longleftrightarrow> (if n = m then True else if n < m then tree_mem l n else tree_mem r n)"

fun tree_hang :: "nat \<Rightarrow> nat tree \<Rightarrow> nat tree" where
  "tree_hang n Leaf = Node Leaf n Leaf"
| "tree_hang n (Node l m r) =
     (if n = m then Node l m r
      else if n < m then Node (tree_hang n l) m r else Node l m (tree_hang n r))"

definition add_unfinished :: "nat \<Rightarrow> ('a lr_env_scheme) \<Rightarrow> ('a lr_env_scheme) res" where
  "add_unfinished n e =
     (if tree_mem (unfinished e) n then Inr e
      else if 0 < available e
      then Inr (e\<lparr>available := available e - 1, unfinished := tree_hang n (unfinished e)\<rparr>)
      else if MAXUNFINISHED \<le> next_alloc_tnode e then fatal
      else Inr (e\<lparr>next_alloc_tnode := next_alloc_tnode e + 1, unfinished := tree_hang n (unfinished e)\<rparr>))"

text \<open>The leftmost node is replaced by its right subtree and goes to the free list.\<close>

fun take_leftmost :: "nat tree \<Rightarrow> (nat \<times> nat tree) option" where
  "take_leftmost Leaf = None"
| "take_leftmost (Node l m r) =
     (case take_leftmost l of None \<Rightarrow> Some (m, r) | Some (n, l') \<Rightarrow> Some (n, Node l' m r))"

definition get_unfinished :: "('a lr_env_scheme) \<Rightarrow> (nat \<times> ('a lr_env_scheme)) option" where
  "get_unfinished e =
     (case take_leftmost (unfinished e) of
        None \<Rightarrow> None
      | Some (n, t) \<Rightarrow> Some (n, e\<lparr>unfinished := t, available := available e + 1\<rparr>))"

section \<open>Items\<close>

definition newitem :: "PRODUCTION_S \<Rightarrow> ('a lr_env_scheme) \<Rightarrow> ITEM_S \<times> ('a lr_env_scheme)" where
  "newitem p e =
     (case recycled_items e of
        [] \<Rightarrow>
          (\<lparr>prod = p, right_of_dot = rhs_at p 0, dot_posn = 0, lookaheads = set_new\<rparr>,
           e\<lparr>nitems := nitems e + 1\<rparr>)
      | s # rest \<Rightarrow>
          (\<lparr>prod = p, right_of_dot = rhs_at p 0, dot_posn = 0, lookaheads = SET_CLEAR s\<rparr>,
           e\<lparr>nitems := nitems e + 1, recycled_items := rest\<rparr>))"

definition freeitem :: "ITEM_S \<Rightarrow> ('a lr_env_scheme) \<Rightarrow> ('a lr_env_scheme)" where
  "freeitem it e = e\<lparr>nitems := nitems e - 1, recycled_items := lookaheads it # recycled_items e\<rparr>"

definition free_recycled_items :: "('a lr_env_scheme) \<Rightarrow> ('a lr_env_scheme)" where
  "free_recycled_items e = e\<lparr>recycled_items := []\<rparr>"

definition movedot :: "ITEM_S \<Rightarrow> ITEM_S" where
  "movedot it = it\<lparr>right_of_dot := rhs_at (prod it) (dot_posn it + 1), dot_posn := dot_posn it + 1\<rparr>"

text \<open>The order of items: by the symbol behind the dot, the production and the dot.\<close>

definition item_cmp :: "('a lr_env_scheme) \<Rightarrow> ITEM_S \<Rightarrow> ITEM_S \<Rightarrow> int" where
  "item_cmp e a b =
     (let r = sint (of_nat (RIGHT_OF_DOT e a) - of_nat (RIGHT_OF_DOT e b) :: u32)
      in if r \<noteq> 0 then r
         else let r' = sint (of_nat (prod_num a) - of_nat (prod_num b) :: u32)
              in if r' \<noteq> 0 then r' else sint (of_nat (dot_posn a) - of_nat (dot_posn b) :: u32))"

section \<open>Actions and gotos\<close>

fun find_act :: "ACT_S list \<Rightarrow> nat \<Rightarrow> ACT_S option" where
  "find_act [] s = None"
| "find_act (a # as) s = (if sym a = s then Some a else find_act as s)"

definition p_action :: "('a lr_env_scheme) \<Rightarrow> nat \<Rightarrow> nat \<Rightarrow> ACT_S option" where
  "p_action e state input_sym = find_act (actions e state) input_sym"

definition add_action :: "nat \<Rightarrow> nat \<Rightarrow> int \<Rightarrow> ('a lr_env_scheme) \<Rightarrow> ('a lr_env_scheme)" where
  "add_action state input_sym x e =
     e\<lparr>ntab_entries := ntab_entries e + 1,
       actions := (actions e)(state := \<lparr>sym = input_sym, do_this = x\<rparr> # actions e state)\<rparr>"

definition p_goto :: "('a lr_env_scheme) \<Rightarrow> nat \<Rightarrow> nat \<Rightarrow> ACT_S option" where
  "p_goto e state nonterminal = find_act (gotos e state) (ADJ_VAL nonterminal)"

definition add_goto :: "nat \<Rightarrow> nat \<Rightarrow> nat \<Rightarrow> ('a lr_env_scheme) \<Rightarrow> ('a lr_env_scheme)" where
  "add_goto state nonterminal go_here e =
     e\<lparr>ntab_entries := ntab_entries e + 1,
       gotos := (gotos e)(state := \<lparr>sym = ADJ_VAL nonterminal, do_this = int go_here\<rparr> # gotos e state)\<rparr>"

text \<open>The assignment \<open>ap->do_this = x\<close> through the pointer that \<open>p_action\<close> returned.\<close>

fun set_do_this :: "ACT_S list \<Rightarrow> nat \<Rightarrow> int \<Rightarrow> ACT_S list" where
  "set_do_this [] s x = []"
| "set_do_this (a # as) s x = (if sym a = s then a\<lparr>do_this := x\<rparr> # as else a # set_do_this as s x)"

end
