(* ===== verification/LrClose.thy ===== *)
theory LrClose
  imports LrState
begin

text \<open>
  The LR(1) closure of \<open>src/compiler/parser/yystate.c\<close> and the operations on the items it
  makes.
\<close>

section \<open>Closure\<close>

definition add_lookahead :: "SET_S \<Rightarrow> SET_S \<Rightarrow> (bool \<times> SET_S) res" where
  "add_lookahead dst src =
     (if SET_IS_EMPTY src then Inr (False, dst)
      else bind_res (set_subset (Some dst) (Some src)) (\<lambda>sub.
        if \<not> sub then Inr (True, SET_UNION dst src) else Inr (False, dst)))"

fun in_closure_items :: "PRODUCTION_S \<Rightarrow> ITEM_S list \<Rightarrow> nat option" where
  "in_closure_items p [] = None"
| "in_closure_items p (it # items) =
     (if num (prod it) = num p then Some 0 else map_option Suc (in_closure_items p items))"

text \<open>
  \<open>do_close\<close> works on an item of the kernel or on an item of the closure itself; an item of
  the closure is named by its index, because the loop over the productions may change its
  set.
\<close>

record close_env =
  did :: bool
  closure_items :: "ITEM_S list"
  maxitems :: int

definition the_item :: "ITEM_S + nat \<Rightarrow> ITEM_S list \<Rightarrow> ITEM_S" where
  "the_item src items = (case src of Inl it \<Rightarrow> it | Inr i \<Rightarrow> items ! i)"

text \<open>The item for a production: an existing one or a new one at the end.\<close>

definition close_item ::
  "PRODUCTION_S \<Rightarrow> close_env \<times> ('a lr_env_scheme) \<Rightarrow> (nat \<times> close_env \<times> ('a lr_env_scheme)) res" where
  "close_item p st =
     (case st of (c, e) \<Rightarrow>
        (case in_closure_items p (closure_items c) of
           Some i \<Rightarrow> Inr (i, c, e)
         | None \<Rightarrow>
             if maxitems c - 1 < 0 then fatal
             else (case newitem p e of
                     (it, e') \<Rightarrow>
                       Inr (length (closure_items c),
                         c\<lparr>maxitems := maxitems c - 1, closure_items := closure_items c @ [it], did := True\<rparr>, e'))))"

definition look_into :: "nat \<Rightarrow> SET_S \<Rightarrow> close_env \<Rightarrow> close_env res" where
  "look_into i src c =
     bind_res (add_lookahead (lookaheads (closure_items c ! i)) src) (\<lambda>(b, s).
       Inr (c\<lparr>did := did c \<or> b,
              closure_items := (closure_items c)[i := (closure_items c ! i)\<lparr>lookaheads := s\<rparr>]\<rparr>))"

fun close_prods ::
  "ITEM_S + nat \<Rightarrow> PRODUCTION_S list \<Rightarrow> SET_S \<Rightarrow> close_env \<times> ('a lr_env_scheme)
   \<Rightarrow> (close_env \<times> ('a lr_env_scheme)) res" where
  "close_prods src [] cs st = Inr st"
| "close_prods src (p # ps) cs st =
     bind_res (close_item p st) (\<lambda>(i, c, e).
       let it = the_item src (closure_items c)
       in if rhs_at (prod it) (dot_posn it + 1) = None
          then bind_res (look_into i (lookaheads it) c) (\<lambda>c'. close_prods src ps cs (c', e))
          else
            (case set_truncate (Some cs) of
               None \<Rightarrow> Inl Null_deref
             | Some cs0 \<Rightarrow>
                 bind_res (first_rhs e cs0 (drop (dot_posn it + 1) (rhs (prod it)))) (\<lambda>(cs1, nullable).
                   let cs2 = SET_REMOVE cs1 (EPS e);
                       cs3 = (if nullable then SET_UNION cs2 (lookaheads it) else cs2)
                   in bind_res (look_into i cs3 c) (\<lambda>c'. close_prods src ps cs3 (c', e)))))"

definition do_close ::
  "ITEM_S + nat \<Rightarrow> close_env \<times> ('a lr_env_scheme) \<Rightarrow> (close_env \<times> ('a lr_env_scheme)) res" where
  "do_close src st =
     (case st of (c, e) \<Rightarrow>
        (case right_of_dot (the_item src (closure_items c)) of
           None \<Rightarrow> Inr st
         | Some x \<Rightarrow>
             if \<not> ISNONTERM e x then Inr st
             else close_prods src (productions (symb e x)) set_new st))"

fun close_all ::
  "(ITEM_S + nat) list \<Rightarrow> close_env \<times> ('a lr_env_scheme) \<Rightarrow> (close_env \<times> ('a lr_env_scheme)) res" where
  "close_all [] st = Inr st"
| "close_all (src # srcs) st = bind_res (do_close src st) (close_all srcs)"

text \<open>A pass over the closure covers the items that were there when it began.\<close>

partial_function (option) closure_loop ::
  "close_env \<times> ('a lr_env_scheme) \<Rightarrow> (ITEM_S list \<times> ('a lr_env_scheme)) run" where
  "closure_loop st =
     (if \<not> did (fst st) then Some (Inr (closure_items (fst st), snd st))
      else
        (case close_all (map Inr [0..<length (closure_items (fst st))]) ((fst st)\<lparr>did := False\<rparr>, snd st) of
           Inl a \<Rightarrow> Some (Inl a)
         | Inr st' \<Rightarrow> closure_loop st'))"

definition closure :: "ITEM_S list \<Rightarrow> int \<Rightarrow> ('a lr_env_scheme) \<Rightarrow> (ITEM_S list \<times> ('a lr_env_scheme)) run" where
  "closure kern maxi e =
     (case close_all (map Inl kern) (\<lparr>did = False, closure_items = [], maxitems = maxi\<rparr>, e) of
        Inl a \<Rightarrow> Some (Inl a)
      | Inr st \<Rightarrow> closure_loop st)"

text \<open>The items of the kernel whose dot is not at the end are copied behind the closure.\<close>

fun kclosure ::
  "ITEM_S list \<Rightarrow> ITEM_S list \<Rightarrow> int \<Rightarrow> ('a lr_env_scheme) \<Rightarrow> (ITEM_S list \<times> ('a lr_env_scheme)) res" where
  "kclosure [] items maxi e = Inr (items, e)"
| "kclosure (it # kern) items maxi e =
     (if right_of_dot it = None then kclosure kern items maxi e
      else
        (case newitem (prod it) e of
           (new, e') \<Rightarrow>
             if maxi - 1 < 0 then fatal
             else kclosure kern
                    (items @ [new\<lparr>dot_posn := dot_posn it, right_of_dot := right_of_dot it,
                                  lookaheads := set_dup (lookaheads it)\<rparr>])
                    (maxi - 1) e'))"

section \<open>Epsilon items\<close>

text \<open>
  \<open>move_eps\<close> on the sorted items: the leading items of empty productions go to the state,
  or, if the state has some already, their sets go into the sets of these.  The loop reads
  the next item before it tests the count; running off the items is the value \<open>Overflow\<close>.
\<close>

fun take_eps :: "ITEM_S list \<Rightarrow> nat \<Rightarrow> (ITEM_S list \<times> ITEM_S list) res" where
  "take_eps [] moved = Inl Overflow"
| "take_eps (it # items) moved =
     (if rhs (prod it) \<noteq> [] then Inr ([], it # items)
      else if MAXEPSILON \<le> moved then fatal
      else bind_res (take_eps items (Suc moved)) (\<lambda>(eps, rest). Inr (it # eps, rest)))"

fun merge_eps :: "ITEM_S list \<Rightarrow> ITEM_S list \<Rightarrow> ITEM_S list res" where
  "merge_eps old [] = Inr old"
| "merge_eps [] (new # news) = Inl Null_deref"
| "merge_eps (it # old) (new # news) =
     bind_res (merge_eps old news) (\<lambda>r.
       Inr (it\<lparr>lookaheads := SET_UNION (lookaheads it) (lookaheads new)\<rparr> # r))"

definition move_eps :: "nat \<Rightarrow> ITEM_S list \<Rightarrow> ('a lr_env_scheme) \<Rightarrow> (ITEM_S list \<times> ('a lr_env_scheme)) res" where
  "move_eps n items e =
     (let s = lr_states e ! n
      in bind_res (take_eps items 0) (\<lambda>(eps, rest).
           if eps = [] then Inr (rest, e)
           else bind_res (if epsilon_items s = [] then Inr eps else merge_eps (epsilon_items s) eps) (\<lambda>eps'.
             Inr (rest, e\<lparr>lr_states := (lr_states e)[n := s\<lparr>epsilon_items := take (length eps) eps'\<rparr>]\<rparr>))))"

section \<open>Merging\<close>

text \<open>\<open>merge_lookaheads\<close>: the sets of the new items go into those of the existing ones.\<close>

fun merge_lookaheads :: "ITEM_S list \<Rightarrow> ITEM_S list \<Rightarrow> (bool \<times> ITEM_S list) res" where
  "merge_lookaheads dst [] = Inr (False, dst)"
| "merge_lookaheads [] (s # ss) = Inl Null_deref"
| "merge_lookaheads (d # ds) (s # ss) =
     (if num (prod d) \<noteq> num (prod s) \<or> dot_posn d \<noteq> dot_posn s then fatal
      else bind_res (set_subset (Some (lookaheads d)) (Some (lookaheads s))) (\<lambda>sub.
        bind_res (merge_lookaheads ds ss) (\<lambda>(b, rest).
          Inr (\<not> sub \<or> b,
            (if sub then d else d\<lparr>lookaheads := SET_UNION (lookaheads d) (lookaheads s)\<rparr>) # rest))))"

end
