(* ===== verification/Lr.thy ===== *)
theory Lr
  imports LrClose SetIter Tables
begin

text \<open>
  The construction of the LALR(1) machine of \<open>src/compiler/parser/yystate.c\<close>: the loop over
  the unfinished states, the reductions with their conflicts, and the tables that are
  printed.
\<close>

section \<open>Shifts and gotos\<close>

text \<open>The transition from state \<open>n\<close> on \<open>x\<close> to the state with the items \<open>items\<close>.\<close>

definition lr_move :: "nat \<Rightarrow> nat \<Rightarrow> ITEM_S list \<Rightarrow> ('a lr_env_scheme) \<Rightarrow> ('a lr_env_scheme) run" where
  "lr_move n x items e =
     bind_run (newstate items e) (\<lambda>(isnew, next, e1).
       let e2 = (if \<not> closed (lr_states e1 ! n)
                 then (if ISTERM e1 x then add_action n (val (symb e1 x)) (int next) e1
                       else add_goto n (val (symb e1 x)) next e1)
                 else e1)
       in if isnew = NEW then Some (add_unfinished next e2)
          else Some (bind_res (merge_lookaheads (kernel_items (lr_states e2 ! next)) items) (\<lambda>(b, ks).
            let e3 = e2\<lparr>lr_states := (lr_states e2)[next := (lr_states e2 ! next)\<lparr>kernel_items := ks\<rparr>]\<rparr>
            in bind_res (if b then add_unfinished next e3 else Inr e3) (\<lambda>e4. Inr (fold freeitem items e4)))))"

function lr_moves :: "nat \<Rightarrow> ITEM_S list \<Rightarrow> ('a lr_env_scheme) \<Rightarrow> ('a lr_env_scheme) run" where
  "lr_moves n [] e = Some (Inr e)"
| "lr_moves n (it # items) e =
     (case right_of_dot it of
        None \<Rightarrow> Some (Inl Null_deref)
      | Some x \<Rightarrow>
          (let same = (\<lambda>it'. RIGHT_OF_DOT e it' = val (symb e x))
           in bind_run (lr_move n x (map movedot (it # takeWhile same items)) e)
                (lr_moves n (dropWhile same items))))"
  by pat_completeness auto
termination
  by (relation "measure (\<lambda>(n, items, e). length items)")
    (auto simp: less_Suc_eq_le length_dropWhile_le)

declare lr_moves.simps [simp del]

definition lr_state :: "nat \<Rightarrow> ('a lr_env_scheme) \<Rightarrow> ('a lr_env_scheme) run" where
  "lr_state n e =
     (let kern = kernel_items (lr_states e ! n)
      in bind_run (closure kern MAXCLOSE e) (\<lambda>(cl, e1).
         bind_run (Some (kclosure kern cl (MAXCLOSE - int (length cl)) e1)) (\<lambda>(items, e2).
         bind_run
           (if items = [] then Some (Inr ([], e2))
            else Some (move_eps n (sys_ssort (item_cmp e2) items (length items)) e2)) (\<lambda>(rest, e3).
         bind_run (lr_moves n rest e3) (\<lambda>e4.
         Some (Inr (e4\<lparr>lr_states := (lr_states e4)[n := (lr_states e4 ! n)\<lparr>closed := True\<rparr>]\<rparr>)))))))"

partial_function (option) lr_loop :: "('a lr_env_scheme) \<Rightarrow> ('a lr_env_scheme) run" where
  "lr_loop e =
     (case get_unfinished e of
        None \<Rightarrow> Some (Inr (free_recycled_items e))
      | Some (n, e1) \<Rightarrow>
          (case lr_state n e1 of
             None \<Rightarrow> None
           | Some (Inl a) \<Rightarrow> Some (Inl a)
           | Some (Inr e2) \<Rightarrow> lr_loop e2))"

definition lr :: "nat \<Rightarrow> ('a lr_env_scheme) \<Rightarrow> ('a lr_env_scheme) run" where
  "lr n e = bind_run (Some (add_unfinished n e)) lr_loop"

section \<open>Reductions\<close>

text \<open>One lookahead of an item whose dot is at the end; \<open>v\<close> is \<open>g_cmdopt.verbose\<close>.\<close>

definition reduce_token :: "int \<Rightarrow> nat \<Rightarrow> ITEM_S \<Rightarrow> nat \<Rightarrow> ('a lr_env_scheme) \<Rightarrow> ('a lr_env_scheme)" where
  "reduce_token v state it token e =
     (let pprec = prec (prod it);
          tprec = level (g_precedence e token);
          assc = assoc (g_precedence e token)
      in case p_action e state token of
           None \<Rightarrow> add_action state token (- int (prod_num it)) e
         | Some ap \<Rightarrow>
             if do_this ap \<le> 0
             then e\<lparr>nreduce_reduce := nreduce_reduce e + 1, warnings := warnings e + 1,
                    actions := (actions e)(state :=
                      set_do_this (actions e state) token (- min (- do_this ap) (int (prod_num it))))\<rparr>
             else
               (let resolved = (pprec \<noteq> 0 \<and> tprec \<noteq> 0);
                    e1 = (if resolved \<and> (tprec < pprec \<or> pprec = tprec \<and> assc \<noteq> 114)
                          then e\<lparr>actions := (actions e)(state :=
                                 set_do_this (actions e state) token (- int (prod_num it)))\<rparr>
                          else e)
                in if 1 < v \<or> \<not> resolved
                   then e1\<lparr>nshift_reduce := nshift_reduce e1 + 1, warnings := warnings e1 + 1\<rparr>
                   else e1))"

fun reduce_tokens :: "int \<Rightarrow> nat \<Rightarrow> ITEM_S \<Rightarrow> int list \<Rightarrow> ('a lr_env_scheme) \<Rightarrow> ('a lr_env_scheme)" where
  "reduce_tokens v state it [] e = e"
| "reduce_tokens v state it (t # ts) e =
     reduce_tokens v state it ts (reduce_token v state it (nat t) e)"

definition reduce_one_item :: "int \<Rightarrow> nat \<Rightarrow> ITEM_S \<Rightarrow> ('a lr_env_scheme) \<Rightarrow> ('a lr_env_scheme)" where
  "reduce_one_item v state it e =
     (if right_of_dot it \<noteq> None then e
      else reduce_tokens v state it (fst (drain 0 (lookaheads it) iter_init)) e)"

definition add_reductions :: "int \<Rightarrow> nat \<Rightarrow> ('a lr_env_scheme) \<Rightarrow> ('a lr_env_scheme)" where
  "add_reductions v n e =
     fold (reduce_one_item v n) (epsilon_items (lr_states e ! n))
       (fold (reduce_one_item v n) (kernel_items (lr_states e ! n)) e)"

text \<open>
  \<open>hash_print_tab\<close> with its sorting option visits the states in the order of their numbers (the
  comparison is told to sort by number).
\<close>

definition reductions :: "int \<Rightarrow> ('a lr_env_scheme) \<Rightarrow> ('a lr_env_scheme)" where
  "reductions v e = fold (add_reductions v) [0..<length (lr_states e)] e"

text \<open>
  The part of \<open>make_parse_tables\<close> that builds the machine.  \<open>h\<close> is the memory of the new
  hash table.
\<close>

definition make_machine ::
  "int \<Rightarrow> (nat \<Rightarrow> (nat \<times> nat) list BUCKET_S option) \<Rightarrow> ('a lr_env_scheme) \<Rightarrow> ('a lr_env_scheme) run" where
  "make_machine v h e0 =
     (let e = e0\<lparr>states_hashtab := hash_make_tab MAXSTATE h\<rparr>
      in case g_goal_symbol e of
           None \<Rightarrow> Some fatal
         | Some g \<Rightarrow>
             (case productions (symb e g) of
                [] \<Rightarrow> Some (Inl Null_deref)
              | p # ps \<Rightarrow>
                  if ps \<noteq> [] then Some fatal
                  else
                    (case newitem p e of
                       (it, e1) \<Rightarrow>
                         bind_run (newstate [it\<lparr>lookaheads := SET_ADD (lookaheads it) EOI\<rparr>] e1) (\<lambda>(_, n, e2).
                         bind_run (lr n e2) (\<lambda>e3. Some (Inr (reductions v e3)))))))"

section \<open>The printed tables\<close>

text \<open>
  \<open>print_tab\<close> first marks the rows that are equal to an earlier row.  A row that is marked
  points to the row it duplicates.
\<close>

datatype row = Own "ACT_S list" | Same nat

fun chain_of :: "row \<Rightarrow> ACT_S list" where
  "chain_of (Own as) = as"
| "chain_of (Same i) = []"

fun same_chain :: "ACT_S list \<Rightarrow> ACT_S list \<Rightarrow> bool" where
  "same_chain [] [] \<longleftrightarrow> True"
| "same_chain (a # as) (b # bs) \<longleftrightarrow> do_this a = do_this b \<and> sym a = sym b \<and> same_chain as bs"
| "same_chain _ _ \<longleftrightarrow> False"

definition share_one :: "nat \<Rightarrow> nat \<Rightarrow> SET_S \<times> row list \<Rightarrow> SET_S \<times> row list" where
  "share_one i j st =
     (case st of (redundant, tab) \<Rightarrow>
        if SET_MEMBER redundant j then st
        else if chain_of (tab ! j) = [] \<or> chain_of (tab ! i) = [] then st
        else if same_chain (chain_of (tab ! i)) (chain_of (tab ! j))
        then (SET_ADD redundant j, tab[j := Same i])
        else st)"

definition share_from :: "nat \<Rightarrow> nat \<Rightarrow> SET_S \<times> row list \<Rightarrow> SET_S \<times> row list" where
  "share_from nstates i st =
     (if SET_MEMBER (fst st) i then st else fold (share_one i) [Suc i..<nstates] st)"

definition share_rows :: "row list \<Rightarrow> SET_S \<times> row list" where
  "share_rows tab = fold (share_from (length tab)) [0..<length tab] (set_new, tab)"

text \<open>The arrays of the rows, and the array of pointers to them.\<close>

fun row_pieces :: "nat \<Rightarrow> nat \<Rightarrow> ACT_S list \<Rightarrow> string" where
  "row_pieces cnt column [] = []"
| "row_pieces cnt column (a # as) =
     pad_left CHR '' '' 3 (dec (int (sym a))) @ '', '' @ pad_right 4 (dec (do_this a)) @
     (if column + 1 \<noteq> cnt then '','' else []) @
     (if (column + 1) mod 5 = 0 then nl @ [CHR 0x09, CHR 0x09, CHR 0x09] @ ''         '' else []) @
     row_pieces cnt (column + 1) as"

definition row_array :: "string \<Rightarrow> nat \<Rightarrow> ACT_S list \<Rightarrow> string" where
  "row_array row_name i as =
     ''YYPRIVATE YY_TTYPE '' @ row_name @ pad_right 3 (dec (int i)) @ ''[] = { '' @
     pad_left CHR '' '' 2 (dec (int (length as))) @ '','' @ row_pieces (length as) 0 as @ ''};'' @ nl"

fun row_arrays :: "string \<Rightarrow> SET_S \<Rightarrow> nat \<Rightarrow> row list \<Rightarrow> string" where
  "row_arrays row_name redundant i [] = []"
| "row_arrays row_name redundant i (r # rows) =
     (if chain_of r = [] \<or> SET_MEMBER redundant i then [] else row_array row_name i (chain_of r)) @
     row_arrays row_name redundant (Suc i) rows"

text \<open>
  The pointer for row \<open>i\<close>: the index of an array, or null.  A row in the set \<open>redundant\<close> holds
  the pointer to another row (\<open>Same\<close>).
\<close>

definition row_ref :: "SET_S \<Rightarrow> nat \<Rightarrow> row \<Rightarrow> nat option" where
  "row_ref redundant i r =
     (if SET_MEMBER redundant i then (case r of Same k \<Rightarrow> Some k | Own as \<Rightarrow> None)
      else if r = Own [] then None else Some i)"

fun index_array :: "string \<Rightarrow> SET_S \<Rightarrow> nat \<Rightarrow> nat \<Rightarrow> row list \<Rightarrow> string" where
  "index_array row_name redundant n i [] = []"
| "index_array row_name redundant n i (r # rows) =
     nl @ ''/* '' @ pad_left CHR '' '' 3 (dec (int i)) @ '' */ '' @
     (case row_ref redundant i r of
        None \<Rightarrow> ''NULL''
      | Some k \<Rightarrow> row_name @ pad_right 3 (dec (int k))) @
     (if Suc i \<noteq> n then '', '' else []) @
     index_array row_name redundant n (Suc i) rows"

text \<open>
  If the table is not private the format \<open>*s[%d]\<close> gets the name for its number: \<open>ptr\<close> is the
  number that \<open>printf\<close> makes of that pointer.
\<close>

definition print_tab :: "int \<Rightarrow> string \<Rightarrow> string \<Rightarrow> bool \<Rightarrow> string list \<Rightarrow> ACT_S list list \<Rightarrow> string" where
  "print_tab ptr row_name col_name private text_lines acts_tab =
     (case share_rows (map Own acts_tab) of
        (redundant, tab) \<Rightarrow>
          sys_comment text_lines @ row_arrays row_name redundant 0 tab @
          (if private then nl @ ''YYPRIVATE YY_TTYPE *'' @ col_name @ ''['' @ dec (int (length acts_tab)) @ ''] = {'' @ nl
           else nl @ ''YY_TTYPE *s['' @ dec ptr @ ''] = {'' @ nl) @
          index_array row_name redundant (length acts_tab) 0 tab @ nl @ ''};'' @ nl)"

section \<open>Reduction tables\<close>

text \<open>The productions of the grammar by number.\<close>

fun put_prods :: "PRODUCTION_S list \<Rightarrow> PRODUCTION_S option list \<Rightarrow> PRODUCTION_S option list res" where
  "put_prods [] tab = Inr tab"
| "put_prods (p # ps) tab =
     (if num p < length tab then put_prods ps (tab[num p := Some p]) else Inl Overflow)"

definition mkprodtab ::
  "('a parser_env_scheme) \<Rightarrow> nat \<Rightarrow> PRODUCTION_S option list \<Rightarrow> PRODUCTION_S option list res" where
  "mkprodtab e x tab = (if ISNONTERM e x then put_prods (productions (symb e x)) tab else Inr tab)"

text \<open>The entries of \<open>Yy_lhs\<close> and \<open>Yy_reduce\<close>; a null pointer in the array is read.\<close>

fun yy_lhs :: "('a parser_env_scheme) \<Rightarrow> PRODUCTION_S option list \<Rightarrow> (nat \<times> nat) list res" where
  "yy_lhs e [] = Inr []"
| "yy_lhs e (None # tab) = Inl Null_deref"
| "yy_lhs e (Some p # tab) =
     bind_res (yy_lhs e tab) (\<lambda>r. Inr ((num p, ADJ_VAL (val (symb e (lhs p)))) # r))"

fun yy_reduce :: "PRODUCTION_S option list \<Rightarrow> (nat \<times> nat) list res" where
  "yy_reduce [] = Inr []"
| "yy_reduce (None # tab) = Inl Null_deref"
| "yy_reduce (Some p # tab) = bind_res (yy_reduce tab) (\<lambda>r. Inr ((num p, length (rhs p)) # r))"

definition prod_tables ::
  "('a parser_env_scheme) \<Rightarrow> ((nat \<times> nat) list \<times> (nat \<times> nat) list) run" where
  "prod_tables e =
     bind_run (each_symbol e (mkprodtab e) (replicate (g_num_productions e) None)) (\<lambda>tab.
       Some (bind_res (yy_lhs e tab) (\<lambda>ls. bind_res (yy_reduce tab) (\<lambda>rs. Inr (ls, rs)))))"

end
