(* ===== verification/LrTree.thy ===== *)
theory LrTree
  imports LrState
begin

text \<open>
  The tree of unfinished states of \<open>src/compiler/parser/yystate.c\<close> as a set of numbers: the
  invariant of the tree and of its nodes, and the operations on the set.
\<close>

section \<open>The search tree\<close>

lemma tree_mem_iff: "bst t \<Longrightarrow> tree_mem t n \<longleftrightarrow> n \<in> set_tree t"
  by (induction t) (auto dest: order.asym)

lemma set_tree_hang [simp]: "set_tree (tree_hang n t) = insert n (set_tree t)"
  by (induction t) auto

lemma bst_hang [simp]: "bst t \<Longrightarrow> bst (tree_hang n t)"
  by (induction t) auto

lemma size_hang: "bst t \<Longrightarrow> n \<notin> set_tree t \<Longrightarrow> size (tree_hang n t) = Suc (size t)"
  by (induction t) auto

lemma take_leftmost_none [simp]: "take_leftmost t = None \<longleftrightarrow> t = Leaf"
  by (induction t) (auto split: option.splits)

lemma take_leftmost_some:
  "bst t \<Longrightarrow> take_leftmost t = Some (n, t') \<Longrightarrow>
     bst t' \<and> set_tree t = insert n (set_tree t') \<and> (\<forall>m\<in>set_tree t'. n < m) \<and> size t = Suc (size t')"
proof (induction t arbitrary: t')
  case (Node l m r)
  show ?case
  proof (cases "take_leftmost l")
    case None
    then show ?thesis using Node.prems by auto
  next
    case (Some p)
    then obtain l' where l': "take_leftmost l = Some (n, l')" "t' = Node l' m r"
      using Node.prems by (cases p) auto
    have "bst l' \<and> set_tree l = insert n (set_tree l') \<and> (\<forall>k\<in>set_tree l'. n < k) \<and> size l = Suc (size l')"
      using Node.IH(1) [OF _ l'(1)] Node.prems by simp
    then show ?thesis using Node.prems l'(2) by fastforce
  qed
qed simp

section \<open>The set of unfinished states\<close>

text \<open>Every node of the array is in the tree or in the free list.\<close>

definition tree_inv :: "('a lr_env_scheme) \<Rightarrow> bool" where
  "tree_inv e \<longleftrightarrow> bst (unfinished e) \<and> size (unfinished e) + available e = next_alloc_tnode e \<and>
     next_alloc_tnode e \<le> MAXUNFINISHED"

definition pending_states :: "('a lr_env_scheme) \<Rightarrow> nat set" where
  "pending_states e = set_tree (unfinished e)"

lemma card_set_tree: "bst t \<Longrightarrow> card (set_tree t) = size t"
proof (induction t)
  case (Node l m r)
  have "m \<notin> set_tree l \<union> set_tree r" "set_tree l \<inter> set_tree r = {}" using Node.prems by fastforce+
  then show ?case using Node by (simp add: card_Un_disjoint)
qed simp

lemma pending_finite: "finite (pending_states e)"
  by (simp add: pending_states_def)

lemma card_pending: "tree_inv e \<Longrightarrow> card (pending_states e) \<le> MAXUNFINISHED"
  by (auto simp: tree_inv_def pending_states_def card_set_tree)

lemma add_unfinished_ok:
  assumes "tree_inv e" and "add_unfinished n e = Inr e'"
  shows "tree_inv e' \<and> pending_states e' = insert n (pending_states e)"
  using assms
  by (auto simp: add_unfinished_def tree_inv_def pending_states_def tree_mem_iff size_hang fatal_def
      insert_absorb split: if_splits)

lemma add_unfinished_full:
  assumes "tree_inv e"
  shows "(\<exists>e'. add_unfinished n e = Inr e') \<or>
    add_unfinished n e = fatal \<and> n \<notin> pending_states e \<and> card (pending_states e) = MAXUNFINISHED"
  using assms
  by (auto simp: add_unfinished_def tree_inv_def pending_states_def tree_mem_iff card_set_tree)

lemma get_unfinished_some:
  assumes "tree_inv e" and "get_unfinished e = Some (n, e')"
  shows "tree_inv e' \<and> n \<in> pending_states e \<and> pending_states e' = pending_states e - {n} \<and>
    (\<forall>m\<in>pending_states e. n \<le> m)"
proof -
  obtain t where t: "take_leftmost (unfinished e) = Some (n, t)"
    "e' = e\<lparr>unfinished := t, available := available e + 1\<rparr>"
    using assms(2) by (auto simp: get_unfinished_def split: option.splits)
  show ?thesis
    using take_leftmost_some [OF _ t(1)] assms(1) t(2)
    by (auto simp: tree_inv_def pending_states_def less_imp_le)
qed

lemma get_unfinished_none: "get_unfinished e = None \<longleftrightarrow> pending_states e = {}"
  by (auto simp: get_unfinished_def pending_states_def split: option.splits)

section \<open>The interface of the loop over the states\<close>

text \<open>
  The loop over the states relies on a set of numbers with two operations: \<open>add\<close> puts a
  number in or ends in the error exit, \<open>get\<close> takes the least one out.
\<close>

locale work_list =
  fixes inv :: "'e \<Rightarrow> bool"
    and pend :: "'e \<Rightarrow> nat set"
    and add :: "nat \<Rightarrow> 'e \<Rightarrow> 'e res"
    and get :: "'e \<Rightarrow> (nat \<times> 'e) option"
    and room :: nat
  assumes add_ok: "inv e \<Longrightarrow> add n e = Inr e' \<Longrightarrow> inv e' \<and> pend e' = insert n (pend e)"
    and add_fails: "inv e \<Longrightarrow> add n e = Inl a \<Longrightarrow> a = Exit EXIT_OTHER \<and> n \<notin> pend e \<and> card (pend e) = room"
    and get_some: "inv e \<Longrightarrow> get e = Some (n, e') \<Longrightarrow>
      inv e' \<and> n \<in> pend e \<and> pend e' = pend e - {n} \<and> (\<forall>m\<in>pend e. n \<le> m)"
    and get_none: "get e = None \<longleftrightarrow> pend e = {}"
    and bounded: "inv e \<Longrightarrow> finite (pend e)"
begin

fun add_all :: "nat list \<Rightarrow> 'e \<Rightarrow> 'e res" where
  "add_all [] e = Inr e"
| "add_all (n # ns) e = bind_res (add n e) (add_all ns)"

lemma add_all_ok: "inv e \<Longrightarrow> add_all ns e = Inr e' \<Longrightarrow> inv e' \<and> pend e' = set ns \<union> pend e"
proof (induction ns arbitrary: e)
  case (Cons n ns)
  then obtain e1 where e1: "add n e = Inr e1" "add_all ns e1 = Inr e'"
    by (cases "add n e") auto
  show ?case using Cons.IH [OF _ e1(2)] add_ok [OF Cons.prems(1) e1(1)] by auto
qed simp

lemma add_all_fits:
  assumes "inv e" and "card (set ns \<union> pend e) \<le> room"
  shows "\<exists>e'. add_all ns e = Inr e'"
  using assms
proof (induction ns arbitrary: e)
  case (Cons n ns)
  show ?case
  proof (cases "add n e")
    case (Inl a)
    have full: "n \<notin> pend e" "card (pend e) = room" using add_fails [OF Cons.prems(1) Inl] by auto
    have "insert n (pend e) \<subseteq> set (n # ns) \<union> pend e" by auto
    then have "Suc room \<le> room"
      using card_mono [of "set (n # ns) \<union> pend e" "insert n (pend e)"] Cons.prems full
        bounded [OF Cons.prems(1)] by simp
    then show ?thesis by simp
  next
    case (Inr e1)
    have "inv e1" "pend e1 = insert n (pend e)" using add_ok [OF Cons.prems(1) Inr] by auto
    then show ?thesis using Cons.IH [of e1] Cons.prems(2) Inr by simp
  qed
qed simp

lemma get_is_least: "inv e \<Longrightarrow> get e = Some (n, e') \<Longrightarrow> n = Min (pend e)"
  using get_some [of e n e'] bounded [of e] by (auto intro: Min_eqI [symmetric])

lemma get_shrinks: "inv e \<Longrightarrow> get e = Some (n, e') \<Longrightarrow> card (pend e') < card (pend e)"
  using get_some [of e n e'] bounded [of e] by (simp only: card_Diff1_less)

end

interpretation wl: work_list tree_inv pending_states add_unfinished get_unfinished MAXUNFINISHED
proof unfold_locales
  fix e :: "'a lr_env_scheme" and n a
  assume "tree_inv e" "add_unfinished n e = Inl a"
  then show "a = Exit EXIT_OTHER \<and> n \<notin> pending_states e \<and> card (pending_states e) = MAXUNFINISHED"
    using add_unfinished_full [of e n] by (auto simp: fatal_def)
qed (rule add_unfinished_ok get_unfinished_some get_unfinished_none pending_finite; assumption?)+


section \<open>The property\<close>

definition demo_lr :: "lr_env" where
  "demo_lr = \<lparr>llama = False, symtab = hash_make_tab 2 (\<lambda>_. None), symb = undefined, g_terms = (\<lambda>_. None),
     g_precedence = undefined, g_synch = set_new, g_goal_symbol = None, g_currterm = 0, g_currnonterm = 255,
     g_curract = 511, g_num_productions = 0, states_hashtab = hash_make_tab 2 (\<lambda>_. None), lr_states = [],
     nitems = 0, ntab_entries = 0, nshift_reduce = 0, nreduce_reduce = 0, actions = (\<lambda>_. []), gotos = (\<lambda>_. []),
     unfinished = Leaf, available = 0, next_alloc_tnode = 0, recycled_items = [], warnings = 0\<rparr>"

text \<open>C8.
  The tree of unfinished states is a set of state numbers in at most \<open>MAXUNFINISHED\<close> nodes.
  From a state in which every allocated node is in the search tree or in the free list,
  \<open>add_unfinished\<close> adds a number and ends in the error exit exactly when the number is new
  and all nodes are in the tree; \<open>get_unfinished\<close> takes out the least number and answers
  null exactly when there is none.  Both keep the tree ordered and lose no node.
\<close>

theorem unfinished_is_bounded_set:
  assumes "tree_inv e"
  shows "(case add_unfinished n e of
      Inr e' \<Rightarrow> tree_inv e' \<and> pending_states e' = insert n (pending_states e)
    | Inl a \<Rightarrow> a = Exit EXIT_OTHER \<and> n \<notin> pending_states e \<and> card (pending_states e) = MAXUNFINISHED) \<and>
    (case get_unfinished e of
      None \<Rightarrow> pending_states e = {}
    | Some (m, e') \<Rightarrow> tree_inv e' \<and> m = Min (pending_states e) \<and> m \<in> pending_states e \<and>
        pending_states e' = pending_states e - {m})"
  using assms
  by (auto dest: wl.add_ok wl.add_fails wl.get_some wl.get_is_least
      simp: wl.get_none split: sum.split option.split)

theorem unfinished_is_bounded_set_witness:
  "\<exists>e'. add_unfinished 3 demo_lr = Inr e' \<and> tree_inv e' \<and> pending_states e' = {3}"
proof -
  have inv: "tree_inv demo_lr" by (simp add: tree_inv_def demo_lr_def)
  have "add_unfinished 3 demo_lr \<noteq> Inl a" for a
    by (simp add: add_unfinished_def demo_lr_def MAXUNFINISHED_def)
  then show ?thesis
    using unfinished_is_bounded_set [OF inv, of 3]
    by (cases "add_unfinished 3 demo_lr") (auto simp: pending_states_def demo_lr_def)
qed

end
