(* ===== verification/LrTables.thy ===== *)
theory LrTables
  imports Lr LrTree
begin

text \<open>
  The printed tables of the LALR(1) parser (\<open>print_tab\<close> of \<open>src/compiler/parser/yystate.c\<close>):
  a row that points to an equal row gives the same answers.  The resolution of conflicts by
  \<open>reduce_one_item\<close>.
\<close>

section \<open>Shared rows\<close>

lemma same_chain_eq: "same_chain as bs \<longleftrightarrow> as = bs"
  by (induction as bs rule: same_chain.induct) auto

text \<open>After the rows below \<open>i\<close> have been compared with those behind them.\<close>

definition shared :: "ACT_S list list \<Rightarrow> nat \<Rightarrow> SET_S \<times> row list \<Rightarrow> bool" where
  "shared rs i st \<longleftrightarrow>
     set_plain (fst st) \<and> length (snd st) = length rs \<and>
     (\<forall>j<length rs.
        if j \<in> members (fst st)
        then \<exists>k<j. k \<le> i \<and> k \<notin> members (fst st) \<and> snd st ! j = Same k \<and> rs ! k = rs ! j \<and> rs ! k \<noteq> []
        else snd st ! j = Own (rs ! j))"

lemma shared_own: "shared rs i (red, tab) \<Longrightarrow> j < length rs \<Longrightarrow> j \<notin> members red \<Longrightarrow> tab ! j = Own (rs ! j)"
  unfolding shared_def by fastforce

lemma shared_same:
  assumes "shared rs i (red, tab)" and "j < length rs" and "j \<in> members red"
  obtains k where "k < j" "k \<le> i" "k \<notin> members red" "tab ! j = Same k" "rs ! k = rs ! j" "rs ! k \<noteq> []"
  using assms unfolding shared_def by fastforce

lemma shared_one:
  assumes "shared rs i st" and "i < j" and "j < length rs" and "legal_bit j" and "i \<notin> members (fst st)"
  shows "shared rs i (share_one i j st) \<and> i \<notin> members (fst (share_one i j st))"
proof (cases st)
  case (Pair red tab)
  show ?thesis
  proof (cases "j \<in> members red \<or> rs ! j = [] \<or> rs ! i \<noteq> rs ! j")
    case True
    have "share_one i j st = st"
    proof (cases "j \<in> members red")
      case False
      then have "tab ! j = Own (rs ! j)" "tab ! i = Own (rs ! i)"
        using assms Pair shared_own [of rs i red tab] by simp_all
      then show ?thesis using True False assms(1) Pair
        by (auto simp: share_one_def same_chain_eq shared_def)
    qed (use assms(1) Pair in \<open>simp add: share_one_def shared_def\<close>)
    then show ?thesis using assms by simp
  next
    case False
    have own: "tab ! j = Own (rs ! j)" "tab ! i = Own (rs ! i)"
      using assms Pair False shared_own [of rs i red tab] by simp_all
    have plain: "set_plain red" "length tab = length rs" using assms(1) Pair by (simp_all add: shared_def)
    have new: "share_one i j st = (SET_ADD red j, tab[j := Same i])"
      using own plain False Pair by (simp add: share_one_def same_chain_eq)
    have mem: "members (SET_ADD red j) = insert j (members red)" "set_plain (SET_ADD red j)"
      using plain(1) assms(4) by simp_all
    have "if m \<in> insert j (members red)
        then \<exists>k<m. k \<le> i \<and> k \<notin> insert j (members red) \<and> tab[j := Same i] ! m = Same k \<and> rs ! k = rs ! m \<and> rs ! k \<noteq> []
        else tab[j := Same i] ! m = Own (rs ! m)" if m: "m < length rs" for m
    proof (cases "m = j")
      case True
      then show ?thesis using assms False Pair by (auto simp: shared_def intro!: exI [of _ i])
    next
      case other: False
      have h: "if m \<in> members red
        then \<exists>k<m. k \<le> i \<and> k \<notin> members red \<and> tab ! m = Same k \<and> rs ! k = rs ! m \<and> rs ! k \<noteq> []
        else tab ! m = Own (rs ! m)"
        using assms(1) m unfolding shared_def Pair fst_conv snd_conv by blast
      show ?thesis
      proof (cases "m \<in> members red")
        case True
        with h obtain k where "k < m" "k \<le> i" "k \<notin> members red" "tab ! m = Same k" "rs ! k = rs ! m" "rs ! k \<noteq> []"
          by auto
        moreover from this assms(2) have "k \<noteq> j" by simp
        ultimately show ?thesis using True other by auto
      qed (use h other in simp)
    qed
    then have "shared rs i (SET_ADD red j, tab[j := Same i])"
      using plain(2) mem(2) unfolding shared_def fst_conv snd_conv mem(1) length_list_update by blast
    then show ?thesis using assms(2,5) Pair unfolding new by (simp add: mem)
  qed
qed

lemma shared_ones:
  assumes "i \<notin> members (fst st)" and "shared rs i st" and "\<forall>j\<in>set js. i < j \<and> j < length rs \<and> legal_bit j"
  shows "shared rs i (fold (share_one i) js st)"
  using assms
proof (induction js arbitrary: st)
  case (Cons j js)
  then show ?case using shared_one [of rs i st j] by simp
qed simp

lemma shared_next: "shared rs i st \<Longrightarrow> shared rs (Suc i) st"
  unfolding shared_def by (meson le_SucI)

lemma shared_rows:
  assumes "length rs \<le> MAXSTATE"
  shows "n \<le> length rs \<Longrightarrow> shared rs n (fold (share_from (length rs)) [0..<n] (set_new, map Own rs))"
proof (induction n)
  case 0
  show ?case by (simp add: shared_def)
next
  case (Suc n)
  let ?st = "fold (share_from (length rs)) [0..<n] (set_new, map Own rs)"
  have st: "shared rs n ?st" using Suc by simp
  have "\<forall>j\<in>set [Suc n..<length rs]. n < j \<and> j < length rs \<and> legal_bit j"
    using assms by (auto simp: MAXSTATE_def intro: legal_small_bit)
  then have "shared rs n (share_from (length rs) n ?st)"
    using shared_ones [of n ?st rs "[Suc n..<length rs]"] st
    by (simp add: share_from_def shared_def)
  then show ?case by (simp add: shared_next)
qed

text \<open>C7.
  The tables that occs prints share equal rows and stay correct.  For every state the pointer
  that \<open>print_tab\<close> prints is null exactly if the state has no entry, and otherwise names a
  row that is itself printed (it is not marked as redundant, and not empty) and holds the
  actions of the state, so that the entry of every symbol is the one of the machine.
\<close>

theorem print_tab_shares_equal_rows:
  assumes "length rs \<le> MAXSTATE" and "i < length rs" and "share_rows (map Own rs) = (redundant, tab)"
  shows "case row_ref redundant i (tab ! i) of
      None \<Rightarrow> rs ! i = []
    | Some k \<Rightarrow> k < length rs \<and> \<not> SET_MEMBER redundant k \<and> chain_of (tab ! k) \<noteq> [] \<and>
        (\<forall>s. find_act (chain_of (tab ! k)) s = find_act (rs ! i) s)"
proof -
  have sh: "shared rs (length rs) (redundant, tab)"
    using shared_rows [OF assms(1), of "length rs"] assms(3) by (simp add: share_rows_def)
  then have p: "set_plain redundant" by (simp add: shared_def)
  show ?thesis
  proof (cases "i \<in> members redundant")
    case True
    then obtain k where k: "k < i" "k \<notin> members redundant" "tab ! i = Same k" "rs ! k = rs ! i" "rs ! k \<noteq> []"
      using shared_same [OF sh assms(2)] by blast
    then have "tab ! k = Own (rs ! k)" using shared_own [OF sh, of k] assms(2) by simp
    with k True p assms(2) show ?thesis by (auto simp: row_ref_def)
  next
    case False
    then have "tab ! i = Own (rs ! i)" using shared_own [OF sh assms(2)] by simp
    with False p assms(2) show ?thesis by (simp add: row_ref_def)
  qed
qed

theorem print_tab_shares_equal_rows_witness:
  "\<exists>redundant tab. share_rows (map Own [[\<lparr>sym = 1, do_this = 2\<rparr>], [], [\<lparr>sym = 1, do_this = 2\<rparr>]]) = (redundant, tab) \<and>
     (case row_ref redundant 2 (tab ! 2) of None \<Rightarrow> False
      | Some k \<Rightarrow> find_act (chain_of (tab ! k)) 1 = Some \<lparr>sym = 1, do_this = 2\<rparr>)"
proof -
  let ?rs = "[[\<lparr>sym = 1, do_this = 2\<rparr>], [], [\<lparr>sym = 1, do_this = 2\<rparr>]]"
  obtain redundant tab where st: "share_rows (map Own ?rs) = (redundant, tab)"
    by (cases "share_rows (map Own ?rs)")
  have len: "length ?rs \<le> MAXSTATE" "2 < length ?rs" by (simp_all add: MAXSTATE_def)
  from print_tab_shares_equal_rows [OF len st] show ?thesis
    by (intro exI [of _ redundant] exI [of _ tab] conjI st)
      (auto split: option.splits)
qed

end
