(* ===== verification/LrSpec.thy ===== *)
theory LrSpec
  imports LrClose
begin

text \<open>
  What an LALR(1) machine is: items, closure and the lookaheads, independent of the way
  \<open>src/compiler/parser/yystate.c\<close> builds it.

  A set of items is a set of triples: a production, the position of the dot, and \<open>None\<close> (the
  item is there) or \<open>Some t\<close> (the item has the lookahead \<open>t\<close>).
\<close>

type_synonym mark = "PRODUCTION_S \<times> nat \<times> nat option"

section \<open>Closure\<close>

text \<open>
  The dot of the item is in front of a nonterminal that \<open>q\<close> is a production of; what is
  behind that nonterminal shows the tokens \<open>contrib\<close>, and may be empty (\<open>passes\<close>).
\<close>

definition closes :: "('a parser_env_scheme) \<Rightarrow> PRODUCTION_S \<Rightarrow> nat \<Rightarrow> PRODUCTION_S \<Rightarrow> bool" where
  "closes e p d q \<longleftrightarrow> (\<exists>x. rhs_at p d = Some x \<and> ISNONTERM e x \<and> q \<in> set (productions (symb e x)))"

definition contrib :: "('a parser_env_scheme) \<Rightarrow> PRODUCTION_S \<Rightarrow> nat \<Rightarrow> nat set" where
  "contrib e p d = scanF e (firsts e) (drop (Suc d) (rhs p)) - {EPS e}"

definition passes :: "('a parser_env_scheme) \<Rightarrow> PRODUCTION_S \<Rightarrow> nat \<Rightarrow> bool" where
  "passes e p d \<longleftrightarrow> (\<forall>y\<in>set (drop (Suc d) (rhs p)). skipF e (firsts e) y)"

text \<open>The marks of a new item that follow from one mark of the item that it closes.\<close>

definition gives :: "('a parser_env_scheme) \<Rightarrow> PRODUCTION_S \<Rightarrow> nat \<Rightarrow> nat option \<Rightarrow> nat option \<Rightarrow> bool" where
  "gives e p d u w \<longleftrightarrow>
     (case w of None \<Rightarrow> True | Some t \<Rightarrow> t \<in> contrib e p d \<or> passes e p d \<and> u = Some t)"

inductive_set clos :: "('a parser_env_scheme) \<Rightarrow> mark set \<Rightarrow> mark set" for e K where
  base: "m \<in> K \<Longrightarrow> m \<in> clos e K"
| step: "(p, d, u) \<in> clos e K \<Longrightarrow> closes e p d q \<Longrightarrow> gives e p d u w \<Longrightarrow> (q, 0, w) \<in> clos e K"

text \<open>The marks that closing adds to a set.\<close>

definition new_marks :: "('a parser_env_scheme) \<Rightarrow> mark set \<Rightarrow> mark set" where
  "new_marks e S = {(q, 0, w) |q w. \<exists>p d u. (p, d, u) \<in> S \<and> closes e p d q \<and> gives e p d u w}"

lemma clos_unfold: "clos e K = K \<union> new_marks e (clos e K)"
proof
  show "clos e K \<subseteq> K \<union> new_marks e (clos e K)"
  proof
    fix m assume "m \<in> clos e K"
    then show "m \<in> K \<union> new_marks e (clos e K)" by cases (auto simp: new_marks_def)
  qed
qed (auto simp: new_marks_def intro: clos.intros)

lemma new_marksI: "(p, d, u) \<in> S \<Longrightarrow> closes e p d q \<Longrightarrow> gives e p d u w \<Longrightarrow> (q, 0, w) \<in> new_marks e S"
  by (auto simp: new_marks_def)

lemma clos_least: "K \<subseteq> S \<Longrightarrow> new_marks e S \<subseteq> S \<Longrightarrow> clos e K \<subseteq> S"
proof
  fix m assume "K \<subseteq> S" "new_marks e S \<subseteq> S" "m \<in> clos e K"
  from this(3,1,2) show "m \<in> S"
  proof (induction rule: clos.induct)
    case (step p d u q w)
    then have "(q, 0, w) \<in> new_marks e S" by (intro new_marksI)
    with step.prems(2) show ?case by blast
  qed blast
qed

lemma new_marks_mono: "S \<subseteq> T \<Longrightarrow> new_marks e S \<subseteq> new_marks e T"
  unfolding new_marks_def by blast

lemma clos_mono: "K \<subseteq> L \<Longrightarrow> clos e K \<subseteq> clos e L"
  by (rule clos_least) (auto simp: new_marks_def intro: clos.intros)

section \<open>Cores and transitions\<close>

text \<open>The items of a set without their lookaheads, and a set of items without lookaheads.\<close>

definition core :: "mark set \<Rightarrow> (PRODUCTION_S \<times> nat) set" where
  "core S = {(p, d) |p d u. (p, d, u) \<in> S}"

definition bare :: "(PRODUCTION_S \<times> nat) set \<Rightarrow> mark set" where
  "bare C = {(p, d, None) |p d. (p, d) \<in> C}"

definition go :: "mark set \<Rightarrow> nat \<Rightarrow> mark set" where
  "go S x = {(p, Suc d, u) |p d u. (p, d, u) \<in> S \<and> rhs_at p d = Some x}"

definition go_core :: "('a parser_env_scheme) \<Rightarrow> (PRODUCTION_S \<times> nat) set \<Rightarrow> nat \<Rightarrow> (PRODUCTION_S \<times> nat) set" where
  "go_core e C x = core (go (clos e (bare C)) x)"

lemma core_simps [simp]:
  "core (bare C) = C" "core {} = {}" "core (S \<union> T) = core S \<union> core T"
  by (auto simp: core_def bare_def)

lemma core_mono: "S \<subseteq> T \<Longrightarrow> core S \<subseteq> core T"
  by (auto simp: core_def)

lemma core_clos:
  shows "core (clos e K) = core (clos e (bare (core K)))"
proof
  have "\<exists>w. (p, d, w) \<in> clos e (bare (core K))" if "(p, d, u) \<in> clos e K" for p d u
    using that
  proof (induction rule: clos.induct [split_format (complete)])
    case (base p d u)
    then have "(p, d, None) \<in> bare (core K)" by (auto simp: bare_def core_def)
    then show ?case by (blast intro: clos.base)
  next
    case (step p d u q w)
    then obtain u' where "(p, d, u') \<in> clos e (bare (core K))" by blast
    then have "(q, 0, None) \<in> clos e (bare (core K))"
      using step by (auto intro: clos.step simp: gives_def)
    then show ?case by blast
  qed
  then show "core (clos e K) \<subseteq> core (clos e (bare (core K)))" by (auto simp: core_def)
  have "\<exists>w. (p, d, w) \<in> clos e K" if "(p, d, u) \<in> clos e (bare (core K))" for p d u
    using that
  proof (induction rule: clos.induct [split_format (complete)])
    case (base p d u)
    then obtain w where "(p, d, w) \<in> K" by (auto simp: bare_def core_def)
    then show ?case by (blast intro: clos.base)
  next
    case (step p d u q w)
    then obtain u' where "(p, d, u') \<in> clos e K" by blast
    then have "(q, 0, None) \<in> clos e K"
      using step by (auto intro: clos.step simp: gives_def)
    then show ?case by blast
  qed
  then show "core (clos e (bare (core K))) \<subseteq> core (clos e K)" by (auto simp: core_def)
qed

lemma core_go: "core (go S x) = {(p, Suc d) |p d. (p, d) \<in> core S \<and> rhs_at p d = Some x}"
  by (auto simp: core_def go_def)

lemma go_core_clos: "core (go (clos e K) x) = go_core e (core K) x"
  unfolding go_core_def core_go core_clos [of e K] ..

lemma go_mono: "S \<subseteq> T \<Longrightarrow> go S x \<subseteq> go T x"
  by (auto simp: go_def)

section \<open>The LALR(1) machine\<close>

text \<open>
  The states of the machine are the cores that are reached from the start item, and the
  items of a state have the lookaheads that reach it on some path.
\<close>

inductive lalr :: "('a parser_env_scheme) \<Rightarrow> PRODUCTION_S \<Rightarrow> (PRODUCTION_S \<times> nat) set \<Rightarrow> PRODUCTION_S \<Rightarrow> nat \<Rightarrow> nat option \<Rightarrow> bool"
  for e s where
  start: "u = None \<or> u = Some EOI \<Longrightarrow> lalr e s {(s, 0)} s 0 u"
| close: "lalr e s C p d u \<Longrightarrow> closes e p d q \<Longrightarrow> gives e p d u w \<Longrightarrow> lalr e s C q 0 w"
| shift: "lalr e s C p d u \<Longrightarrow> rhs_at p d = Some x \<Longrightarrow> lalr e s (go_core e C x) p (Suc d) u"

definition marks_of :: "('a parser_env_scheme) \<Rightarrow> PRODUCTION_S \<Rightarrow> (PRODUCTION_S \<times> nat) set \<Rightarrow> mark set" where
  "marks_of e s C = {(p, d, u). lalr e s C p d u}"

lemma marks_of_closed: "new_marks e (marks_of e s C) \<subseteq> marks_of e s C"
  by (auto simp: new_marks_def marks_of_def intro: lalr.close)

lemma marks_of_go: "go (marks_of e s C) x \<subseteq> marks_of e s (go_core e C x)"
  by (auto simp: go_def marks_of_def intro: lalr.shift)

lemma clos_marks_of: "K \<subseteq> marks_of e s C \<Longrightarrow> clos e K \<subseteq> marks_of e s C"
  by (rule clos_least [OF _ marks_of_closed])

text \<open>A machine whose states are closed under the transitions has all lookaheads.\<close>

lemma lalr_complete:
  assumes start: "\<And>u. u = None \<or> u = Some EOI \<Longrightarrow> (s, 0, u) \<in> M {(s, 0)}"
    and clo: "\<And>C. new_marks e (M C) \<subseteq> M C"
    and shift: "\<And>C x. go (M C) x \<subseteq> M (go_core e C x)"
  shows "marks_of e s C \<subseteq> M C"
proof -
  have "(p, d, u) \<in> M C" if "lalr e s C p d u" for C p d u
    using that
  proof (induction rule: lalr.induct)
    case (close C p d u q w)
    then have "(q, 0, w) \<in> new_marks e (M C)" by (auto simp: new_marks_def)
    then show ?case using clo by blast
  next
    case (shift C p d u x)
    then have "(p, Suc d, u) \<in> go (M C) x" by (auto simp: go_def)
    then show ?case using assms(3) by blast
  qed (use start in blast)
  then show ?thesis by (auto simp: marks_of_def)
qed

section \<open>The marks of a list of items\<close>

definition rep_item :: "ITEM_S \<Rightarrow> mark set" where
  "rep_item it = insert (prod it, dot_posn it, None) {(prod it, dot_posn it, Some t) |t. t \<in> members (lookaheads it)}"

definition rep_items :: "ITEM_S list \<Rightarrow> mark set" where
  "rep_items its = (\<Union>it\<in>set its. rep_item it)"

lemma rep_items_simps [simp]:
  "rep_items [] = {}" "rep_items (it # its) = rep_item it \<union> rep_items its"
  "rep_items (as @ bs) = rep_items as \<union> rep_items bs"
  by (auto simp: rep_items_def)

lemma rep_item_iff:
  "(p, d, u) \<in> rep_item it \<longleftrightarrow>
     p = prod it \<and> d = dot_posn it \<and> (case u of None \<Rightarrow> True | Some t \<Rightarrow> t \<in> members (lookaheads it))"
  by (auto simp: rep_item_def split: option.split)

lemma rep_items_iff: "m \<in> rep_items its \<longleftrightarrow> (\<exists>it\<in>set its. m \<in> rep_item it)"
  by (simp add: rep_items_def)

lemma core_rep: "core (rep_items its) = (\<lambda>it. (prod it, dot_posn it)) ` set its"
  by (force simp: core_def rep_items_iff rep_item_iff image_iff split: option.splits)

end
