(* ===== verification/LrClosure.thy ===== *)
theory LrClosure
  imports LrSpec
begin

text \<open>
  What \<open>closure\<close> of \<open>src/compiler/parser/yystate.c\<close> computes: the marks that closing the
  kernel adds.  The loop ends, because each round with a change takes one of the places that
  are left for items, or adds a lookahead to a set of tokens.
\<close>

section \<open>Grammars and items\<close>

definition prods :: "('a parser_env_scheme) \<Rightarrow> PRODUCTION_S set" where
  "prods e = (\<Union>x\<in>set (syms e). set (productions (symb e x)))"

text \<open>
  The limits of the symbol table (\<open>acts.c\<close> keeps them), and the numbers of symbols and
  productions, which are all different.
\<close>

definition lr_gram :: "('a parser_env_scheme) \<Rightarrow> bool" where
  "lr_gram e \<longleftrightarrow>
     gram_ok e \<and> inj_on num (prods e) \<and> inj_on (\<lambda>x. val (symb e x)) (set (syms e)) \<and>
     (\<forall>p\<in>prods e. num p < MAXPROD \<and> length (rhs p) \<le> MAXRHS) \<and>
     (\<forall>x\<in>set (syms e). val (symb e x) < 2 ^ 31)"

definition same_gram :: "('a parser_env_scheme) \<Rightarrow> ('a parser_env_scheme) \<Rightarrow> bool" where
  "same_gram e e' \<longleftrightarrow>
     symb e' = symb e \<and> symtab e' = symtab e \<and> g_currterm e' = g_currterm e \<and>
     g_currnonterm e' = g_currnonterm e"

definition item_ok :: "('a parser_env_scheme) \<Rightarrow> ITEM_S \<Rightarrow> bool" where
  "item_ok e it \<longleftrightarrow>
     prod it \<in> prods e \<and> dot_posn it \<le> length (rhs (prod it)) \<and>
     right_of_dot it = rhs_at (prod it) (dot_posn it) \<and>
     set_plain (lookaheads it) \<and> members (lookaheads it) \<subseteq> {..g_currterm e}"

lemma same_gram_trans: "same_gram e e' \<Longrightarrow> same_gram e' e'' \<Longrightarrow> same_gram e e''"
  by (simp add: same_gram_def)

lemma same_gram_basics:
  assumes "same_gram e e'"
  shows "ISTERM e' = ISTERM e" "ISNONTERM e' = ISNONTERM e" "ISACT e' = ISACT e"
    "EPS e' = EPS e" "syms e' = syms e" "firsts e' = firsts e" "prods e' = prods e"
  using assms
  by (simp_all add: fun_eq_iff same_gram_def ISTERM_def ISNONTERM_def ISACT_def EPS_def syms_def firsts_def prods_def)

lemma same_gram_sets:
  assumes "same_gram e e'"
  shows "skipF e' = skipF e" "scanF e' = scanF e"
proof -
  note b = same_gram_basics [OF assms]
  show s: "skipF e' = skipF e" by (simp add: fun_eq_iff skipF_def b)
  have "scanF e' F ys = scanF e F ys" for F ys
    using assms by (induction ys) (simp_all add: b s same_gram_def)
  then show "scanF e' = scanF e" by (simp add: fun_eq_iff)
qed

lemma same_gram_items:
  assumes "same_gram e e'"
  shows "item_ok e' = item_ok e" "closes e' = closes e" "contrib e' = contrib e" "passes e' = passes e"
    "gives e' = gives e" "new_marks e' = new_marks e"
proof -
  note b = same_gram_basics [OF assms] same_gram_sets [OF assms]
  show g: "item_ok e' = item_ok e" "closes e' = closes e" "contrib e' = contrib e" "passes e' = passes e"
    using assms by (simp_all add: fun_eq_iff item_ok_def closes_def contrib_def passes_def b same_gram_def)
  then show "gives e' = gives e" by (simp add: fun_eq_iff gives_def split: option.split)
  with g show "new_marks e' = new_marks e" by (simp add: fun_eq_iff new_marks_def)
qed

lemma same_gram_ok:
  assumes "same_gram e e'"
  shows "lr_gram e' = lr_gram e" and "gram_ok e' = gram_ok e"
proof -
  note b = same_gram_basics [OF assms]
  have "kind_ok e' = kind_ok e" "prod_ok e' = prod_ok e" "sets_ok e' = sets_ok e"
    using assms by (simp_all add: fun_eq_iff kind_ok_def prod_ok_def sets_ok_def b same_gram_def)
  then show g: "gram_ok e' = gram_ok e" using assms by (simp add: gram_ok_def b same_gram_def)
  then show "lr_gram e' = lr_gram e" using assms by (simp add: lr_gram_def b same_gram_def)
qed

lemma clos_cong:
  assumes "same_gram e e'"
  shows "clos e' = clos e"
proof -
  note i = same_gram_items [OF assms]
  have "clos e' K \<subseteq> clos e K" for K
    by (rule clos_least) (simp_all add: i(6) clos_unfold [symmetric], auto intro: clos.base simp: clos_unfold [of e K, symmetric] new_marks_def intro: clos.step)
  moreover have "clos e K \<subseteq> clos e' K" for K
    by (rule clos_least) (simp_all add: i(6) [symmetric], auto intro: clos.base clos.step simp: new_marks_def)
  ultimately show ?thesis by (simp add: fun_eq_iff subset_antisym)
qed

section \<open>Items\<close>

text \<open>The recycled sets, and the fields that making an item changes.\<close>

definition recycled_ok :: "('a lr_env_scheme) \<Rightarrow> bool" where
  "recycled_ok e \<longleftrightarrow> (\<forall>s\<in>set (recycled_items e). set_plain s)"

definition items_only :: "('a lr_env_scheme) \<Rightarrow> ('a lr_env_scheme) \<Rightarrow> bool" where
  "items_only e e' \<longleftrightarrow> (\<exists>k rs. e' = e\<lparr>nitems := k, recycled_items := rs\<rparr>) \<and> recycled_ok e'"

lemma items_onlyI: "e' = e\<lparr>nitems := k, recycled_items := rs\<rparr> \<Longrightarrow> recycled_ok e' \<Longrightarrow> items_only e e'"
  by (auto simp: items_only_def)

lemma items_only_refl: "recycled_ok e \<Longrightarrow> items_only e e"
  by (rule items_onlyI [where k = "nitems e" and rs = "recycled_items e"]) simp_all

lemma items_only_trans: "items_only e e' \<Longrightarrow> items_only e' e'' \<Longrightarrow> items_only e e''"
proof -
  assume "items_only e e'" "items_only e' e''"
  then obtain k rs where "e'' = e\<lparr>nitems := k, recycled_items := rs\<rparr>" "recycled_ok e''"
    by (auto simp: items_only_def)
  then show ?thesis by (rule items_onlyI)
qed

lemma items_only_gram: "items_only e e' \<Longrightarrow> same_gram e e'"
  by (auto simp: items_only_def same_gram_def)

lemma newitem_effect:
  assumes "recycled_ok e" and "p \<in> prods e"
  obtains it e' where "newitem p e = (it, e')" "items_only e e'" "item_ok e it"
    "prod it = p" "dot_posn it = 0" "members (lookaheads it) = {}" "rep_item it = {(p, 0, None)}"
proof (cases "recycled_items e")
  case Nil
  have "newitem p e = (\<lparr>prod = p, right_of_dot = rhs_at p 0, dot_posn = 0, lookaheads = set_new\<rparr>,
      e\<lparr>nitems := nitems e + 1, recycled_items := []\<rparr>)"
    using Nil by (simp add: newitem_def)
  then show thesis
    by (rule that) (auto intro!: items_onlyI simp: recycled_ok_def item_ok_def rep_item_def assms(2))
next
  case (Cons s rest)
  have "set_plain s" using assms(1) Cons by (simp add: recycled_ok_def)
  then have s: "set_plain (SET_CLEAR s)" "members (SET_CLEAR s) = {}"
    using SET_CLEAR_effect [of s] by (simp_all add: set_plain_def SET_CLEAR_def)
  have "newitem p e = (\<lparr>prod = p, right_of_dot = rhs_at p 0, dot_posn = 0, lookaheads = SET_CLEAR s\<rparr>,
      e\<lparr>nitems := nitems e + 1, recycled_items := rest\<rparr>)"
    using Cons by (simp add: newitem_def)
  then show thesis
    by (rule that)
      (use assms Cons s in \<open>auto intro!: items_onlyI simp: recycled_ok_def item_ok_def rep_item_def\<close>)
qed

section \<open>One step\<close>

text \<open>The state of the closure of a kernel with the marks \<open>K\<close>.\<close>

definition close_inv :: "('a parser_env_scheme) \<Rightarrow> mark set \<Rightarrow> int \<Rightarrow> close_env \<Rightarrow> bool" where
  "close_inv e K maxi c \<longleftrightarrow>
     (\<forall>it\<in>set (closure_items c). item_ok e it \<and> dot_posn it = 0) \<and>
     distinct (map prod (closure_items c)) \<and>
     rep_items (closure_items c) \<subseteq> new_marks e (clos e K) \<and>
     0 \<le> maxitems c \<and> maxitems c + int (length (closure_items c)) = maxi"

definition pot :: "('a parser_env_scheme) \<Rightarrow> close_env \<Rightarrow> nat" where
  "pot e c =
     nat (maxitems c) * (g_currterm e + 2) +
     (\<Sum>it\<leftarrow>closure_items c. g_currterm e + 1 - card (members (lookaheads it)))"

definition item_le :: "ITEM_S \<Rightarrow> ITEM_S \<Rightarrow> bool" where
  "item_le a b \<longleftrightarrow> prod b = prod a \<and> dot_posn b = dot_posn a \<and> right_of_dot b = right_of_dot a \<and>
     members (lookaheads a) \<subseteq> members (lookaheads b)"

definition items_le :: "ITEM_S list \<Rightarrow> ITEM_S list \<Rightarrow> bool" where
  "items_le as bs \<longleftrightarrow> length as \<le> length bs \<and> (\<forall>i<length as. item_le (as ! i) (bs ! i))"

definition grew :: "('a parser_env_scheme) \<Rightarrow> close_env \<Rightarrow> close_env \<Rightarrow> bool" where
  "grew e c c' \<longleftrightarrow> c' = c \<or> did c' \<and> pot e c' < pot e c \<and> items_le (closure_items c) (closure_items c')"

lemma item_le_refl [simp]: "item_le it it"
  by (simp add: item_le_def)

lemma items_le_refl [simp]: "items_le as as"
  by (simp add: items_le_def)

lemma items_le_trans: "items_le as bs \<Longrightarrow> items_le bs cs \<Longrightarrow> items_le as cs"
  unfolding items_le_def item_le_def by (metis order.trans order_less_le_trans)

lemma grew_refl [simp]: "grew e c c"
  by (simp add: grew_def)

lemma grew_le: "grew e c c' \<Longrightarrow> items_le (closure_items c) (closure_items c')"
  by (auto simp: grew_def)

lemma grew_trans: "grew e c c' \<Longrightarrow> grew e c' c'' \<Longrightarrow> grew e c c''"
  unfolding grew_def using items_le_trans by auto

lemma item_le_rep: "item_le a b \<Longrightarrow> rep_item a \<subseteq> rep_item b"
  by (auto simp: item_le_def rep_item_def)

lemma items_le_rep: "items_le as bs \<Longrightarrow> rep_items as \<subseteq> rep_items bs"
proof
  fix m assume le: "items_le as bs" and "m \<in> rep_items as"
  then obtain i where i: "i < length as" "m \<in> rep_item (as ! i)"
    by (auto simp: rep_items_iff in_set_conv_nth)
  then have "m \<in> rep_item (bs ! i)" "i < length bs"
    using le item_le_rep [of "as ! i" "bs ! i"] by (auto simp: items_le_def)
  then show "m \<in> rep_items bs" by (auto simp: rep_items_iff)
qed

lemma card_tokens: "item_ok e it \<Longrightarrow> card (members (lookaheads it)) \<le> g_currterm e + 1"
  using card_mono [of "{..g_currterm e}" "members (lookaheads it)"] by (simp add: item_ok_def)

text \<open>The item for a production.\<close>

lemma in_closure_items_iff:
  assumes "inj_on num (prods e)" and "\<forall>it\<in>set its. prod it \<in> prods e" and "p \<in> prods e"
  shows "(\<forall>i. in_closure_items p its = Some i \<longrightarrow> i < length its \<and> prod (its ! i) = p) \<and>
    (in_closure_items p its = None \<longrightarrow> p \<notin> prod ` set its)"
  using assms(2)
proof (induction its)
  case (Cons it its)
  then show ?case
    using inj_onD [OF assms(1), of "prod it" p] assms(3) by (auto split: if_splits)
qed simp

lemma close_item_effect:
  assumes gram: "lr_gram e" and env: "items_only e e'" and c: "close_inv e K maxi c"
    and p: "p \<in> prods e" and new: "(p, 0, None) \<in> new_marks e (clos e K)"
  shows "close_item p (c, e') = fatal \<or>
    (\<exists>i c' e''. close_item p (c, e') = Inr (i, c', e'') \<and> items_only e e'' \<and> close_inv e K maxi c' \<and>
       grew e c c' \<and> i < length (closure_items c') \<and> prod (closure_items c' ! i) = p)"
proof -
  have inj: "inj_on num (prods e)" using gram by (simp add: lr_gram_def)
  have its: "\<forall>it\<in>set (closure_items c). prod it \<in> prods e" using c by (auto simp: close_inv_def item_ok_def)
  note find = in_closure_items_iff [OF inj its p]
  show ?thesis
  proof (cases "in_closure_items p (closure_items c)")
    case (Some i)
    then have "i < length (closure_items c)" "prod (closure_items c ! i) = p"
      using find by auto
    then show ?thesis using Some env c by (auto simp: close_item_def)
  next
    case None
    have rec: "recycled_ok e'" and p': "p \<in> prods e'"
      using env p by (simp_all add: items_only_def same_gram_basics [OF items_only_gram [OF env]])
    obtain it e'' where it: "newitem p e' = (it, e'')" "items_only e' e''" "item_ok e' it"
      "prod it = p" "dot_posn it = 0" "members (lookaheads it) = {}" "rep_item it = {(p, 0, None)}"
      using newitem_effect [OF rec p'] .
    let ?c = "c\<lparr>maxitems := maxitems c - 1, closure_items := closure_items c @ [it], did := True\<rparr>"
    show ?thesis
    proof (cases "maxitems c - 1 < 0")
      case False
      have run: "close_item p (c, e') = Inr (length (closure_items c), ?c, e'')"
        using None False it(1) by (simp add: close_item_def)
      have ok: "item_ok e it" using it(3) by (simp add: same_gram_items [OF items_only_gram [OF env]])
      have inv: "close_inv e K maxi ?c"
        using c ok it(4,5,7) False find None new by (auto simp: close_inv_def)
      have "nat (maxitems c) = Suc (nat (maxitems c - 1))" using False by simp
      then have "pot e ?c < pot e c" using it(6) by (simp add: pot_def)
      then have "grew e c ?c" by (simp add: grew_def items_le_def nth_append)
      then show ?thesis using run inv it(4) items_only_trans [OF env it(2)]
        by (intro disjI2 exI [of _ "length (closure_items c)"] exI [of _ ?c] exI [of _ e'']) simp
    qed (use None in \<open>simp add: close_item_def it(1)\<close>)
  qed
qed

text \<open>Adding lookaheads.\<close>

lemma rep_items_update:
  "i < length its \<Longrightarrow> rep_items (its[i := it]) \<subseteq> rep_items its \<union> rep_item it \<and> rep_item it \<subseteq> rep_items (its[i := it])"
  using set_update_subset_insert [of its i it] set_update_memI [of i its it]
  by (auto simp: rep_items_def)

lemma sum_list_update_less:
  fixes f :: "'b \<Rightarrow> nat"
  assumes "i < length xs" and "f y < f (xs ! i)"
  shows "sum_list (map f (xs[i := y])) < sum_list (map f xs)"
  using assms
proof (induction xs arbitrary: i)
  case (Cons x xs)
  then show ?case by (cases i) auto
qed simp

lemma look_into_effect:
  assumes c: "close_inv e K maxi c" and i: "i < length (closure_items c)"
    and src: "set_plain src" "members src \<subseteq> {..g_currterm e}"
    and new: "\<And>t. t \<in> members src \<Longrightarrow> (prod (closure_items c ! i), 0, Some t) \<in> new_marks e (clos e K)"
  shows "\<exists>c'. look_into i src c = Inr c' \<and> close_inv e K maxi c' \<and> grew e c c' \<and>
    (\<forall>t\<in>members src. (prod (closure_items c ! i), 0, Some t) \<in> rep_items (closure_items c'))"
proof -
  let ?it = "closure_items c ! i"
  let ?L = "lookaheads ?it"
  have it: "item_ok e ?it" "dot_posn ?it = 0" using c i by (simp_all add: close_inv_def)
  then have L: "set_plain ?L" "members ?L \<subseteq> {..g_currterm e}" by (simp_all add: item_ok_def)
  have wf: "set_wf src" using src(1) by (simp add: set_plain_def)
  show ?thesis
  proof (cases "members src \<subseteq> members ?L")
    case True
    have "look_into i src c = Inr c"
      using True i wf by (simp add: look_into_def add_lookahead_def)
    moreover have "(prod ?it, 0, Some t) \<in> rep_items (closure_items c)" if "t \<in> members src" for t
      using True that i it(2) unfolding rep_items_iff
      by (intro bexI [of _ ?it]) (auto simp: rep_item_iff)
    ultimately show ?thesis using c by auto
  next
    case False
    let ?it' = "?it\<lparr>lookaheads := SET_UNION ?L src\<rparr>"
    let ?c = "c\<lparr>did := True, closure_items := (closure_items c)[i := ?it']\<rparr>"
    have run: "look_into i src c = Inr ?c"
      using False wf by (auto simp: look_into_def add_lookahead_def)
    have mem: "members (SET_UNION ?L src) = members ?L \<union> members src" "set_plain (SET_UNION ?L src)"
      using L src by simp_all
    have ok': "item_ok e ?it'" using it(1) L src mem by (auto simp: item_ok_def)
    have le: "item_le ?it ?it'" using mem by (auto simp: item_le_def)
    have rep': "rep_item ?it' = rep_item ?it \<union> {(prod ?it, 0, Some t) |t. t \<in> members src}"
      using mem it(2) by (auto simp: rep_item_def)
    have "prod ?it' = prod ?it" by simp
    then have prods: "map prod ((closure_items c)[i := ?it']) = map prod (closure_items c)"
      using i by (simp add: map_update list_update_same_conv)
    have "rep_items ((closure_items c)[i := ?it']) \<subseteq> rep_items (closure_items c) \<union> rep_item ?it'"
      using rep_items_update [OF i] by blast
    moreover have "rep_item ?it \<subseteq> rep_items (closure_items c)"
      using nth_mem [OF i] unfolding rep_items_def by blast
    moreover have "rep_items (closure_items c) \<subseteq> new_marks e (clos e K)" using c by (simp add: close_inv_def)
    moreover have "{(prod ?it, 0, Some t) |t. t \<in> members src} \<subseteq> new_marks e (clos e K)" using new by blast
    ultimately have rep: "rep_items ((closure_items c)[i := ?it']) \<subseteq> new_marks e (clos e K)"
      unfolding rep' by blast
    have each: "\<forall>x\<in>set ((closure_items c)[i := ?it']). item_ok e x \<and> dot_posn x = 0"
      using c ok' it(2) set_update_subset_insert [of "closure_items c" i ?it'] by (auto simp: close_inv_def)
    have "close_inv e K maxi ?c" using c rep each prods by (simp add: close_inv_def)
    moreover have "pot e ?c < pot e c"
    proof -
      have fin: "finite (members (lookaheads ?it'))"
        using ok' finite_subset [of "members (lookaheads ?it')" "{..g_currterm e}"] by (auto simp: item_ok_def)
      have "members ?L \<subset> members (lookaheads ?it')" using False mem by auto
      then have "card (members ?L) < card (members (lookaheads ?it'))" using fin by (rule psubset_card_mono [rotated])
      moreover have "card (members (lookaheads ?it')) \<le> g_currterm e + 1" using card_tokens [OF ok'] .
      ultimately show ?thesis using i sum_list_update_less [of i "closure_items c"
          "\<lambda>it. g_currterm e + 1 - card (members (lookaheads it))" ?it'] by (simp add: pot_def)
    qed
    then have "grew e c ?c" using le i by (auto simp: grew_def items_le_def nth_list_update)
    moreover have "\<forall>t\<in>members src. (prod ?it, 0, Some t) \<in> rep_items (closure_items ?c)"
      using rep_items_update [OF i, of ?it'] rep' by auto
    ultimately show ?thesis using run by blast
  qed
qed

section \<open>Closing an item\<close>

text \<open>The item that is closed: of the kernel, or of the closure.\<close>

definition src_ok :: "('a parser_env_scheme) \<Rightarrow> mark set \<Rightarrow> ITEM_S + nat \<Rightarrow> close_env \<Rightarrow> bool" where
  "src_ok e K src c \<longleftrightarrow>
     (case src of Inl it \<Rightarrow> item_ok e it \<and> rep_item it \<subseteq> K | Inr i \<Rightarrow> i < length (closure_items c))"

abbreviation src_item :: "ITEM_S + nat \<Rightarrow> close_env \<Rightarrow> ITEM_S" where
  "src_item src c \<equiv> the_item src (closure_items c)"

text \<open>The marks that one item gives to the production \<open>q\<close>.\<close>

definition given :: "('a parser_env_scheme) \<Rightarrow> ITEM_S \<Rightarrow> PRODUCTION_S \<Rightarrow> mark set" where
  "given e it q = {(q, 0, w) |w. \<exists>u. (prod it, dot_posn it, u) \<in> rep_item it \<and> gives e (prod it) (dot_posn it) u w}"

lemma given_sets:
  "given e it q = insert (q, 0, None) {(q, 0, Some t) |t.
     t \<in> contrib e (prod it) (dot_posn it) \<union> (if passes e (prod it) (dot_posn it) then members (lookaheads it) else {})}"
proof -
  let ?P = "\<lambda>w u. (prod it, dot_posn it, u) \<in> rep_item it \<and> gives e (prod it) (dot_posn it) u w"
  have "?P None None" by (simp add: rep_item_iff gives_def)
  moreover have "(\<exists>u. ?P (Some t) u) \<longleftrightarrow> t \<in> contrib e (prod it) (dot_posn it) \<or>
      passes e (prod it) (dot_posn it) \<and> t \<in> members (lookaheads it)" (is "_ \<longleftrightarrow> ?R") for t
  proof
    assume ?R
    then have "?P (Some t) None \<or> ?P (Some t) (Some t)" by (auto simp: rep_item_iff gives_def)
    then show "\<exists>u. ?P (Some t) u" by blast
  qed (auto simp: rep_item_iff gives_def)
  ultimately have "(\<exists>u. ?P w u) \<longleftrightarrow> (case w of None \<Rightarrow> True | Some t \<Rightarrow> t \<in> contrib e (prod it) (dot_posn it) \<or>
      passes e (prod it) (dot_posn it) \<and> t \<in> members (lookaheads it))" for w
    by (cases w; simp only: option.case; blast)
  then show ?thesis by (auto simp: given_def split: option.splits)
qed

lemma src_item_ok:
  assumes "src_ok e K src c" and "close_inv e K maxi c"
  shows "item_ok e (src_item src c)" and "rep_item (src_item src c) \<subseteq> clos e K"
proof -
  have "item_ok e (src_item src c) \<and> rep_item (src_item src c) \<subseteq> clos e K"
  proof (cases src)
    case (Inl it)
    then show ?thesis using assms(1) by (auto simp: src_ok_def the_item_def intro: clos.base)
  next
    case (Inr i)
    then have i: "closure_items c ! i \<in> set (closure_items c)" using assms(1) by (simp add: src_ok_def)
    then have "rep_item (closure_items c ! i) \<subseteq> rep_items (closure_items c)" by (auto simp: rep_items_def)
    also have "\<dots> \<subseteq> new_marks e (clos e K)" using assms(2) by (simp add: close_inv_def)
    also have "\<dots> \<subseteq> clos e K" using clos_unfold [of e K] by blast
    finally show ?thesis using Inr i assms(2) by (simp add: the_item_def close_inv_def)
  qed
  then show "item_ok e (src_item src c)" "rep_item (src_item src c) \<subseteq> clos e K" by simp_all
qed

lemma src_grows:
  assumes "src_ok e K src c" and "items_le (closure_items c) (closure_items c')"
  shows "src_ok e K src c'" and "item_le (src_item src c) (src_item src c')"
  using assms by (auto simp: src_ok_def the_item_def items_le_def split: sum.splits)

lemma given_new:
  "rep_item it \<subseteq> clos e K \<Longrightarrow> closes e (prod it) (dot_posn it) q \<Longrightarrow> given e it q \<subseteq> new_marks e (clos e K)"
  unfolding given_def new_marks_def by blast

lemma given_mono: "item_le a b \<Longrightarrow> given e a q \<subseteq> given e b q"
  by (auto simp: given_def item_le_def rep_item_iff split: option.splits)

lemma truncate_plain: "set_plain s \<Longrightarrow> \<exists>s'. set_truncate (Some s) = Some s' \<and> set_plain s' \<and> members s' = {}"
  by (metis set_plain_def set_truncate_effect)

lemma scanF_tokens:
  assumes "gram_ok e" and "set ys \<subseteq> set (syms e)" and "\<And>y. firsts e y \<subseteq> {..EPS e}"
  shows "scanF e (firsts e) ys - {EPS e} \<subseteq> {..g_currterm e}"
proof -
  have "scanF e (firsts e) ys \<subseteq> {..EPS e}"
    using assms(2)
  proof (induction ys)
    case (Cons y ys)
    then have "y \<in> set (syms e)" by simp
    with assms(1) have "ISTERM e y \<Longrightarrow> val (symb e y) \<le> EPS e"
      by (cases rule: gram_kind) (auto simp: EPS_def)
    with Cons assms(3) [of y] show ?case by auto
  qed simp
  then show ?thesis by (auto simp: EPS_def le_Suc_eq)
qed

text \<open>The sets \<open>first\<close> hold tokens and \<open>EPSILON\<close> only.\<close>

definition first_range :: "('a parser_env_scheme) \<Rightarrow> bool" where
  "first_range e \<longleftrightarrow> (\<forall>y. firsts e y \<subseteq> {..EPS e})"

text \<open>The set that goes into the items of the productions of the symbol behind the dot.\<close>

lemma behind_set:
  assumes gram: "lr_gram e" "first_range e" and env: "same_gram e e'" and it: "item_ok e it" and cs: "set_plain cs"
    and rest: "rhs_at (prod it) (dot_posn it + 1) \<noteq> None"
  obtains cs1 b where "first_rhs e' cs (drop (dot_posn it + 1) (rhs (prod it))) = Inr (cs1, b)" "set_plain cs1"
    "members cs1 = members cs \<union> scanF e (firsts e) (drop (Suc (dot_posn it)) (rhs (prod it)))"
    "b = passes e (prod it) (dot_posn it)" "contrib e (prod it) (dot_posn it) \<subseteq> {..g_currterm e}"
proof -
  let ?ys = "drop (Suc (dot_posn it)) (rhs (prod it))"
  have ok: "gram_ok e" "gram_ok e'" using gram(1) same_gram_ok [OF env] by (simp_all add: lr_gram_def)
  obtain x where "x \<in> set (syms e)" "prod it \<in> set (productions (symb e x))"
    using it by (auto simp: item_ok_def prods_def)
  then have "set (rhs (prod it)) \<subseteq> set (syms e)" using gram_rhs [OF ok(1)] by blast
  then have ys: "set ?ys \<subseteq> set (syms e)" using set_drop_subset by fast
  have ne: "?ys \<noteq> []" using rest by (auto simp: rhs_at_def split: if_splits)
  note b = same_gram_basics [OF env] same_gram_sets [OF env]
  have c: "contrib e (prod it) (dot_posn it) \<subseteq> {..g_currterm e}"
    using scanF_tokens [OF ok(1) ys] gram(2) by (simp add: contrib_def first_range_def)
  have "set ?ys \<subseteq> set (syms e')" using ys by (simp add: b)
  from first_rhs_effect [OF ok(2) this cs] ne obtain cs1 where
    "first_rhs e' cs ?ys = Inr (cs1, \<forall>y\<in>set ?ys. skipF e (firsts e) y)" "set_plain cs1"
    "members cs1 = members cs \<union> scanF e (firsts e) ?ys"
    by (auto simp: b)
  with c show thesis using that by (simp add: passes_def)
qed

lemma close_prods_effect:
  assumes gram: "lr_gram e" "first_range e"
  shows "items_only e e' \<Longrightarrow> close_inv e K maxi c \<Longrightarrow> src_ok e K src c \<Longrightarrow> set_plain cs \<Longrightarrow>
    \<forall>q\<in>set ps. q \<in> prods e \<and> closes e (prod (src_item src c)) (dot_posn (src_item src c)) q \<Longrightarrow>
    close_prods src ps cs (c, e') = fatal \<or>
    (\<exists>c' e''. close_prods src ps cs (c, e') = Inr (c', e'') \<and> items_only e e'' \<and> close_inv e K maxi c' \<and>
       grew e c c' \<and> (\<forall>q\<in>set ps. given e (src_item src c) q \<subseteq> rep_items (closure_items c')))"
proof (induction ps arbitrary: cs c e')
  case (Cons p ps)
  let ?it = "src_item src c"
  have p: "p \<in> prods e" "closes e (prod ?it) (dot_posn ?it) p" using Cons.prems(5) by simp_all
  have G: "given e ?it p \<subseteq> new_marks e (clos e K)"
    using given_new [OF src_item_ok(2) [OF Cons.prems(3,2)] p(2)] .
  then have new: "(p, 0, None) \<in> new_marks e (clos e K)" by (auto simp: given_sets)
  from close_item_effect [OF gram(1) Cons.prems(1,2) p(1) new] show ?case
  proof
    assume "close_item p (c, e') = fatal"
    then show ?thesis by (simp add: fatal_def)
  next
    assume "\<exists>i c' e''. close_item p (c, e') = Inr (i, c', e'') \<and> items_only e e'' \<and> close_inv e K maxi c' \<and>
      grew e c c' \<and> i < length (closure_items c') \<and> prod (closure_items c' ! i) = p"
    then obtain i c1 e1 where 1: "close_item p (c, e') = Inr (i, c1, e1)" "items_only e e1"
      "close_inv e K maxi c1" "grew e c c1" "i < length (closure_items c1)" "prod (closure_items c1 ! i) = p"
      by blast
    let ?it1 = "src_item src c1"
    have src1: "src_ok e K src c1" and le1: "item_le ?it ?it1"
      using src_grows [OF Cons.prems(3) grew_le [OF 1(4)]] by simp_all
    note ok1 = src_item_ok [OF src1 1(3)]
    have same: "prod ?it1 = prod ?it" "dot_posn ?it1 = dot_posn ?it" using le1 by (simp_all add: item_le_def)
    have G1: "given e ?it1 p \<subseteq> new_marks e (clos e K)"
      using given_new [OF ok1(2)] p(2) by (simp add: same)
    obtain S where step: "close_prods src (p # ps) cs (c, e') =
        bind_res (look_into i S c1) (\<lambda>c'. close_prods src ps (if rhs_at (prod ?it1) (dot_posn ?it1 + 1) = None then cs else S) (c', e1))"
      and S: "set_plain S" "members S \<subseteq> {..g_currterm e}"
        "given e ?it1 p = insert (p, 0, None) {(p, 0, Some t) |t. t \<in> members S}"
    proof (cases "rhs_at (prod ?it1) (dot_posn ?it1 + 1) = None")
      case True
      have "drop (Suc (dot_posn ?it1)) (rhs (prod ?it1)) = []"
        using True by (simp add: rhs_at_def split: if_splits)
      then have "given e ?it1 p = insert (p, 0, None) {(p, 0, Some t) |t. t \<in> members (lookaheads ?it1)}"
        by (simp add: given_sets contrib_def passes_def)
      then show thesis using that [of "lookaheads ?it1"] True 1(1) ok1(1) by (simp add: Let_def item_ok_def)
    next
      case False
      obtain cs0 where cs0: "set_truncate (Some cs) = Some cs0" "set_plain cs0" "members cs0 = {}"
        using truncate_plain [OF Cons.prems(4)] by blast
      obtain cs1 b where cs1: "first_rhs e1 cs0 (drop (dot_posn ?it1 + 1) (rhs (prod ?it1))) = Inr (cs1, b)"
        "set_plain cs1" "members cs1 = members cs0 \<union> scanF e (firsts e) (drop (Suc (dot_posn ?it1)) (rhs (prod ?it1)))"
        "b = passes e (prod ?it1) (dot_posn ?it1)" "contrib e (prod ?it1) (dot_posn ?it1) \<subseteq> {..g_currterm e}"
        using behind_set [OF gram items_only_gram [OF 1(2)] ok1(1) cs0(2) False] .
      let ?S = "if b then SET_UNION (SET_REMOVE cs1 (EPS e1)) (lookaheads ?it1) else SET_REMOVE cs1 (EPS e1)"
      have L: "set_plain (lookaheads ?it1)" "members (lookaheads ?it1) \<subseteq> {..g_currterm e}"
        using ok1(1) by (simp_all add: item_ok_def)
      have E: "EPS e1 = EPS e" by (simp add: same_gram_basics [OF items_only_gram [OF 1(2)]])
      have mem: "members ?S = contrib e (prod ?it1) (dot_posn ?it1) \<union>
          (if passes e (prod ?it1) (dot_posn ?it1) then members (lookaheads ?it1) else {})"
        using cs1(2-4) cs0(3) L(1) by (simp add: E contrib_def)
      then have "members ?S \<subseteq> {..g_currterm e}" using cs1(5) L(2) by auto
      moreover have "given e ?it1 p = insert (p, 0, None) {(p, 0, Some t) |t. t \<in> members ?S}"
        by (simp add: given_sets mem)
      moreover have "set_plain ?S" using cs1(2) L(1) by simp
      moreover have "close_prods src (p # ps) cs (c, e') =
          bind_res (look_into i ?S c1) (\<lambda>c'. close_prods src ps ?S (c', e1))"
        by (simp add: False Let_def 1(1) cs0(1) cs1(1) del: One_nat_def)
      ultimately show thesis by (intro that [of ?S]) (simp_all only: False if_False)
    qed
    have "\<And>t. t \<in> members S \<Longrightarrow> (prod (closure_items c1 ! i), 0, Some t) \<in> new_marks e (clos e K)"
      using G1 unfolding S(3) by (auto simp: 1(6))
    from look_into_effect [OF 1(3,5) S(1,2) this] obtain c2 where
      2: "look_into i S c1 = Inr c2" "close_inv e K maxi c2" "grew e c1 c2"
        "\<forall>t\<in>members S. (p, 0, Some t) \<in> rep_items (closure_items c2)"
      by (auto simp: 1(6))
    have g2: "grew e c c2" using 1(4) 2(3) by (rule grew_trans)
    have src2: "src_ok e K src c2" and le2: "item_le ?it (src_item src c2)"
      using src_grows [OF Cons.prems(3) grew_le [OF g2]] by simp_all
    have "rep_item (closure_items c1 ! i) \<subseteq> rep_items (closure_items c2)"
      using items_le_rep [OF grew_le [OF 2(3)]] nth_mem [OF 1(5)] by (auto simp: rep_items_def)
    moreover have "dot_posn (closure_items c1 ! i) = 0" using 1(3) nth_mem [OF 1(5)] by (simp add: close_inv_def)
    ultimately have "(p, 0, None) \<in> rep_items (closure_items c2)" by (auto simp: rep_item_iff 1(6))
    then have hit: "given e ?it1 p \<subseteq> rep_items (closure_items c2)" using 2(4) unfolding S(3) by auto
    have "set_plain (if rhs_at (prod ?it1) (dot_posn ?it1 + 1) = None then cs else S)" using Cons.prems(4) S(1) by simp
    moreover have "\<forall>q\<in>set ps. q \<in> prods e \<and> closes e (prod (src_item src c2)) (dot_posn (src_item src c2)) q"
      using Cons.prems(5) le2 by (simp add: item_le_def)
    ultimately have IH: "close_prods src ps (if rhs_at (prod ?it1) (dot_posn ?it1 + 1) = None then cs else S) (c2, e1) = fatal \<or>
      (\<exists>c' e''. close_prods src ps (if rhs_at (prod ?it1) (dot_posn ?it1 + 1) = None then cs else S) (c2, e1) = Inr (c', e'') \<and>
         items_only e e'' \<and> close_inv e K maxi c' \<and> grew e c2 c' \<and>
         (\<forall>q\<in>set ps. given e (src_item src c2) q \<subseteq> rep_items (closure_items c')))"
      using Cons.IH [OF 1(2) 2(2) src2] by blast
    have "given e ?it q \<subseteq> rep_items (closure_items c')"
      if "grew e c2 c'" "\<forall>q\<in>set ps. given e (src_item src c2) q \<subseteq> rep_items (closure_items c')" "q \<in> set (p # ps)" for c' q
      using that given_mono [OF le1, of e p] given_mono [OF le2, of e q] hit items_le_rep [OF grew_le [OF that(1)]]
      by auto
    note all = this
    have run: "close_prods src (p # ps) cs (c, e') =
        close_prods src ps (if rhs_at (prod ?it1) (dot_posn ?it1 + 1) = None then cs else S) (c2, e1)"
      by (simp only: step 2(1) bind_res_simps)
    from IH show ?thesis
    proof
      assume "\<exists>c' e''. close_prods src ps (if rhs_at (prod ?it1) (dot_posn ?it1 + 1) = None then cs else S) (c2, e1) = Inr (c', e'') \<and>
         items_only e e'' \<and> close_inv e K maxi c' \<and> grew e c2 c' \<and>
         (\<forall>q\<in>set ps. given e (src_item src c2) q \<subseteq> rep_items (closure_items c'))"
      then show ?thesis unfolding run using all grew_trans [OF g2] by blast
    qed (simp only: run simp_thms)
  qed
qed simp

section \<open>The closure of a kernel\<close>

text \<open>All that closing the item gives is there.\<close>

definition closed_by :: "('a parser_env_scheme) \<Rightarrow> ITEM_S \<Rightarrow> close_env \<Rightarrow> bool" where
  "closed_by e it c \<longleftrightarrow> (\<forall>q. closes e (prod it) (dot_posn it) q \<longrightarrow> given e it q \<subseteq> rep_items (closure_items c))"

lemma closed_by_grows: "closed_by e it c \<Longrightarrow> grew e c c' \<Longrightarrow> closed_by e it c'"
  using items_le_rep [OF grew_le] unfolding closed_by_def by blast

lemma closed_by_le: "closed_by e b c \<Longrightarrow> item_le a b \<Longrightarrow> closed_by e a c"
proof -
  assume b: "closed_by e b c" and le: "item_le a b"
  have "given e a q \<subseteq> rep_items (closure_items c)" if "closes e (prod a) (dot_posn a) q" for q
    using given_mono [OF le, of e q] b that le unfolding closed_by_def item_le_def by fastforce
  then show ?thesis by (simp add: closed_by_def)
qed

lemma closes_prods: "lr_gram e \<Longrightarrow> item_ok e it \<Longrightarrow> closes e (prod it) d q \<Longrightarrow> q \<in> prods e"
proof -
  assume gram: "lr_gram e" and it: "item_ok e it" and "closes e (prod it) d q"
  then obtain y where y: "rhs_at (prod it) d = Some y" "q \<in> set (productions (symb e y))"
    by (auto simp: closes_def)
  obtain x where x: "x \<in> set (syms e)" "prod it \<in> set (productions (symb e x))"
    using it by (auto simp: item_ok_def prods_def)
  have "gram_ok e" using gram by (simp add: lr_gram_def)
  from gram_rhs [OF this x] y(1) have "y \<in> set (syms e)" by (auto simp: rhs_at_def split: if_splits)
  with y(2) show ?thesis by (auto simp: prods_def)
qed

lemma do_close_effect:
  assumes gram: "lr_gram e" "first_range e" and env: "items_only e e'" and c: "close_inv e K maxi c"
    and src: "src_ok e K src c"
  shows "do_close src (c, e') = fatal \<or>
    (\<exists>c' e''. do_close src (c, e') = Inr (c', e'') \<and> items_only e e'' \<and> close_inv e K maxi c' \<and>
       grew e c c' \<and> closed_by e (src_item src c) c')"
proof -
  let ?it = "src_item src c"
  have it: "item_ok e ?it" using src_item_ok(1) [OF src c] .
  then have dot: "right_of_dot ?it = rhs_at (prod ?it) (dot_posn ?it)" by (simp add: item_ok_def)
  have nt: "ISNONTERM e' = ISNONTERM e" and sy: "symb e' = symb e"
    using items_only_gram [OF env] by (simp_all add: same_gram_basics) (simp add: same_gram_def)
  show ?thesis
  proof (cases "\<exists>x. rhs_at (prod ?it) (dot_posn ?it) = Some x \<and> ISNONTERM e x")
    case True
    then obtain x where x: "rhs_at (prod ?it) (dot_posn ?it) = Some x" "ISNONTERM e x" by blast
    have run: "do_close src (c, e') = close_prods src (productions (symb e x)) set_new (c, e')"
      using x by (simp add: do_close_def dot nt sy)
    have cl: "closes e (prod ?it) (dot_posn ?it) q \<longleftrightarrow> q \<in> set (productions (symb e x))" for q
      using x by (auto simp: closes_def)
    have "\<forall>q\<in>set (productions (symb e x)). q \<in> prods e \<and> closes e (prod ?it) (dot_posn ?it) q"
      using closes_prods [OF gram(1) it] cl by blast
    from close_prods_effect [OF gram env c src set_plain_simps(1) this] show ?thesis
      unfolding run closed_by_def cl by (simp only: Ball_def)
  next
    case False
    then have "do_close src (c, e') = Inr (c, e')"
      by (auto simp: do_close_def dot nt split: option.split)
    moreover have "closed_by e ?it c" using False by (auto simp: closed_by_def closes_def)
    ultimately show ?thesis using env c by auto
  qed
qed

lemma close_all_effect:
  assumes gram: "lr_gram e" "first_range e"
  shows "items_only e e' \<Longrightarrow> close_inv e K maxi c \<Longrightarrow> \<forall>src\<in>set srcs. src_ok e K src c \<Longrightarrow>
    close_all srcs (c, e') = fatal \<or>
    (\<exists>c' e''. close_all srcs (c, e') = Inr (c', e'') \<and> items_only e e'' \<and> close_inv e K maxi c' \<and>
       grew e c c' \<and> (\<forall>src\<in>set srcs. closed_by e (src_item src c) c'))"
proof (induction srcs arbitrary: c e')
  case (Cons src srcs)
  have src: "src_ok e K src c" using Cons.prems(3) by simp
  from do_close_effect [OF gram Cons.prems(1,2) src] show ?case
  proof
    assume "do_close src (c, e') = fatal"
    then show ?thesis by (simp add: fatal_def)
  next
    assume "\<exists>c' e''. do_close src (c, e') = Inr (c', e'') \<and> items_only e e'' \<and> close_inv e K maxi c' \<and>
       grew e c c' \<and> closed_by e (src_item src c) c'"
    then obtain c1 e1 where 1: "do_close src (c, e') = Inr (c1, e1)" "items_only e e1" "close_inv e K maxi c1"
      "grew e c c1" "closed_by e (src_item src c) c1" by blast
    have le: "item_le (src_item s c) (src_item s c1)" "src_ok e K s c1" if "s \<in> set srcs" for s
      using src_grows [OF _ grew_le [OF 1(4)], where K = K and src = s and e = e] Cons.prems(3) that by simp_all
    then have IH: "close_all srcs (c1, e1) = fatal \<or>
      (\<exists>c' e''. close_all srcs (c1, e1) = Inr (c', e'') \<and> items_only e e'' \<and> close_inv e K maxi c' \<and>
         grew e c1 c' \<and> (\<forall>src\<in>set srcs. closed_by e (src_item src c1) c'))"
      using Cons.IH [OF 1(2,3)] by blast
    have run: "close_all (src # srcs) (c, e') = close_all srcs (c1, e1)" by (simp add: 1(1))
    have "\<forall>s\<in>set (src # srcs). closed_by e (src_item s c) c'"
      if "grew e c1 c'" "\<forall>s\<in>set srcs. closed_by e (src_item s c1) c'" for c'
      using closed_by_grows [OF 1(5) that(1)] that(2) closed_by_le [OF _ le(1)] unfolding list.set by blast
    with IH grew_trans [OF 1(4)] show ?thesis unfolding run by blast
  qed
qed simp

definition closure_of :: "('a parser_env_scheme) \<Rightarrow> mark set \<Rightarrow> ITEM_S list \<Rightarrow> bool" where
  "closure_of e K cl \<longleftrightarrow>
     (\<forall>it\<in>set cl. item_ok e it \<and> dot_posn it = 0) \<and> distinct (map prod cl) \<and>
     rep_items cl = new_marks e (clos e K)"

lemma closed_all:
  assumes inv: "close_inv e (rep_items kern) maxi c"
    and kern: "\<forall>it\<in>set kern. closed_by e it c" and its: "\<forall>it\<in>set (closure_items c). closed_by e it c"
  shows "closure_of e (rep_items kern) (closure_items c)"
proof -
  let ?K = "rep_items kern" and ?R = "rep_items (closure_items c)"
  have "m \<in> ?R" if new: "m \<in> new_marks e (?K \<union> ?R)" for m
  proof -
    obtain q w p d u where m: "m = (q, 0, w)" "(p, d, u) \<in> ?K \<union> ?R" "closes e p d q" "gives e p d u w"
      using new unfolding new_marks_def by blast
    then obtain it where it: "it \<in> set kern \<union> set (closure_items c)" "(p, d, u) \<in> rep_item it"
      by (auto simp: rep_items_iff)
    then have pd: "p = prod it" "d = dot_posn it" by (simp_all add: rep_item_iff)
    have "m \<in> given e it q" using m(1,4) it(2) unfolding given_def pd by blast
    moreover have "closed_by e it c" using it(1) kern its by blast
    ultimately show ?thesis using m(3) unfolding closed_by_def pd by blast
  qed
  then have new: "new_marks e (?K \<union> ?R) \<subseteq> ?R" by blast
  then have "clos e ?K \<subseteq> ?K \<union> ?R" by (intro clos_least) auto
  then have "new_marks e (clos e ?K) \<subseteq> ?R" using new_marks_mono [of _ "?K \<union> ?R" e] new by blast
  with inv show ?thesis by (auto simp: closure_of_def close_inv_def)
qed

lemma closure_loop_effect:
  assumes gram: "lr_gram e" "first_range e"
  shows "items_only e e' \<Longrightarrow> close_inv e (rep_items kern) maxi c \<Longrightarrow> \<forall>it\<in>set kern. closed_by e it c \<Longrightarrow>
    (\<not> did c \<Longrightarrow> \<forall>it\<in>set (closure_items c). closed_by e it c) \<Longrightarrow>
    closure_loop (c, e') = Some fatal \<or>
    (\<exists>cl e''. closure_loop (c, e') = Some (Inr (cl, e'')) \<and> items_only e e'' \<and>
       closure_of e (rep_items kern) cl \<and> int (length cl) \<le> maxi)"
proof (induction "pot e c" arbitrary: c e' rule: less_induct)
  case less
  show ?case
  proof (cases "did c")
    case False
    then have "closure_of e (rep_items kern) (closure_items c)"
      using closed_all [OF less.prems(2,3)] less.prems(4) by blast
    moreover have "int (length (closure_items c)) \<le> maxi" using less.prems(2) by (simp add: close_inv_def)
    ultimately show ?thesis using False less.prems(1) by (simp add: closure_loop.simps [of "(c, e')"])
  next
    case True
    let ?c = "c\<lparr>did := False\<rparr>"
    let ?srcs = "map Inr [0..<length (closure_items c)]"
    have run: "closure_loop (c, e') = (case close_all ?srcs (?c, e') of
        Inl a \<Rightarrow> Some (Inl a) | Inr st' \<Rightarrow> closure_loop st')"
      using True by (subst closure_loop.simps) simp
    have inv: "close_inv e (rep_items kern) maxi ?c" using less.prems(2) by (simp add: close_inv_def)
    have srcs: "\<forall>src\<in>set ?srcs. src_ok e (rep_items kern) src ?c" by (simp add: src_ok_def)
    from close_all_effect [OF gram less.prems(1) inv srcs] show ?thesis
    proof
      assume "close_all ?srcs (?c, e') = fatal"
      then show ?thesis by (simp add: run fatal_def)
    next
      assume "\<exists>c' e''. close_all ?srcs (?c, e') = Inr (c', e'') \<and> items_only e e'' \<and>
        close_inv e (rep_items kern) maxi c' \<and> grew e ?c c' \<and> (\<forall>src\<in>set ?srcs. closed_by e (src_item src ?c) c')"
      then obtain c1 e1 where 1: "close_all ?srcs (?c, e') = Inr (c1, e1)" "items_only e e1"
        "close_inv e (rep_items kern) maxi c1" "grew e ?c c1" "\<forall>src\<in>set ?srcs. closed_by e (src_item src ?c) c1"
        by blast
      have next_round: "closure_loop (c, e') = closure_loop (c1, e1)" by (simp add: run 1(1))
      have its: "closed_by e it c1" if mem: "it \<in> set (closure_items c)" for it
      proof -
        obtain i where "i < length (closure_items c)" "it = closure_items c ! i"
          using mem by (auto simp: in_set_conv_nth)
        then show ?thesis using 1(5) by (force simp: the_item_def)
      qed
      have "closed_by e it ?c" if "it \<in> set kern" for it
        using less.prems(3) that by (simp add: closed_by_def)
      then have kern1: "\<forall>it\<in>set kern. closed_by e it c1" using closed_by_grows [OF _ 1(4)] by blast
      show ?thesis
      proof (cases "c1 = ?c")
        case same: True
        have "closure_of e (rep_items kern) (closure_items c1)"
          using closed_all [OF 1(3) kern1] its by (simp add: same)
        moreover have "closure_loop (c1, e1) = Some (Inr (closure_items c1, e1))"
          by (subst closure_loop.simps) (simp add: same)
        moreover have "int (length (closure_items c1)) \<le> maxi" using 1(3) by (simp add: close_inv_def)
        ultimately show ?thesis using 1(2) by (simp add: next_round)
      next
        case False
        then have "did c1" "pot e c1 < pot e c" using 1(4) by (auto simp: grew_def pot_def)
        then show ?thesis using less.hyps [of c1, OF _ 1(2,3) kern1] by (simp add: next_round)
      qed
    qed
  qed
qed

lemma closure_effect:
  assumes gram: "lr_gram e" "first_range e" and env: "items_only e e'"
    and kern: "\<forall>it\<in>set kern. item_ok e it" and maxi: "0 \<le> maxi"
  shows "closure kern maxi e' = Some fatal \<or>
    (\<exists>cl e''. closure kern maxi e' = Some (Inr (cl, e'')) \<and> items_only e e'' \<and>
       closure_of e (rep_items kern) cl \<and> int (length cl) \<le> maxi)"
proof -
  let ?c = "\<lparr>did = False, closure_items = [], maxitems = maxi\<rparr>"
  have inv: "close_inv e (rep_items kern) maxi ?c" using maxi by (simp add: close_inv_def)
  have srcs: "\<forall>src\<in>set (map Inl kern). src_ok e (rep_items kern) src ?c"
    using kern by (auto simp: src_ok_def rep_items_def)
  from close_all_effect [OF gram env inv srcs] show ?thesis
  proof
    assume "close_all (map Inl kern) (?c, e') = fatal"
    then show ?thesis by (simp add: closure_def fatal_def)
  next
    assume "\<exists>c' e''. close_all (map Inl kern) (?c, e') = Inr (c', e'') \<and> items_only e e'' \<and>
        close_inv e (rep_items kern) maxi c' \<and> grew e ?c c' \<and> (\<forall>src\<in>set (map Inl kern). closed_by e (src_item src ?c) c')"
    then obtain c1 e1 where 1: "close_all (map Inl kern) (?c, e') = Inr (c1, e1)" "items_only e e1"
      "close_inv e (rep_items kern) maxi c1" "grew e ?c c1"
      "\<forall>src\<in>set (map Inl kern). closed_by e (src_item src ?c) c1"
      by blast
    have "\<forall>it\<in>set kern. closed_by e it c1" using 1(5) by (simp add: the_item_def)
    moreover have "\<not> did c1 \<Longrightarrow> closure_items c1 = []" using 1(4) by (auto simp: grew_def)
    ultimately show ?thesis
      using closure_loop_effect [OF gram 1(2,3)] by (auto simp: closure_def 1(1))
  qed
qed

end
