(* ===== verification/LrTable.thy ===== *)
theory LrTable
  imports LrTree LrClosure
begin

text \<open>
  The table of states of \<open>src/compiler/parser/yystate.c\<close>: \<open>newstate\<close> finds the state with the
  same kernel, or makes one.
\<close>

section \<open>Differences of unsigned numbers\<close>

lemma diff_0_iff: "sint (of_nat n - of_nat m :: u32) = 0 \<longleftrightarrow> (of_nat n :: u32) = of_nat m"
  by (simp add: signed_eq_0_iff)

lemma small_eq: "n < 2 ^ 31 \<Longrightarrow> m < 2 ^ 31 \<Longrightarrow> (of_nat n :: u32) = of_nat m \<longleftrightarrow> n = m"
  by (simp add: word_of_nat_eq_iff take_bit_nat_eq_self)

lemma small_diff:
  assumes "n < 2 ^ 31" and "m < 2 ^ 31"
  shows "sint (of_nat n - of_nat m :: u32) = int n - int m"
proof -
  have word: "sint (word_of_int k :: u32) = signed_take_bit 31 k" for k by transfer simp
  have "(of_nat n - of_nat m :: u32) = word_of_int (int n - int m)" by simp
  then have "sint (of_nat n - of_nat m :: u32) = signed_take_bit 31 (int n - int m)"
    by (simp only: word)
  also have "\<dots> = int n - int m"
    using assms by (intro signed_take_bit_int_eq_self) auto
  finally show ?thesis .
qed

lemma key_cmp_agrees: "length ks = length ls \<Longrightarrow> key_cmp ks ls = 0 \<Longrightarrow> state_hash ks = state_hash ls"
  by (induction ks ls rule: key_cmp.induct) (auto simp: Let_def diff_0_iff split: if_splits)

lemma state_cmp_agrees: "hash_agrees state_hash state_cmp"
  unfolding hash_agrees_def state_cmp_def by (auto intro: key_cmp_agrees split: if_splits)

definition small_key :: "(nat \<times> nat) list \<Rightarrow> bool" where
  "small_key ks \<longleftrightarrow> (\<forall>(n, d)\<in>set ks. n < 2 ^ 31 \<and> d < 2 ^ 31)"

lemma key_cmp_eq: "length ks = length ls \<Longrightarrow> small_key ks \<Longrightarrow> small_key ls \<Longrightarrow> key_cmp ks ls = 0 \<longleftrightarrow> ks = ls"
  by (induction ks ls rule: key_cmp.induct) (auto simp: Let_def diff_0_iff small_eq small_key_def)

lemma state_cmp_eq: "small_key ks \<Longrightarrow> small_key ls \<Longrightarrow> state_cmp ks ls = 0 \<longleftrightarrow> ks = ls"
  using key_cmp_eq by (auto simp: state_cmp_def)

lemma item_symbol:
  assumes "lr_gram e" and "item_ok e it" and "right_of_dot it = Some x"
  shows "x \<in> set (syms e)"
proof -
  obtain y where y: "y \<in> set (syms e)" "prod it \<in> set (productions (symb e y))"
    using assms(2) by (auto simp: item_ok_def prods_def)
  have "x \<in> set (rhs (prod it))"
    using assms(2,3) by (auto simp: item_ok_def rhs_at_def split: if_splits)
  then show ?thesis using gram_rhs [OF _ y] assms(1) by (auto simp: lr_gram_def)
qed

lemma item_small:
  assumes "lr_gram e" and "item_ok e it"
  shows "prod_num it < 2 ^ 31" and "dot_posn it < 2 ^ 31"
proof -
  have p: "num (prod it) < MAXPROD" "length (rhs (prod it)) \<le> MAXRHS" "dot_posn it \<le> length (rhs (prod it))"
    using assms by (auto simp: lr_gram_def item_ok_def)
  then show "prod_num it < 2 ^ 31" "dot_posn it < 2 ^ 31" by (simp_all add: prod_num_def MAXPROD_def MAXRHS_def)
qed

lemma symbol_small: "lr_gram e \<Longrightarrow> item_ok e it \<Longrightarrow> RIGHT_OF_DOT e it < 2 ^ 31"
  using item_symbol [of e it] by (auto simp: RIGHT_OF_DOT_def lr_gram_def split: option.split)

lemma small_state_key: "lr_gram e \<Longrightarrow> \<forall>it\<in>set its. item_ok e it \<Longrightarrow> small_key (state_key its)"
  using item_small [of e] by (auto simp: small_key_def state_key_def)

text \<open>Kernels with the same key have the same items.\<close>

definition same_items :: "ITEM_S list \<Rightarrow> ITEM_S list \<Rightarrow> bool" where
  "same_items as bs \<longleftrightarrow> list_all2 (\<lambda>a b. prod a = prod b \<and> dot_posn a = dot_posn b) as bs"

lemma state_key_same:
  assumes "lr_gram e" and "\<forall>it\<in>set as. item_ok e it" and "\<forall>it\<in>set bs. item_ok e it"
    and "state_key as = state_key bs"
  shows "same_items as bs"
proof -
  have inj: "prod a = prod b" if "a \<in> set as" "b \<in> set bs" "num (prod a) = num (prod b)" for a b
    using that assms(1-3) by (auto simp: lr_gram_def item_ok_def dest: inj_onD)
  have len: "length as = length bs" using assms(4) by (metis state_key_def length_map)
  have "prod (as ! i) = prod (bs ! i) \<and> dot_posn (as ! i) = dot_posn (bs ! i)" if "i < length as" for i
  proof -
    have "state_key as ! i = state_key bs ! i" by (simp add: assms(4))
    then have "num (prod (as ! i)) = num (prod (bs ! i))" "dot_posn (as ! i) = dot_posn (bs ! i)"
      using that len by (simp_all add: state_key_def prod_num_def)
    with inj [of "as ! i" "bs ! i"] that len show ?thesis by simp
  qed
  with len show ?thesis by (auto simp: same_items_def list_all2_conv_all_nth)
qed

lemma same_items_core: "same_items as bs \<Longrightarrow> core (rep_items as) = core (rep_items bs)"
  unfolding same_items_def core_rep
  by (induction rule: list_all2_induct) auto

section \<open>The order of items\<close>

lemma item_cmp_eq:
  assumes "lr_gram e" and "item_ok e a" and "item_ok e b"
  shows "item_cmp e a b =
    (if RIGHT_OF_DOT e a \<noteq> RIGHT_OF_DOT e b then int (RIGHT_OF_DOT e a) - int (RIGHT_OF_DOT e b)
     else if prod_num a \<noteq> prod_num b then int (prod_num a) - int (prod_num b)
     else int (dot_posn a) - int (dot_posn b))"
  using item_small [OF assms(1,2)] item_small [OF assms(1,3)] symbol_small [OF assms(1,2)] symbol_small [OF assms(1,3)]
  by (simp add: item_cmp_def small_diff Let_def)

text \<open>Sorting looks at the elements of the list only.\<close>

lemma sift_cong:
  "i < length base \<Longrightarrow> \<forall>a\<in>set base. \<forall>b\<in>set base. cmp a b = cmp' a b \<Longrightarrow>
     sift cmp gap base i = sift cmp' gap base i"
proof (induction cmp gap base i rule: sift.induct)
  case (1 cmp gap base i)
  show ?case
  proof (cases "0 < gap \<and> gap \<le> i \<and> \<not> cmp (base ! (i - gap)) (base ! i) \<le> 0")
    case True
    let ?b = "base[i - gap := base ! i, i := base ! (i - gap)]"
    have "set ?b = set base" using 1(2) set_swap [of "i - gap" base i] True by simp
    then have "sift cmp gap ?b (i - gap) = sift cmp' gap ?b (i - gap)"
      using 1(1) True 1(2,3) by simp
    then show ?thesis using True 1(2,3) by (simp add: sift.simps [of _ gap base i])
  next
    case False
    then show ?thesis using 1(2,3) by (auto simp: sift.simps [of _ gap base i])
  qed
qed

lemma sift_set: "i < length base \<Longrightarrow> set (sift cmp gap base i) = set base \<and> length (sift cmp gap base i) = length base"
  using sift_mset [of i base cmp gap] by (metis mset_eq_setD size_mset)

lemma gap_pass_cong:
  assumes "nel \<le> length base" and "\<forall>a\<in>set base. \<forall>b\<in>set base. cmp a b = cmp' a b"
  shows "gap_pass cmp nel gap base = gap_pass cmp' nel gap base"
proof -
  have "foldl (sift cmp gap) base is = foldl (sift cmp' gap) base is"
    if "\<forall>i\<in>set is. i < length base" for "is"
    using that assms(2)
  proof (induction "is" arbitrary: base)
    case (Cons i "is")
    have "sift cmp gap base i = sift cmp' gap base i" using Cons.prems by (intro sift_cong) simp_all
    then show ?case using Cons sift_set [of i base cmp' gap] by simp
  qed simp
  then show ?thesis using assms(1) by (simp add: gap_pass_def)
qed

lemma gap_loop_cong:
  "nel \<le> length base \<Longrightarrow> \<forall>a\<in>set base. \<forall>b\<in>set base. cmp a b = cmp' a b \<Longrightarrow>
     gap_loop cmp nel gap base = gap_loop cmp' nel gap base"
proof (induction cmp nel gap base rule: gap_loop.induct)
  case (1 cmp nel gap base)
  have p: "gap_pass cmp nel gap base = gap_pass cmp' nel gap base" using 1(2,3) by (rule gap_pass_cong)
  have "mset (gap_pass cmp' nel gap base) = mset base" using gap_pass_perm [OF 1(2)] by blast
  then have "set (gap_pass cmp' nel gap base) = set base" "length (gap_pass cmp' nel gap base) = length base"
    by (metis mset_eq_setD) (metis \<open>mset (gap_pass cmp' nel gap base) = mset base\<close> size_mset)
  then show ?case using 1 by (simp add: gap_loop.simps [of _ nel gap base] p)
qed

lemma sys_ssort_cong:
  "nel \<le> length base \<Longrightarrow> \<forall>a\<in>set base. \<forall>b\<in>set base. cmp a b = cmp' a b \<Longrightarrow>
     sys_ssort cmp base nel = sys_ssort cmp' base nel"
  using gap_loop_cong by (auto simp: sys_ssort_def)

text \<open>The comparison on items for all items, as an order on three numbers.\<close>

definition key_diff :: "('a lr_env_scheme) \<Rightarrow> ITEM_S \<Rightarrow> ITEM_S \<Rightarrow> int" where
  "key_diff e a b =
     (if RIGHT_OF_DOT e a \<noteq> RIGHT_OF_DOT e b then int (RIGHT_OF_DOT e a) - int (RIGHT_OF_DOT e b)
      else if prod_num a \<noteq> prod_num b then int (prod_num a) - int (prod_num b)
      else int (dot_posn a) - int (dot_posn b))"

interpretation items: comparison "key_diff e" for e
  by unfold_locales (auto simp: key_diff_def split: if_splits)

lemma sorted_items:
  assumes "lr_gram e" and "\<forall>it\<in>set its. item_ok e it"
  shows "mset (sys_ssort (item_cmp e) its (length its)) = mset its \<and>
    sorted_wrt (\<lambda>a b. key_diff e a b \<le> 0) (sys_ssort (item_cmp e) its (length its))"
proof -
  have "sys_ssort (item_cmp e) its (length its) = sys_ssort (key_diff e) its (length its)"
    using assms by (intro sys_ssort_cong) (auto simp: item_cmp_eq key_diff_def)
  moreover have "length (sys_ssort (key_diff e) its (length its)) = length its"
    using items.ssort_correct [of "length its" its e] by (metis le_refl size_mset)
  ultimately show ?thesis using items.ssort_correct [of "length its" its e] by simp
qed

section \<open>The table\<close>

text \<open>The table holds every state under the key of its kernel.\<close>

definition table_ok :: "('a lr_env_scheme) \<Rightarrow> bool" where
  "table_ok e \<longleftrightarrow>
     (\<exists>as. tab_inv state_hash (states_hashtab e) as \<and> set as = {..<length (lr_states e)}) \<and>
     (\<forall>n<length (lr_states e). user (buck (states_hashtab e) n) = state_key (kernel_items (lr_states e ! n)))"

lemma hash_new_sym_simps [simp]:
  "table (hash_new_sym t a x) = table t" "max_size (hash_new_sym t a x) = max_size t"
  "curr_num (hash_new_sym t a x) = curr_num t" "HASH_TAB_S.heap (hash_new_sym t a x) a \<noteq> None"
  "user (buck (hash_new_sym t a x) b) = (if b = a then x else user (buck t b))"
  by (simp_all add: hash_new_sym_def buck_def)

lemma new_bucket_inv:
  assumes "tab_inv hash t as" and "a \<notin> set as"
  shows "tab_inv hash (hash_new_sym t a x) as"
proof -
  have slot: "in_slot hash (hash_new_sym t a x) i as = in_slot hash t i as" for i
    using assms(2) by (auto simp: in_slot_def slot_of_def intro!: filter_cong)
  have "chain (hash_new_sym t a x) l p (in_slot hash t i as) = chain t l p (in_slot hash t i as)" for l p i
    using assms(2) by (intro chain_cong) (auto simp: hash_new_sym_def in_slot_def)
  with slot assms(1) show ?thesis by (simp add: tab_inv_def)
qed

definition kernels_ok :: "('a lr_env_scheme) \<Rightarrow> bool" where
  "kernels_ok e \<longleftrightarrow> (\<forall>n<length (lr_states e). \<forall>it\<in>set (kernel_items (lr_states e ! n)). item_ok e it)"

lemma newstate_effect:
  assumes gram: "lr_gram e" and its: "\<forall>it\<in>set its. item_ok e it"
    and tab: "table_ok e" and kern: "kernels_ok e"
  obtains (full) "newstate its e = Some fatal"
    | (old) n where "n < length (lr_states e)"
        "newstate its e = Some (Inr (if closed (lr_states e ! n) then CLOSED else UNCLOSED, n, e))"
        "same_items (kernel_items (lr_states e ! n)) its"
    | (new) e' h where "newstate its e = Some (Inr (NEW, length (lr_states e), e'))"
        "e' = e\<lparr>lr_states := lr_states e @ [\<lparr>kernel_items = its, epsilon_items = [], closed = False\<rparr>],
                states_hashtab := h\<rparr>"
        "table_ok e'" "length (lr_states e) < MAXSTATE" "length its \<le> MAXKERNEL"
        "\<forall>m<length (lr_states e). state_key (kernel_items (lr_states e ! m)) \<noteq> state_key its"
proof (cases "MAXKERNEL < length its")
  case True
  then show thesis by (intro full) (simp add: newstate_def)
next
  case len: False
  let ?N = "length (lr_states e)" and ?t = "states_hashtab e"
  obtain as where as: "tab_inv state_hash ?t as" "set as = {..<?N}" using tab by (auto simp: table_ok_def)
  have user: "user (buck ?t n) = state_key (kernel_items (lr_states e ! n))" if "n < ?N" for n
    using tab that by (simp add: table_ok_def)
  have cmp: "state_cmp (state_key its) (user (buck ?t n)) = 0 \<longleftrightarrow>
      state_key its = state_key (kernel_items (lr_states e ! n))" if "n < ?N" for n
    using that kern small_state_key [OF gram] its by (simp add: user state_cmp_eq kernels_ok_def)
  have find: "hash_find_sym state_hash state_cmp ?t (state_key its) =
      Some (List.find (\<lambda>a. state_cmp (state_key its) (user (buck ?t a)) = 0) as)"
    using as(1) state_cmp_agrees by (rule hash_find_sym_list)
  show thesis
  proof (cases "List.find (\<lambda>a. state_cmp (state_key its) (user (buck ?t a)) = 0) as")
    case (Some n)
    then have n: "n < ?N" "state_key its = state_key (kernel_items (lr_states e ! n))"
      using cmp as(2) by (auto simp: find_Some_iff dest: nth_mem)
    have "same_items (kernel_items (lr_states e ! n)) its"
      using kern n its by (intro state_key_same [OF gram]) (simp_all add: kernels_ok_def)
    with n(1) show thesis using len by (intro old) (simp_all add: newstate_def find Some)
  next
    case None
    have fresh: "\<forall>m<?N. state_key (kernel_items (lr_states e ! m)) \<noteq> state_key its"
    proof (intro allI impI)
      fix m assume m: "m < ?N"
      then have "m \<in> set as" by (simp add: as(2))
      then have "state_cmp (state_key its) (user (buck ?t m)) \<noteq> 0"
        using None unfolding find_None_iff by blast
      then show "state_key (kernel_items (lr_states e ! m)) \<noteq> state_key its" using cmp [OF m] by auto
    qed
    show thesis
    proof (cases "MAXSTATE \<le> ?N")
      case True
      then show thesis using len by (intro full) (simp add: newstate_def find None)
    next
      case room: False
      let ?h = "hash_add_sym state_hash (hash_new_sym ?t ?N (state_key its)) ?N"
      let ?e = "e\<lparr>lr_states := lr_states e @ [\<lparr>kernel_items = its, epsilon_items = [], closed = False\<rparr>],
                 states_hashtab := ?h\<rparr>"
      have "?N \<notin> set as" by (simp add: as(2))
      then have "tab_inv state_hash ?h (?N # as)"
        using new_bucket_inv [OF as(1)] by (intro hash_add_sym_tab_inv) simp_all
      moreover have "set (?N # as) = {..<Suc ?N}" by (auto simp: as(2))
      ultimately have "\<exists>as. tab_inv state_hash (states_hashtab ?e) as \<and> set as = {..<length (lr_states ?e)}"
        by (intro exI [of _ "?N # as"]) simp
      then have "table_ok ?e" using user by (auto simp: table_ok_def nth_append less_Suc_eq add_keeps)
      then show thesis using len room fresh
        by (intro new [of ?e ?h]) (simp_all add: newstate_def find None Let_def)
    qed
  qed
qed

end
