(* ===== verification/LrItems.thy ===== *)
theory LrItems
  imports LrTable
begin

text \<open>
  The items of a state of \<open>src/compiler/parser/yystate.c\<close> that are moved on: the closure and
  the copies of the kernel, sorted and split into the items of empty productions and the
  others.
\<close>

section \<open>Positions\<close>

definition pd :: "ITEM_S \<Rightarrow> PRODUCTION_S \<times> nat" where
  "pd it = (prod it, dot_posn it)"

lemma core_rep_pd: "core (rep_items its) = set (map pd its)"
  by (simp add: core_rep pd_def [abs_def])

lemma same_items_pd: "same_items as bs \<longleftrightarrow> map pd as = map pd bs"
  by (auto simp: same_items_def pd_def list_all2_conv_all_nth list_eq_iff_nth_eq)

text \<open>The positions that closing adds, and the items of empty productions among them.\<close>

definition new_core :: "('a parser_env_scheme) \<Rightarrow> (PRODUCTION_S \<times> nat) set \<Rightarrow> (PRODUCTION_S \<times> nat) set" where
  "new_core e C = core (new_marks e (clos e (bare C)))"

lemma core_new_marks: "core (new_marks e S) = {(q, 0) |q. \<exists>p d. (p, d) \<in> core S \<and> closes e p d q}"
proof -
  have "\<exists>w. gives e p d u w" for p d u by (auto simp: gives_def intro: exI [of _ None])
  then show ?thesis by (fastforce simp: core_def new_marks_def)
qed

lemma core_new: "core (new_marks e (clos e K)) = new_core e (core K)"
  unfolding new_core_def core_new_marks core_clos [of e K] ..

definition eps_marks :: "('a parser_env_scheme) \<Rightarrow> mark set \<Rightarrow> mark set" where
  "eps_marks e K = {(p, d, u) \<in> new_marks e (clos e K). rhs p = []}"

definition eps_prods :: "('a parser_env_scheme) \<Rightarrow> (PRODUCTION_S \<times> nat) set \<Rightarrow> PRODUCTION_S set" where
  "eps_prods e C = {p. (p, 0) \<in> new_core e C \<and> rhs p = []}"

section \<open>Copies of the kernel\<close>

definition copies :: "('a parser_env_scheme) \<Rightarrow> ITEM_S list \<Rightarrow> ITEM_S list \<Rightarrow> bool" where
  "copies e as bs \<longleftrightarrow> list_all2 (\<lambda>a b. item_ok e b \<and> prod b = prod a \<and> dot_posn b = dot_posn a \<and>
     members (lookaheads b) = members (lookaheads a)) as bs"

lemma copies_same:
  assumes "copies e as bs"
  shows "\<forall>b\<in>set bs. item_ok e b" and "map pd bs = map pd as" and "rep_items bs = rep_items as"
proof -
  have "(\<forall>b\<in>set bs. item_ok e b) \<and> map pd bs = map pd as \<and> rep_items bs = rep_items as"
    using assms unfolding copies_def
    by (induction rule: list_all2_induct) (simp_all add: pd_def rep_item_def)
  then show "\<forall>b\<in>set bs. item_ok e b" "map pd bs = map pd as" "rep_items bs = rep_items as" by blast+
qed

lemma kclosure_effect:
  "items_only e e' \<Longrightarrow> \<forall>it\<in>set kern. item_ok e it \<Longrightarrow>
    kclosure kern its maxi e' = fatal \<or>
    (\<exists>ks e''. kclosure kern its maxi e' = Inr (its @ ks, e'') \<and> items_only e e'' \<and>
       copies e (filter (\<lambda>it. right_of_dot it \<noteq> None) kern) ks)"
proof (induction kern arbitrary: its maxi e')
  case (Cons it kern)
  have it: "item_ok e it" and kern: "\<forall>it\<in>set kern. item_ok e it" using Cons.prems(2) by simp_all
  show ?case
  proof (cases "right_of_dot it")
    case None
    then show ?thesis using Cons.IH [OF Cons.prems(1) kern, of its maxi] by simp
  next
    case (Some x)
    have rec: "recycled_ok e'" and p: "prod it \<in> prods e'"
      using Cons.prems(1) it by (simp_all add: items_only_def item_ok_def same_gram_basics [OF items_only_gram [OF Cons.prems(1)]])
    obtain nw e1 where new: "newitem (prod it) e' = (nw, e1)" "items_only e' e1" "item_ok e' nw" "prod nw = prod it"
      using newitem_effect [OF rec p] by metis
    let ?c = "nw\<lparr>dot_posn := dot_posn it, right_of_dot := right_of_dot it, lookaheads := set_dup (lookaheads it)\<rparr>"
    have c: "item_ok e ?c" "members (lookaheads ?c) = members (lookaheads it)"
      using it new(4) by (simp_all add: item_ok_def set_plain_def)
    have e1: "items_only e e1" using items_only_trans [OF Cons.prems(1) new(2)] .
    show ?thesis
    proof (cases "maxi - 1 < 0")
      case True
      then show ?thesis by (simp add: Some new(1))
    next
      case False
      have run: "kclosure (it # kern) its maxi e' = kclosure kern (its @ [?c]) (maxi - 1) e1"
        using False by (simp add: Some new(1))
      show ?thesis
        using Cons.IH [OF e1 kern, of "its @ [?c]" "maxi - 1"] c new(4) Some
        unfolding run by (auto simp: copies_def)
    qed
  qed
qed (simp add: copies_def)

section \<open>All items\<close>

text \<open>The items of a state with the kernel \<open>kern\<close>, in any order.\<close>

definition gathered :: "('a parser_env_scheme) \<Rightarrow> ITEM_S list \<Rightarrow> ITEM_S list \<Rightarrow> bool" where
  "gathered e kern its \<longleftrightarrow>
     (\<exists>cl ks. mset its = mset (cl @ ks) \<and> closure_of e (rep_items kern) cl \<and>
        copies e (filter (\<lambda>it. right_of_dot it \<noteq> None) kern) ks)"

definition empty_item :: "ITEM_S \<Rightarrow> bool" where
  "empty_item it \<longleftrightarrow> rhs (prod it) = []"

lemma gather_effect:
  assumes gram: "lr_gram e" "first_range e" and rec: "recycled_ok e" and kern: "\<forall>it\<in>set kern. item_ok e it"
  shows "bind_run (closure kern MAXCLOSE e) (\<lambda>(cl, e1).
      bind_run (Some (kclosure kern cl (MAXCLOSE - int (length cl)) e1)) F) = Some fatal \<or>
    (\<exists>its e2. bind_run (closure kern MAXCLOSE e) (\<lambda>(cl, e1).
      bind_run (Some (kclosure kern cl (MAXCLOSE - int (length cl)) e1)) F) = F (its, e2) \<and>
      items_only e e2 \<and> gathered e kern its)"
proof -
  have "0 \<le> MAXCLOSE" by (simp add: MAXCLOSE_def)
  from closure_effect [OF gram items_only_refl [OF rec] kern this] show ?thesis
  proof
    assume "closure kern MAXCLOSE e = Some fatal"
    then show ?thesis by (simp add: fatal_def)
  next
    assume "\<exists>cl e''. closure kern MAXCLOSE e = Some (Inr (cl, e'')) \<and> items_only e e'' \<and>
       closure_of e (rep_items kern) cl \<and> int (length cl) \<le> MAXCLOSE"
    then obtain cl e1 where 1: "closure kern MAXCLOSE e = Some (Inr (cl, e1))" "items_only e e1"
      "closure_of e (rep_items kern) cl" by blast
    from kclosure_effect [OF 1(2) kern, of cl "MAXCLOSE - int (length cl)"] show ?thesis
    proof
      assume "kclosure kern cl (MAXCLOSE - int (length cl)) e1 = fatal"
      then show ?thesis by (simp add: 1(1) fatal_def)
    next
      assume "\<exists>ks e''. kclosure kern cl (MAXCLOSE - int (length cl)) e1 = Inr (cl @ ks, e'') \<and> items_only e e'' \<and>
       copies e (filter (\<lambda>it. right_of_dot it \<noteq> None) kern) ks"
      then obtain ks e2 where "kclosure kern cl (MAXCLOSE - int (length cl)) e1 = Inr (cl @ ks, e2)"
        "items_only e e2" "copies e (filter (\<lambda>it. right_of_dot it \<noteq> None) kern) ks" by blast
      then show ?thesis using 1 by (intro disjI2 exI [of _ "cl @ ks"] exI [of _ e2]) (auto simp: gathered_def)
    qed
  qed
qed

lemma rep_items_mset: "mset as = mset bs \<Longrightarrow> rep_items as = rep_items bs"
  unfolding rep_items_def by (metis mset_eq_setD)

lemma go_filter: "go (rep_items its) x = go (rep_items (filter (\<lambda>it. rhs_at (prod it) (dot_posn it) = Some x) its)) x"
  by (auto simp: go_def rep_items_iff rep_item_iff)

lemma go_Un: "go (S \<union> T) x = go S x \<union> go T x"
  by (auto simp: go_def)

lemma gathered_ok:
  assumes "gathered e kern its" and kern: "\<forall>it\<in>set kern. item_ok e it"
  shows "\<forall>it\<in>set its. item_ok e it"
    and "\<forall>it\<in>set its. empty_item it \<longleftrightarrow> right_of_dot it = None"
    and "go (rep_items its) x = go (clos e (rep_items kern)) x"
    and "mset (map pd its) = mset_set (new_core e (set (map pd kern))) + mset (filter (\<lambda>(p, d). rhs_at p d \<noteq> None) (map pd kern))"
    and "rep_items (filter empty_item its) = eps_marks e (rep_items kern)"
    and "its \<noteq> [] \<longrightarrow> (\<exists>it\<in>set its. \<not> empty_item it)"
proof -
  obtain cl ks where m: "mset its = mset (cl @ ks)" and cl: "closure_of e (rep_items kern) cl"
    and ks: "copies e (filter (\<lambda>it. right_of_dot it \<noteq> None) kern) ks"
    using assms(1) by (auto simp: gathered_def)
  have S: "set its = set cl \<union> set ks" using m by (metis mset_eq_setD set_append)
  note k = copies_same [OF ks]
  have c: "\<forall>it\<in>set cl. item_ok e it \<and> dot_posn it = 0" "distinct (map prod cl)"
    "rep_items cl = new_marks e (clos e (rep_items kern))"
    using cl by (simp_all add: closure_of_def)
  show ok: "\<forall>it\<in>set its. item_ok e it" using S c(1) k(1) by auto
  have some: "rhs_at (prod b) (dot_posn b) \<noteq> None" if b: "b \<in> set ks" for b
  proof -
    have "pd b \<in> set (map pd (filter (\<lambda>it. right_of_dot it \<noteq> None) kern))"
      using b k(2) by (metis image_eqI list.set_map)
    then show ?thesis using kern by (auto simp: pd_def item_ok_def)
  qed
  have empty_cl: "empty_item it \<longleftrightarrow> rhs_at (prod it) (dot_posn it) = None" if "it \<in> set cl" for it
    using c(1) that by (auto simp: empty_item_def rhs_at_def)
  have not_ks: "\<not> empty_item it" if "it \<in> set ks" for it
    using some [OF that] by (auto simp: empty_item_def rhs_at_def split: if_splits)
  show E: "\<forall>it\<in>set its. empty_item it \<longleftrightarrow> right_of_dot it = None"
  proof
    fix it assume "it \<in> set its"
    then have "it \<in> set cl \<or> it \<in> set ks" by (simp add: S)
    moreover have "right_of_dot it = rhs_at (prod it) (dot_posn it)"
      using ok \<open>it \<in> set its\<close> by (simp add: item_ok_def)
    ultimately show "empty_item it \<longleftrightarrow> right_of_dot it = None"
      using empty_cl [of it] not_ks [of it] some [of it] by argo
  qed
  have R: "rep_items its = new_marks e (clos e (rep_items kern)) \<union> rep_items (filter (\<lambda>it. right_of_dot it \<noteq> None) kern)"
    using rep_items_mset [OF m] c(3) k(3) by simp
  have "go (rep_items (filter (\<lambda>it. right_of_dot it \<noteq> None) kern)) x = go (rep_items kern) x"
    using kern by (subst (1 2) go_filter) (auto simp: item_ok_def intro!: arg_cong [where f = "\<lambda>l. go (rep_items l) x"] filter_cong)
  then show "go (rep_items its) x = go (clos e (rep_items kern)) x"
    unfolding R go_Un by (subst (2) clos_unfold) (auto simp: go_Un)
  have "map pd cl = map (\<lambda>q. (q, 0)) (map prod cl)" using c(1) by (simp add: pd_def)
  then have dist: "distinct (map pd cl)" using c(2) by (simp add: distinct_map inj_on_def)
  have "set (map pd cl) = new_core e (set (map pd kern))"
    using core_rep_pd [of cl] core_new [of e "rep_items kern"] by (simp add: c(3) core_rep_pd)
  with dist have mcl: "mset (map pd cl) = mset_set (new_core e (set (map pd kern)))"
    by (metis mset_set_set)
  have "map pd (filter (\<lambda>it. right_of_dot it \<noteq> None) kern) = filter (\<lambda>(p, d). rhs_at p d \<noteq> None) (map pd kern)"
    using kern by (auto simp: filter_map o_def pd_def item_ok_def intro!: arg_cong [where f = "map pd"] filter_cong)
  then show "mset (map pd its) = mset_set (new_core e (set (map pd kern))) + mset (filter (\<lambda>(p, d). rhs_at p d \<noteq> None) (map pd kern))"
    using m mcl k(2) by (metis map_append mset_append mset_map)
  have "rep_items (filter empty_item its) = rep_items (filter empty_item cl)"
    using S not_ks by (auto simp: rep_items_def)
  also have "\<dots> = {(p, d, u) \<in> rep_items cl. rhs p = []}"
    by (auto simp: rep_items_iff rep_item_iff empty_item_def)
  finally show "rep_items (filter empty_item its) = eps_marks e (rep_items kern)"
    by (simp add: c(3) eps_marks_def)
  show "its \<noteq> [] \<longrightarrow> (\<exists>it\<in>set its. \<not> empty_item it)"
  proof (rule ccontr)
    assume "\<not> (its \<noteq> [] \<longrightarrow> (\<exists>it\<in>set its. \<not> empty_item it))"
    then have ne: "its \<noteq> []" and all: "\<forall>it\<in>set its. empty_item it" by auto
    then have "ks = []" using S not_ks by (cases ks) auto
    then have none: "\<forall>it\<in>set kern. rhs_at (prod it) (dot_posn it) = None"
      using ks kern by (auto simp: copies_def item_ok_def filter_empty_conv)
    then have "new_marks e (rep_items kern) = {}"
      by (auto simp: new_marks_def closes_def rep_items_iff rep_item_iff)
    then have "clos e (rep_items kern) \<subseteq> rep_items kern" by (intro clos_least) auto
    then have "new_marks e (clos e (rep_items kern)) \<subseteq> {}"
      using new_marks_mono \<open>new_marks e (rep_items kern) = {}\<close> by blast
    then have "rep_items cl = {}" by (simp add: c(3))
    then have "cl = []" by (cases cl) (auto simp: rep_item_def)
    with \<open>ks = []\<close> m ne show False by simp
  qed
qed

section \<open>Sorting and splitting\<close>

lemma takeWhile_filter:
  "sorted_wrt (\<lambda>a b. P b \<longrightarrow> P a) xs \<Longrightarrow>
     takeWhile P xs = filter P xs \<and> dropWhile P xs = filter (\<lambda>a. \<not> P a) xs"
proof (induction xs)
  case (Cons x xs)
  then show ?case by (cases "P x") (auto simp: filter_empty_conv filter_id_conv)
qed simp

definition sorted_items_of :: "('a lr_env_scheme) \<Rightarrow> ITEM_S list \<Rightarrow> ITEM_S list" where
  "sorted_items_of e its = sys_ssort (item_cmp e) its (length its)"

definition rest_of :: "ITEM_S list \<Rightarrow> ITEM_S list" where
  "rest_of its = filter (\<lambda>it. \<not> empty_item it) its"

lemma symbol_positive:
  assumes "lr_gram e" and "item_ok e it" and "right_of_dot it \<noteq> None"
  shows "0 < RIGHT_OF_DOT e it"
proof -
  obtain x where x: "right_of_dot it = Some x" using assms(3) by blast
  then have "kind_ok e x" using item_symbol [OF assms(1,2)] assms(1) by (auto simp: lr_gram_def gram_ok_def)
  then show ?thesis by (auto simp: RIGHT_OF_DOT_def x kind_ok_def kind_codes)
qed

lemma split_sorted:
  assumes gram: "lr_gram e" and ok: "\<forall>it\<in>set its. item_ok e it"
    and emp: "\<forall>it\<in>set its. empty_item it \<longleftrightarrow> right_of_dot it = None"
  shows "takeWhile empty_item (sorted_items_of e its) = filter empty_item (sorted_items_of e its)"
    and "dropWhile empty_item (sorted_items_of e its) = rest_of (sorted_items_of e its)"
    and "mset (sorted_items_of e its) = mset its"
    and "sorted_wrt (\<lambda>a b. key_diff e a b \<le> 0) (sorted_items_of e its)"
proof -
  let ?S = "sorted_items_of e its"
  have m: "mset ?S = mset its" and s: "sorted_wrt (\<lambda>a b. key_diff e a b \<le> 0) ?S"
    using sorted_items [OF gram ok] by (simp_all add: sorted_items_of_def)
  have S: "set ?S = set its" using m by (rule mset_eq_setD)
  have "sorted_wrt (\<lambda>a b. empty_item b \<longrightarrow> empty_item a) ?S"
  proof (rule sorted_wrt_mono_rel [OF _ s])
    fix a b assume "a \<in> set ?S" "b \<in> set ?S" and le: "key_diff e a b \<le> 0"
    then have a: "a \<in> set its" "b \<in> set its" by (simp_all add: S)
    show "empty_item b \<longrightarrow> empty_item a"
    proof
      assume "empty_item b"
      then have "RIGHT_OF_DOT e b = 0" using emp a(2) by (simp add: RIGHT_OF_DOT_def)
      with le have "RIGHT_OF_DOT e a = 0" by (simp add: key_diff_def split: if_splits)
      then show "empty_item a" using symbol_positive [OF gram, of a] ok emp a(1) by auto
    qed
  qed
  from takeWhile_filter [OF this]
  show "takeWhile empty_item ?S = filter empty_item ?S" "dropWhile empty_item ?S = rest_of ?S"
    by (simp_all add: rest_of_def)
  show "mset ?S = mset its" "sorted_wrt (\<lambda>a b. key_diff e a b \<le> 0) ?S" by (fact m, fact s)
qed

section \<open>The items of empty productions\<close>

lemma take_eps_effect:
  "\<exists>it\<in>set its. \<not> empty_item it \<Longrightarrow>
     take_eps its k = fatal \<or> take_eps its k = Inr (takeWhile empty_item its, dropWhile empty_item its)"
proof (induction its arbitrary: k)
  case (Cons it its)
  show ?case
  proof (cases "empty_item it")
    case True
    then have "\<exists>it\<in>set its. \<not> empty_item it" using Cons.prems by auto
    from Cons.IH [OF this, of "Suc k"] True show ?thesis by (auto simp: empty_item_def fatal_def)
  qed (simp add: empty_item_def)
qed simp

definition merge_item :: "ITEM_S \<Rightarrow> ITEM_S \<Rightarrow> ITEM_S" where
  "merge_item a b = a\<lparr>lookaheads := SET_UNION (lookaheads a) (lookaheads b)\<rparr>"

lemma merge_eps_map2: "length old = length new \<Longrightarrow> merge_eps old new = Inr (map2 merge_item old new)"
  by (induction old new rule: list_induct2) (simp_all add: merge_item_def)

lemma merge_item_ok:
  assumes "item_ok e a" and "item_ok e b" and "pd a = pd b"
  shows "item_ok e (merge_item a b)" and "pd (merge_item a b) = pd a"
    and "rep_item (merge_item a b) = rep_item a \<union> rep_item b" and "item_le a (merge_item a b)"
  using assms by (auto simp: item_ok_def merge_item_def pd_def rep_item_def item_le_def)

lemma map2_merge:
  assumes "map pd as = map pd bs" and "\<forall>it\<in>set as. item_ok e it" and "\<forall>it\<in>set bs. item_ok e it"
  shows "\<forall>it\<in>set (map2 merge_item as bs). item_ok e it" and "map pd (map2 merge_item as bs) = map pd as"
    and "rep_items (map2 merge_item as bs) = rep_items as \<union> rep_items bs"
proof -
  have "length as = length bs" using assms(1) by (rule map_eq_imp_length_eq)
  then have "(\<forall>it\<in>set (map2 merge_item as bs). item_ok e it) \<and> map pd (map2 merge_item as bs) = map pd as \<and>
      rep_items (map2 merge_item as bs) = rep_items as \<union> rep_items bs"
    using assms
  proof (induction as bs rule: list_induct2)
    case (Cons a as b bs)
    have "item_ok e a" "item_ok e b" "pd a = pd b" using Cons.prems by simp_all
    note m = merge_item_ok [OF this]
    show ?case using Cons.IH Cons.prems m by (simp add: Un_ac)
  qed simp
  then show "\<forall>it\<in>set (map2 merge_item as bs). item_ok e it" "map pd (map2 merge_item as bs) = map pd as"
    "rep_items (map2 merge_item as bs) = rep_items as \<union> rep_items bs" by blast+
qed

text \<open>The epsilon items of a state whose kernel has the positions \<open>kl\<close>.\<close>

definition eps_sorted :: "('a parser_env_scheme) \<Rightarrow> (PRODUCTION_S \<times> nat) list \<Rightarrow> ITEM_S list \<Rightarrow> bool" where
  "eps_sorted e kl eps \<longleftrightarrow>
     (\<forall>it\<in>set eps. item_ok e it \<and> dot_posn it = 0) \<and> sorted (map prod_num eps) \<and>
     mset (map prod eps) = mset_set (eps_prods e (set kl))"

lemma sorted_mset_eq: "sorted xs \<Longrightarrow> sorted ys \<Longrightarrow> mset xs = mset ys \<Longrightarrow> xs = ys"
  by (metis properties_for_sort)

lemma eps_sorted_unique:
  assumes "lr_gram e" and "eps_sorted e kl as" and "eps_sorted e kl bs"
  shows "map pd as = map pd bs"
proof -
  have sub: "prod ` set as \<union> prod ` set bs \<subseteq> prods e"
    using assms(2,3) by (auto simp: eps_sorted_def item_ok_def)
  have "mset (map prod as) = mset (map prod bs)" using assms(2,3) by (simp add: eps_sorted_def)
  then have "mset (map num (map prod as)) = mset (map num (map prod bs))" by (metis mset_map)
  then have nums: "map num (map prod as) = map num (map prod bs)"
    using assms(2,3) by (intro sorted_mset_eq) (simp_all add: eps_sorted_def prod_num_def [abs_def] o_def)
  have "inj_on num (set (map prod as) \<union> set (map prod bs))"
    using assms(1) sub inj_on_subset [of num "prods e"] by (simp add: lr_gram_def)
  then have "map prod as = map prod bs" by (rule map_inj_on [OF nums])
  moreover have "map dot_posn as = map dot_posn bs"
  proof -
    have "map dot_posn as = replicate (length as) 0" "map dot_posn bs = replicate (length bs) 0"
      using assms(2,3) by (auto simp: eps_sorted_def intro: map_replicate_const [THEN trans] nth_equalityI)
    moreover have "length as = length bs" using \<open>map prod as = map prod bs\<close> by (rule map_eq_imp_length_eq)
    ultimately show ?thesis by simp
  qed
  ultimately show ?thesis
    by (auto simp: pd_def list_eq_iff_nth_eq)
qed

lemma eps_sorted_pd:
  assumes "map pd as = map pd bs" and "\<forall>it\<in>set as. item_ok e it" and "eps_sorted e kl bs"
  shows "eps_sorted e kl as"
proof -
  have p: "map prod as = map prod bs" "map dot_posn as = map dot_posn bs"
    using arg_cong [OF assms(1), of "map fst"] arg_cong [OF assms(1), of "map snd"]
    by (simp_all add: pd_def o_def)
  have "dot_posn ` set as = dot_posn ` set bs" using arg_cong [OF p(2), of set] by simp
  then have "\<forall>it\<in>set as. dot_posn it = 0" using assms(3) by (force simp: eps_sorted_def)
  moreover have "map prod_num as = map prod_num bs"
    using arg_cong [OF p(1), of "map num"] by (simp add: prod_num_def [abs_def] o_def)
  ultimately show ?thesis using assms(2,3) p(1) unfolding eps_sorted_def by (metis mset_map)
qed

lemma eps_of_gathered:
  assumes gram: "lr_gram e" and g: "gathered e kern its" and kern: "\<forall>it\<in>set kern. item_ok e it"
  shows "eps_sorted e (map pd kern) (filter empty_item (sorted_items_of e its))"
    and "rep_items (filter empty_item (sorted_items_of e its)) = eps_marks e (rep_items kern)"
proof -
  let ?S = "sorted_items_of e its" and ?E = "filter empty_item (sorted_items_of e its)"
  note ok = gathered_ok [OF g kern]
  note sp = split_sorted [OF gram ok(1,2)]
  have m: "mset ?E = mset (filter empty_item its)" using sp(3) by simp
  show "rep_items ?E = eps_marks e (rep_items kern)" using rep_items_mset [OF m] ok(5) by simp
  have its: "\<forall>it\<in>set ?E. item_ok e it \<and> empty_item it"
    using ok(1) mset_eq_setD [OF sp(3)] by auto
  then have dot: "\<forall>it\<in>set ?E. item_ok e it \<and> dot_posn it = 0"
    by (auto simp: item_ok_def empty_item_def)
  have "sorted_wrt (\<lambda>a b. key_diff e a b \<le> 0) ?E" using sp(4) by (rule sorted_wrt_filter)
  moreover have "RIGHT_OF_DOT e it = 0" if "it \<in> set ?E" for it
    using its that by (auto simp: RIGHT_OF_DOT_def item_ok_def empty_item_def rhs_at_def)
  ultimately have "sorted_wrt (\<lambda>a b. prod_num a \<le> prod_num b) ?E"
    by (auto elim!: sorted_wrt_mono_rel [rotated] simp: key_diff_def split: if_splits)
  then have sorted: "sorted (map prod_num ?E)" by (simp add: sorted_wrt_map)
  let ?N = "new_core e (set (map pd kern))"
  obtain cl where cl: "closure_of e (rep_items kern) cl" using g by (auto simp: gathered_def)
  have "core (rep_items cl) = new_core e (core (rep_items kern))"
    using cl by (simp add: closure_of_def core_new)
  then have "?N = set (map pd cl)" by (simp only: core_rep_pd)
  then have fin: "finite ?N" by simp
  have zero: "snd m = 0" if "m \<in> ?N" for m using that by (auto simp: new_core_def core_new_marks)
  have "mset (map pd ?E) = filter_mset (\<lambda>(p, d). rhs p = []) (mset (map pd its))"
    unfolding mset_map m by (simp add: filter_mset_image_mset pd_def empty_item_def cong: filter_mset_cong)
  also have "\<dots> = filter_mset (\<lambda>(p, d). rhs p = []) (mset_set ?N)"
  proof -
    have "filter (\<lambda>(p, d). rhs p = []) (filter (\<lambda>(p, d). rhs_at p d \<noteq> None) (map pd kern)) = []"
      unfolding filter_empty_conv by (auto simp: rhs_at_def)
    then have "filter_mset (\<lambda>(p, d). rhs p = []) (mset (filter (\<lambda>(p, d). rhs_at p d \<noteq> None) (map pd kern))) = {#}"
      by (simp only: mset_filter [symmetric] mset.simps)
    then show ?thesis unfolding ok(4) filter_union_mset by (simp only: add_0_right)
  qed
  also have "\<dots> = mset_set {(p, d) \<in> ?N. rhs p = []}"
    unfolding filter_mset_mset_set [OF fin] by (rule arg_cong [where f = mset_set]) auto
  finally have "mset (map pd ?E) = mset_set {(p, d) \<in> ?N. rhs p = []}" .
  then have "mset (map fst (map pd ?E)) = image_mset fst (mset_set {(p, d) \<in> ?N. rhs p = []})"
    by (metis mset_map)
  also have "\<dots> = mset_set (fst ` {(p, d) \<in> ?N. rhs p = []})"
  proof (intro image_mset_mset_set inj_onI)
    fix m k assume "m \<in> {(p, d) \<in> ?N. rhs p = []}" "k \<in> {(p, d) \<in> ?N. rhs p = []}" "fst m = fst k"
    then have "m \<in> ?N" "k \<in> ?N" by auto
    then have "snd m = snd k" by (simp add: zero)
    with \<open>fst m = fst k\<close> show "m = k" by (rule prod_eqI)
  qed
  also have "fst ` {(p, d) \<in> ?N. rhs p = []} = eps_prods e (set (map pd kern))"
    using zero by (force simp: eps_prods_def)
  finally have "mset (map prod ?E) = mset_set (eps_prods e (set (map pd kern)))"
    by (simp add: pd_def o_def)
  with dot sorted show "eps_sorted e (map pd kern) ?E" by (simp add: eps_sorted_def)
qed

lemma move_eps_effect:
  assumes gram: "lr_gram e" and env: "same_gram e e'" and g: "gathered e kern its" and kern: "\<forall>it\<in>set kern. item_ok e it"
    and ne: "its \<noteq> []" and n: "n < length (lr_states e')"
    and old: "epsilon_items (lr_states e' ! n) = [] \<or> eps_sorted e (map pd kern) (epsilon_items (lr_states e' ! n))"
  shows "move_eps n (sorted_items_of e its) e' = fatal \<or>
    (\<exists>E. move_eps n (sorted_items_of e its) e' =
        Inr (rest_of (sorted_items_of e its),
          e'\<lparr>lr_states := (lr_states e')[n := (lr_states e' ! n)\<lparr>epsilon_items := E\<rparr>]\<rparr>) \<and>
      eps_sorted e (map pd kern) E \<and>
      rep_items E = rep_items (epsilon_items (lr_states e' ! n)) \<union> eps_marks e (rep_items kern))"
proof -
  let ?S = "sorted_items_of e its" and ?old = "epsilon_items (lr_states e' ! n)"
  let ?E = "filter empty_item ?S"
  note ok = gathered_ok [OF g kern]
  note sp = split_sorted [OF gram ok(1,2)]
  have "\<exists>it\<in>set ?S. \<not> empty_item it" using ok(6) ne mset_eq_setD [OF sp(3)] by auto
  from take_eps_effect [OF this, of 0] have take_eps: "take_eps ?S 0 = fatal \<or> take_eps ?S 0 = Inr (?E, rest_of ?S)"
    by (simp add: sp(1,2))
  note E = eps_of_gathered [OF gram g kern]
  show ?thesis
  proof (cases "take_eps ?S 0 = fatal")
    case True
    then show ?thesis by (simp add: move_eps_def Let_def fatal_def)
  next
    case False
    with take_eps have t: "take_eps ?S 0 = Inr (?E, rest_of ?S)" by blast
    show ?thesis
    proof (cases "?old = []")
      case True
      have "move_eps n ?S e' = Inr (rest_of ?S, e'\<lparr>lr_states := (lr_states e')[n := (lr_states e' ! n)\<lparr>epsilon_items := ?E\<rparr>]\<rparr>)"
      proof (cases "?E = []")
        case none: True
        have "(lr_states e' ! n)\<lparr>epsilon_items := []\<rparr> = lr_states e' ! n" using True by simp
        then show ?thesis using none by (simp add: move_eps_def Let_def t)
      qed (simp add: move_eps_def Let_def t True)
      then show ?thesis using E True by auto
    next
      case False
      then have old': "eps_sorted e (map pd kern) ?old" using old by blast
      have pds: "map pd ?old = map pd ?E" using eps_sorted_unique [OF gram old' E(1)] .
      then have len: "length ?old = length ?E" by (rule map_eq_imp_length_eq)
      have ne: "?E \<noteq> []" using False len by auto
      have oks: "\<forall>it\<in>set ?old. item_ok e it" "\<forall>it\<in>set ?E. item_ok e it"
        using old' E(1) by (simp_all add: eps_sorted_def)
      note mm = map2_merge [OF pds oks]
      have "move_eps n ?S e' = Inr (rest_of ?S,
          e'\<lparr>lr_states := (lr_states e')[n := (lr_states e' ! n)\<lparr>epsilon_items := map2 merge_item ?old ?E\<rparr>]\<rparr>)"
        using ne len by (simp add: move_eps_def Let_def t False merge_eps_map2)
      moreover have "eps_sorted e (map pd kern) (map2 merge_item ?old ?E)"
        using eps_sorted_pd [OF mm(2,1) old'] .
      ultimately show ?thesis using mm(3) E(2) by auto
    qed
  qed
qed

end
