(* ===== verification/LrMachine.thy ===== *)
theory LrMachine
  imports Lr LrItems
begin

text \<open>
  The invariant of the loop over the unfinished states in \<open>lr\<close> of
  \<open>src/compiler/parser/yystate.c\<close>, and what one transition does to it.
\<close>

section \<open>States and transitions\<close>

definition kern_of :: "('a lr_env_scheme) \<Rightarrow> nat \<Rightarrow> mark set" where
  "kern_of e n = rep_items (kernel_items (lr_states e ! n))"

text \<open>The positions in the kernel of a state, in their order.\<close>

definition key_of :: "('a lr_env_scheme) \<Rightarrow> nat \<Rightarrow> (PRODUCTION_S \<times> nat) list" where
  "key_of e n = map pd (kernel_items (lr_states e ! n))"

definition trans_on :: "('a lr_env_scheme) \<Rightarrow> nat \<Rightarrow> nat \<Rightarrow> int option" where
  "trans_on e n x =
     map_option do_this
       (if ISTERM e x then find_act (actions e n) (val (symb e x))
        else find_act (gotos e n) (ADJ_VAL (val (symb e x))))"

text \<open>The positions that a state with the kernel \<open>ks\<close> moves to on \<open>x\<close>, with repetitions.\<close>

definition next_key :: "('a parser_env_scheme) \<Rightarrow> (PRODUCTION_S \<times> nat) list \<Rightarrow> nat \<Rightarrow> (PRODUCTION_S \<times> nat) multiset" where
  "next_key g ks x =
     image_mset (\<lambda>(p, d). (p, Suc d))
       (filter_mset (\<lambda>(p, d). rhs_at p d = Some x) (mset_set (new_core g (set ks)) + mset ks))"

text \<open>The order of a kernel: one number for a production and a dot.\<close>

definition pd_code :: "PRODUCTION_S \<times> nat \<Rightarrow> nat" where
  "pd_code m = num (fst m) * 32 + snd m"

lemma core_kern: "core (kern_of e n) = set (key_of e n)"
  by (simp add: kern_of_def key_of_def core_rep_pd)

text \<open>What is known of a state whose closure has been made, and of one that is up to date.\<close>

definition st_core :: "('a lr_env_scheme) \<Rightarrow> ('a lr_env_scheme) \<Rightarrow> nat \<Rightarrow> bool" where
  "st_core g e n \<longleftrightarrow>
     eps_sorted g (key_of e n) (epsilon_items (lr_states e ! n)) \<and>
     (\<forall>x\<in>set (syms g).
        case trans_on e n x of
          None \<Rightarrow> next_key g (key_of e n) x = {#}
        | Some j \<Rightarrow> \<exists>m<length (lr_states e). j = int m \<and> mset (key_of e m) = next_key g (key_of e n) x)"

definition st_full :: "('a lr_env_scheme) \<Rightarrow> ('a lr_env_scheme) \<Rightarrow> nat \<Rightarrow> mark set \<Rightarrow> bool" where
  "st_full g e n K \<longleftrightarrow>
     (\<forall>x\<in>set (syms g). \<forall>m. trans_on e n x = Some (int m) \<longrightarrow> go (clos g K) x \<subseteq> kern_of e m) \<and>
     rep_items (epsilon_items (lr_states e ! n)) = eps_marks g K"

definition st_ok :: "('a lr_env_scheme) \<Rightarrow> ('a lr_env_scheme) \<Rightarrow> nat \<Rightarrow> bool" where
  "st_ok g e n \<longleftrightarrow>
     (if closed (lr_states e ! n) then st_core g e n
      else n \<in> pending_states e \<and> actions e n = [] \<and> gotos e n = [] \<and> epsilon_items (lr_states e ! n) = []) \<and>
     (n \<notin> pending_states e \<longrightarrow> st_full g e n (kern_of e n))"

text \<open>A single state: its kernel is sorted, and its lookaheads are lookaheads of the machine.\<close>

definition kern_ok :: "('a lr_env_scheme) \<Rightarrow> PRODUCTION_S \<Rightarrow> ITEM_S list \<Rightarrow> bool" where
  "kern_ok g s its \<longleftrightarrow>
     its \<noteq> [] \<and> length its \<le> MAXKERNEL \<and> (\<forall>it\<in>set its. item_ok g it) \<and> sorted (map pd_code (map pd its)) \<and>
     distinct (map pd its) \<and> (\<forall>m\<in>set (map pd its). snd m = 0 \<longrightarrow> fst m = s) \<and>
     rep_items its \<subseteq> marks_of g s (set (map pd its))"

definition term_nums :: "('a parser_env_scheme) \<Rightarrow> nat set" where
  "term_nums g = {val (symb g x) |x. x \<in> set (syms g) \<and> ISTERM g x}"

definition machine :: "('a lr_env_scheme) \<Rightarrow> PRODUCTION_S \<Rightarrow> ('a lr_env_scheme) \<Rightarrow> bool" where
  "machine g s e \<longleftrightarrow>
     same_gram g e \<and> tree_inv e \<and> recycled_ok e \<and> table_ok e \<and>
     length (lr_states e) \<le> MAXSTATE \<and> pending_states e \<subseteq> {..<length (lr_states e)} \<and>
     (\<forall>n<length (lr_states e). kern_ok g s (kernel_items (lr_states e ! n)) \<and>
        rep_items (epsilon_items (lr_states e ! n)) \<subseteq> eps_marks g (kern_of e n)) \<and>
     (\<forall>n\<ge>length (lr_states e). actions e n = [] \<and> gotos e n = []) \<and>
     (\<forall>n. \<forall>a\<in>set (actions e n). sym a \<in> term_nums g) \<and>
     (\<forall>j<length (lr_states e). \<forall>i<j. key_of e i \<noteq> key_of e j) \<and>
     0 < length (lr_states e) \<and> key_of e 0 = [(s, 0)] \<and> (s, 0, Some EOI) \<in> kern_of e 0"

section \<open>How the machine grows\<close>

definition cap :: "('a parser_env_scheme) \<Rightarrow> ITEM_S list \<Rightarrow> nat" where
  "cap g its = (\<Sum>it\<leftarrow>its. g_currterm g + 1 - card (members (lookaheads it)))"

definition machine_pot :: "('b parser_env_scheme) \<Rightarrow> ('a lr_env_scheme) \<Rightarrow> nat" where
  "machine_pot g e =
     (\<Sum>s\<leftarrow>lr_states e. cap g (kernel_items s)) +
     (MAXSTATE - length (lr_states e)) * (MAXKERNEL * (g_currterm g + 1) + 1)"

text \<open>From \<open>e\<close> to \<open>e'\<close>, while state \<open>n\<close> is being worked on.\<close>

definition grown :: "('a lr_env_scheme) \<Rightarrow> nat \<Rightarrow> ('a lr_env_scheme) \<Rightarrow> ('a lr_env_scheme) \<Rightarrow> bool" where
  "grown g n e e' \<longleftrightarrow>
     length (lr_states e) \<le> length (lr_states e') \<and> pending_states e \<subseteq> pending_states e' \<and>
     (\<forall>m<length (lr_states e).
        key_of e' m = key_of e m \<and> kern_of e m \<subseteq> kern_of e' m \<and>
        closed (lr_states e' ! m) = closed (lr_states e ! m) \<and>
        epsilon_items (lr_states e' ! m) = epsilon_items (lr_states e ! m) \<and>
        (m \<notin> pending_states e' \<longrightarrow> kern_of e' m = kern_of e m)) \<and>
     (\<forall>m<length (lr_states e'). length (lr_states e) \<le> m \<longrightarrow>
        m \<in> pending_states e' \<and> \<not> closed (lr_states e' ! m) \<and> epsilon_items (lr_states e' ! m) = []) \<and>
     (\<forall>m. m \<noteq> n \<longrightarrow> actions e' m = actions e m \<and> gotos e' m = gotos e m) \<and>
     machine_pot g e' \<le> machine_pot g e \<and>
     (pending_states e' = pending_states e \<or> machine_pot g e' < machine_pot g e)"

lemma grown_refl [simp]: "grown g n e e"
  by (simp add: grown_def)

lemma grown_le:
  assumes "grown g n e e'"
  shows "length (lr_states e) \<le> length (lr_states e')" and "pending_states e \<subseteq> pending_states e'"
    and "machine_pot g e' \<le> machine_pot g e"
    and "pending_states e' = pending_states e \<or> machine_pot g e' < machine_pot g e"
    and "m \<noteq> n \<Longrightarrow> actions e' m = actions e m" and "m \<noteq> n \<Longrightarrow> gotos e' m = gotos e m"
  using assms by (simp_all add: grown_def)

lemma grown_state:
  assumes "grown g n e e'" and "m < length (lr_states e)"
  shows "key_of e' m = key_of e m" and "kern_of e m \<subseteq> kern_of e' m"
    and "closed (lr_states e' ! m) = closed (lr_states e ! m)"
    and "epsilon_items (lr_states e' ! m) = epsilon_items (lr_states e ! m)"
    and "m \<notin> pending_states e' \<Longrightarrow> kern_of e' m = kern_of e m"
  using assms by (simp_all add: grown_def)

lemma grown_new:
  assumes "grown g n e e'" and "length (lr_states e) \<le> m" and "m < length (lr_states e')"
  shows "m \<in> pending_states e'" and "\<not> closed (lr_states e' ! m)" and "epsilon_items (lr_states e' ! m) = []"
  using assms by (simp_all add: grown_def)

lemma grown_trans:
  assumes 1: "grown g n e e1" and 2: "grown g n e1 e2"
  shows "grown g n e e2"
proof -
  have "m \<in> pending_states e2 \<and> \<not> closed (lr_states e2 ! m) \<and> epsilon_items (lr_states e2 ! m) = []"
    if "m < length (lr_states e2)" "length (lr_states e) \<le> m" for m
  proof (cases "m < length (lr_states e1)")
    case True
    then show ?thesis
      using grown_new [OF 1 that(2)] grown_state [OF 2 True] grown_le(2) [OF 2] by auto
  next
    case False
    then show ?thesis using grown_new [OF 2 _ that(1)] by simp
  qed
  moreover have "key_of e2 m = key_of e m \<and> kern_of e m \<subseteq> kern_of e2 m \<and>
        closed (lr_states e2 ! m) = closed (lr_states e ! m) \<and>
        epsilon_items (lr_states e2 ! m) = epsilon_items (lr_states e ! m) \<and>
        (m \<notin> pending_states e2 \<longrightarrow> kern_of e2 m = kern_of e m)" if m: "m < length (lr_states e)" for m
  proof -
    have m1: "m < length (lr_states e1)" using m grown_le(1) [OF 1] by simp
    have "m \<notin> pending_states e1" if "m \<notin> pending_states e2" using that grown_le(2) [OF 2] by blast
    then show ?thesis using grown_state [OF 1 m] grown_state [OF 2 m1] by auto
  qed
  moreover have "machine_pot g e2 \<le> machine_pot g e" "length (lr_states e) \<le> length (lr_states e2)"
    "pending_states e \<subseteq> pending_states e2"
    "pending_states e2 = pending_states e \<or> machine_pot g e2 < machine_pot g e"
    using grown_le(1-4) [OF 1] grown_le(1-4) [OF 2] by auto
  moreover have "\<forall>m. m \<noteq> n \<longrightarrow> actions e2 m = actions e m \<and> gotos e2 m = gotos e m"
    using grown_le(5,6) [OF 1] grown_le(5,6) [OF 2] by simp
  ultimately show ?thesis unfolding grown_def by blast
qed

lemma trans_on_other:
  "same_gram e e' \<Longrightarrow> actions e' m = actions e m \<Longrightarrow> gotos e' m = gotos e m \<Longrightarrow> trans_on e' m x = trans_on e m x"
  using same_gram_basics [of e e'] by (simp add: trans_on_def same_gram_def)

lemma st_core_grown:
  assumes "st_core g e m" and "length (lr_states e) \<le> length (lr_states e')"
    and "\<And>x. x \<in> set (syms g) \<Longrightarrow> trans_on e' m x = trans_on e m x"
    and "\<And>k. k < length (lr_states e) \<Longrightarrow> key_of e' k = key_of e k" and "m < length (lr_states e)"
    and "epsilon_items (lr_states e' ! m) = epsilon_items (lr_states e ! m)"
  shows "st_core g e' m"
  unfolding st_core_def
proof (intro conjI ballI)
  show "eps_sorted g (key_of e' m) (epsilon_items (lr_states e' ! m))"
    using assms by (simp add: st_core_def)
  fix x assume x: "x \<in> set (syms g)"
  have old: "case trans_on e m x of None \<Rightarrow> next_key g (key_of e m) x = {#}
      | Some j \<Rightarrow> \<exists>k<length (lr_states e). j = int k \<and> mset (key_of e k) = next_key g (key_of e m) x"
    using assms(1) x by (simp add: st_core_def)
  show "case trans_on e' m x of None \<Rightarrow> next_key g (key_of e' m) x = {#}
      | Some j \<Rightarrow> \<exists>k<length (lr_states e'). j = int k \<and> mset (key_of e' k) = next_key g (key_of e' m) x"
  proof (cases "trans_on e m x")
    case None
    then show ?thesis using old assms(3) [OF x] assms(4,5) by simp
  next
    case (Some j)
    then obtain k where "k < length (lr_states e)" "j = int k" "mset (key_of e k) = next_key g (key_of e m) x"
      using old by auto
    then show ?thesis using Some assms(2,5) assms(3) [OF x] assms(4) [of k] assms(4) [of m] by (auto intro!: exI [of _ k])
  qed
qed

lemma grown_st_ok:
  assumes gr: "grown g n e e'" and env: "same_gram e e'" and ok: "st_ok g e m" and m: "m < length (lr_states e)" "m \<noteq> n"
  shows "st_ok g e' m"
proof -
  have tr: "trans_on e' m x = trans_on e m x" for x
    using env grown_le(5,6) [OF gr m(2)] by (rule trans_on_other)
  have same: "closed (lr_states e' ! m) = closed (lr_states e ! m)"
    "epsilon_items (lr_states e' ! m) = epsilon_items (lr_states e ! m)"
    "pending_states e \<subseteq> pending_states e'" "length (lr_states e) \<le> length (lr_states e')"
    "actions e' m = actions e m" "gotos e' m = gotos e m"
    using grown_le(1,2) [OF gr] grown_le(5,6) [OF gr m(2)] grown_state [OF gr m(1)] by simp_all
  have keys: "key_of e' k = key_of e k" "kern_of e k \<subseteq> kern_of e' k" if "k < length (lr_states e)" for k
    using grown_state [OF gr that] by simp_all
  have "st_core g e' m" if "st_core g e m"
    using that same(4) tr keys(1) m(1) same(2) by (rule st_core_grown)
  moreover have "st_full g e' m (kern_of e' m)" if "m \<notin> pending_states e'"
  proof -
    have np: "m \<notin> pending_states e" and kern: "kern_of e' m = kern_of e m"
      using that same(3) grown_state(5) [OF gr m(1)] by auto
    have full: "st_full g e m (kern_of e m)" using ok np by (simp add: st_ok_def)
    have core: "st_core g e m" using ok np by (simp add: st_ok_def split: if_splits)
    have "go (clos g (kern_of e m)) x \<subseteq> kern_of e' k"
      if x: "x \<in> set (syms g)" and k: "trans_on e m x = Some (int k)" for x k
    proof -
      have "case trans_on e m x of None \<Rightarrow> next_key g (key_of e m) x = {#}
          | Some j \<Rightarrow> \<exists>k<length (lr_states e). j = int k \<and> mset (key_of e k) = next_key g (key_of e m) x"
        using core x by (simp add: st_core_def)
      then have "k < length (lr_states e)" using k by auto
      then show ?thesis using full x k keys(2) [of k] unfolding st_full_def by blast
    qed
    then show ?thesis using full by (simp add: st_full_def tr kern same(2))
  qed
  ultimately show ?thesis using ok same by (auto simp: st_ok_def split: if_splits)
qed

section \<open>Kernels\<close>

lemma pd_code_inj:
  assumes "lr_gram g" and "item_ok g a" and "item_ok g b" and "pd_code (pd a) = pd_code (pd b)"
  shows "pd a = pd b"
proof -
  have "length (rhs (prod it)) \<le> 31" "dot_posn it \<le> length (rhs (prod it))" if "item_ok g it" for it
    using that assms(1) by (auto simp: item_ok_def lr_gram_def MAXRHS_def)
  from this(1) [OF assms(2)] this(2) [OF assms(2)] this(1) [OF assms(3)] this(2) [OF assms(3)]
  have small: "dot_posn a < 32" "dot_posn b < 32" by linarith+
  have code: "num (prod a) * 32 + dot_posn a = num (prod b) * 32 + dot_posn b"
    using assms(4) by (simp add: pd_code_def pd_def)
  have "num (prod a) = (num (prod a) * 32 + dot_posn a) div 32" using small(1) by simp
  also have "\<dots> = num (prod b)" unfolding code using small(2) by simp
  finally have n: "num (prod a) = num (prod b)" .
  moreover have "prod a \<in> prods g" "prod b \<in> prods g" using assms(2,3) by (simp_all add: item_ok_def)
  ultimately have "prod a = prod b" using assms(1) by (auto simp: lr_gram_def dest: inj_onD)
  with code show ?thesis by (simp add: pd_def)
qed

lemma key_unique:
  assumes "lr_gram g" and "\<forall>it\<in>set as. item_ok g it" and "\<forall>it\<in>set bs. item_ok g it"
    and "sorted (map pd_code (map pd as))" and "sorted (map pd_code (map pd bs))"
    and "mset (map pd as) = mset (map pd bs)"
  shows "map pd as = map pd bs"
proof -
  have "mset (map pd_code (map pd as)) = mset (map pd_code (map pd bs))" using assms(6) by (metis mset_map)
  with assms(4,5) have codes: "map pd_code (map pd as) = map pd_code (map pd bs)" by (rule sorted_mset_eq)
  have "inj_on pd_code (set (map pd as) \<union> set (map pd bs))"
  proof (rule inj_onI)
    fix m k assume m: "m \<in> set (map pd as) \<union> set (map pd bs)" "k \<in> set (map pd as) \<union> set (map pd bs)"
      and code: "pd_code m = pd_code k"
    obtain a b where "a \<in> set as \<union> set bs" "b \<in> set as \<union> set bs" "m = pd a" "k = pd b" using m by auto
    with code pd_code_inj [OF assms(1), of a b] assms(2,3) show "m = k" by blast
  qed
  then show ?thesis by (rule map_inj_on [OF codes])
qed

lemma state_key_pd: "state_key its = map (\<lambda>m. (num (fst m), snd m)) (map pd its)"
  by (simp add: state_key_def pd_def prod_num_def)

lemma cap_bound: "cap g its \<le> length its * (g_currterm g + 1)"
  by (induction its) (auto simp: cap_def)

text \<open>Merging the lookaheads of a list of items into another one with the same positions.\<close>

lemma merge_effect:
  assumes "map pd dst = map pd src" and "\<forall>it\<in>set dst. item_ok g it" and "\<forall>it\<in>set src. item_ok g it"
  shows "\<exists>b ks. merge_lookaheads dst src = Inr (b, ks) \<and> map pd ks = map pd dst \<and> (\<forall>it\<in>set ks. item_ok g it) \<and>
    rep_items ks = rep_items dst \<union> rep_items src \<and> (if b then cap g ks < cap g dst else ks = dst)"
proof -
  have "length dst = length src" using assms(1) by (rule map_eq_imp_length_eq)
  then show ?thesis using assms
  proof (induction dst src rule: list_induct2)
    case Nil
    show ?case by (intro exI [of _ False] exI [of _ "[]"]) simp
  next
    case (Cons d ds s ss)
    have ok: "item_ok g d" "item_ok g s" "pd d = pd s" using Cons.prems by simp_all
    obtain b ks where IH: "merge_lookaheads ds ss = Inr (b, ks)" "map pd ks = map pd ds" "\<forall>it\<in>set ks. item_ok g it"
      "rep_items ks = rep_items ds \<union> rep_items ss" "if b then cap g ks < cap g ds else ks = ds"
      using Cons.IH Cons.prems by auto
    have le: "cap g ks \<le> cap g ds" using IH(5) by (simp split: if_splits)
    have mism: "num (prod d) = num (prod s)" "dot_posn d = dot_posn s" using ok(3) by (simp_all add: pd_def)
    show ?case
    proof (cases "members (lookaheads s) \<subseteq> members (lookaheads d)")
      case True
      have "rep_item s \<subseteq> rep_item d" using True ok(3) by (auto simp: rep_item_def pd_def)
      then have "rep_items (d # ks) = rep_items (d # ds) \<union> rep_items (s # ss)" using IH(4) by auto
      moreover have "merge_lookaheads (d # ds) (s # ss) = Inr (b, d # ks)"
        using True mism by (simp add: IH(1))
      ultimately show ?thesis using IH ok(1) by (intro exI [of _ b] exI [of _ "d # ks"]) (auto simp: cap_def)
    next
      case False
      note m = merge_item_ok [OF ok]
      have "merge_lookaheads (d # ds) (s # ss) = Inr (True, merge_item d s # ks)"
        using False mism by (simp add: IH(1) merge_item_def)
      moreover have "rep_items (merge_item d s # ks) = rep_items (d # ds) \<union> rep_items (s # ss)"
        by (simp add: IH(4) m(3) Un_ac)
      moreover have "cap g (merge_item d s # ks) < cap g (d # ds)"
      proof -
        have "members (lookaheads (merge_item d s)) = members (lookaheads d) \<union> members (lookaheads s)"
          using ok by (simp add: merge_item_def item_ok_def)
        then have "members (lookaheads d) \<subset> members (lookaheads (merge_item d s))" using False by auto
        moreover have "finite (members (lookaheads (merge_item d s)))"
          using m(1) finite_subset [of "members (lookaheads (merge_item d s))" "{..g_currterm g}"]
          by (auto simp: item_ok_def)
        ultimately have "card (members (lookaheads d)) < card (members (lookaheads (merge_item d s)))"
          by (rule psubset_card_mono [rotated])
        with card_tokens [OF m(1)] le show ?thesis by (simp add: cap_def)
      qed
      ultimately show ?thesis using IH m(1,2)
        by (intro exI [of _ True] exI [of _ "merge_item d s # ks"]) simp
    qed
  qed
qed

lemma fold_freeitem:
  "recycled_ok e \<Longrightarrow> \<forall>it\<in>set its. item_ok g it \<Longrightarrow> items_only e (fold freeitem its e)"
proof (induction its arbitrary: e)
  case (Cons it its)
  have "recycled_ok (freeitem it e)" using Cons.prems by (simp add: recycled_ok_def freeitem_def item_ok_def)
  moreover from this have "items_only e (freeitem it e)" by (auto intro: items_onlyI simp: freeitem_def)
  ultimately show ?case using Cons items_only_trans by auto
qed (simp add: items_only_refl)

section \<open>Steps that keep the invariant\<close>

lemma add_unfinished_frame:
  assumes "add_unfinished n e = Inr e'"
  obtains a u k where "e' = e\<lparr>available := a, unfinished := u, next_alloc_tnode := k\<rparr>"
proof -
  have "e' = e\<lparr>available := available e', unfinished := unfinished e', next_alloc_tnode := next_alloc_tnode e'\<rparr>"
    using assms by (auto simp: add_unfinished_def fatal_def split: if_splits)
  then show thesis by (rule that)
qed

lemmas machine_defs = machine_def kern_of_def key_of_def table_ok_def recycled_ok_def same_gram_def

lemma machine_unfinished:
  assumes "machine g s e" and "add_unfinished n e = Inr e'" and "n < length (lr_states e)"
  shows "machine g s e'"
proof -
  have t: "tree_inv e'" "pending_states e' = insert n (pending_states e)"
    using add_unfinished_ok [OF _ assms(2)] assms(1) by (simp_all add: machine_def)
  obtain a u k where "e' = e\<lparr>available := a, unfinished := u, next_alloc_tnode := k\<rparr>"
    using add_unfinished_frame [OF assms(2)] .
  then show ?thesis using assms(1,3) t by (simp add: machine_defs)
qed

lemma machine_items_only:
  assumes "machine g s e" and "items_only e e'"
  shows "machine g s e'"
proof -
  obtain k rs where "e' = e\<lparr>nitems := k, recycled_items := rs\<rparr>" "recycled_ok e'"
    using assms(2) by (auto simp: items_only_def)
  then show ?thesis using assms(1) by (simp add: machine_defs tree_inv_def pending_states_def)
qed

lemma machine_acts:
  assumes "machine g s e" and "n < length (lr_states e)"
  shows "y \<in> term_nums g \<Longrightarrow> machine g s (add_action n y j e)" and "machine g s (add_goto n y k e)"
  using assms by (auto simp add: add_action_def add_goto_def machine_defs tree_inv_def pending_states_def)

lemma eps_marks_mono: "K \<subseteq> L \<Longrightarrow> eps_marks g K \<subseteq> eps_marks g L"
  using new_marks_mono [OF clos_mono, of K L g g] by (auto simp: eps_marks_def)

end
