(* ===== verification/LrMove.thy ===== *)
theory LrMove
  imports LrMachine
begin

text \<open>
  One transition in \<open>lr\<close> of \<open>src/compiler/parser/yystate.c\<close>: the items that are moved over a
  symbol go into a new state or into an existing one, and the machine keeps its invariant.
\<close>

section \<open>New states and larger kernels\<close>

lemma state_key_cong: "map pd as = map pd bs \<Longrightarrow> state_key as = state_key bs"
  by (simp only: state_key_pd)

definition with_kernel :: "nat \<Rightarrow> ITEM_S list \<Rightarrow> ('a lr_env_scheme) \<Rightarrow> ('a lr_env_scheme)" where
  "with_kernel m ks e = e\<lparr>lr_states := (lr_states e)[m := (lr_states e ! m)\<lparr>kernel_items := ks\<rparr>]\<rparr>"

lemma with_kernel_simps [simp]:
  "length (lr_states (with_kernel m ks e)) = length (lr_states e)"
  "actions (with_kernel m ks e) = actions e" "gotos (with_kernel m ks e) = gotos e"
  "pending_states (with_kernel m ks e) = pending_states e"
  by (simp_all add: with_kernel_def pending_states_def)

lemma with_kernel_nth:
  assumes "m < length (lr_states e)"
  shows "kernel_items (lr_states (with_kernel m ks e) ! k) = (if k = m then ks else kernel_items (lr_states e ! k))"
    and "epsilon_items (lr_states (with_kernel m ks e) ! k) = epsilon_items (lr_states e ! k)"
    and "closed (lr_states (with_kernel m ks e) ! k) = closed (lr_states e ! k)"
  using assms by (auto simp: with_kernel_def nth_list_update)

lemma machine_merge:
  assumes mc: "machine g s e" and m: "m < length (lr_states e)" and ks: "kern_ok g s ks"
    and key: "map pd ks = key_of e m" and le: "kern_of e m \<subseteq> rep_items ks"
  shows "machine g s (with_kernel m ks e)"
proof -
  let ?e = "with_kernel m ks e"
  note nth = with_kernel_nth [OF m]
  have keys: "key_of ?e k = key_of e k" for k using key by (simp add: key_of_def nth)
  have kern: "kern_of e k \<subseteq> kern_of ?e k" for k using le by (auto simp: kern_of_def nth)
  have "state_key ks = state_key (kernel_items (lr_states e ! m))"
    using key by (simp add: state_key_pd key_of_def)
  moreover have "states_hashtab ?e = states_hashtab e" by (simp add: with_kernel_def)
  ultimately have tab: "table_ok ?e" using mc by (auto simp: table_ok_def machine_def nth)
  have each: "kern_ok g s (kernel_items (lr_states ?e ! k)) \<and>
      rep_items (epsilon_items (lr_states ?e ! k)) \<subseteq> eps_marks g (kern_of ?e k)" if "k < length (lr_states e)" for k
    using mc that ks eps_marks_mono [OF kern, of g k] unfolding machine_def nth by auto
  have "tree_inv ?e" "recycled_ok ?e" "same_gram g ?e"
    using mc by (simp_all add: machine_def with_kernel_def tree_inv_def recycled_ok_def same_gram_def)
  moreover have "(s, 0, Some EOI) \<in> kern_of ?e 0" using mc kern by (auto simp: machine_def)
  ultimately show ?thesis using mc tab each keys by (simp add: machine_def)
qed

definition with_state :: "ITEM_S list \<Rightarrow> (nat \<times> nat) list HASH_TAB_S \<Rightarrow> ('a lr_env_scheme) \<Rightarrow> ('a lr_env_scheme)" where
  "with_state its h e =
     e\<lparr>lr_states := lr_states e @ [\<lparr>kernel_items = its, epsilon_items = [], closed = False\<rparr>], states_hashtab := h\<rparr>"

lemma with_state_simps [simp]:
  "length (lr_states (with_state its h e)) = Suc (length (lr_states e))"
  "actions (with_state its h e) = actions e" "gotos (with_state its h e) = gotos e"
  "pending_states (with_state its h e) = pending_states e"
  by (simp_all add: with_state_def pending_states_def)

lemma with_state_nth:
  "k < length (lr_states e) \<Longrightarrow> lr_states (with_state its h e) ! k = lr_states e ! k"
  "lr_states (with_state its h e) ! length (lr_states e) = \<lparr>kernel_items = its, epsilon_items = [], closed = False\<rparr>"
  by (simp_all add: with_state_def nth_append)

lemma machine_new:
  assumes mc: "machine g s e" and its: "kern_ok g s its" and tab: "table_ok (with_state its h e)"
    and room: "length (lr_states e) < MAXSTATE"
    and fresh: "\<forall>m<length (lr_states e). state_key (kernel_items (lr_states e ! m)) \<noteq> state_key its"
  shows "machine g s (with_state its h e)"
proof -
  let ?e = "with_state its h e" and ?N = "length (lr_states e)"
  have old: "key_of ?e k = key_of e k" "kern_of ?e k = kern_of e k" if "k < ?N" for k
    using that by (simp_all add: key_of_def kern_of_def with_state_nth)
  have "key_of e k \<noteq> map pd its" if "k < ?N" for k
    using fresh that state_key_cong [of "kernel_items (lr_states e ! k)" its] by (auto simp: key_of_def)
  then have distinct: "\<forall>j<Suc ?N. \<forall>i<j. key_of ?e i \<noteq> key_of ?e j"
    using mc old by (auto simp: machine_def less_Suc_eq key_of_def with_state_nth)
  have each: "kern_ok g s (kernel_items (lr_states ?e ! k)) \<and>
      rep_items (epsilon_items (lr_states ?e ! k)) \<subseteq> eps_marks g (kern_of ?e k)" if "k < Suc ?N" for k
  proof (cases "k = ?N")
    case True
    then show ?thesis using its by (simp add: with_state_nth)
  next
    case False
    then show ?thesis using that mc by (simp add: with_state_nth old machine_def)
  qed
  have "tree_inv ?e" "recycled_ok ?e" "same_gram g ?e" "pending_states ?e \<subseteq> {..<Suc ?N}"
    using mc by (auto simp: machine_def with_state_def tree_inv_def recycled_ok_def same_gram_def pending_states_def)
  moreover have "0 < ?N" using mc by (simp add: machine_def)
  ultimately show ?thesis using mc tab room each distinct old [of 0] by (simp add: machine_def)
qed

section \<open>Entries of the action and goto chains\<close>

lemma trans_on_add:
  assumes gram: "lr_gram e" and x: "x \<in> set (syms e)" and y: "y \<in> set (syms e)"
  shows "trans_on (if ISTERM e x then add_action n (val (symb e x)) (int m) e else add_goto n (val (symb e x)) m e) k y =
    (if k = n \<and> y = x then Some (int m) else trans_on e k y)"
proof -
  have inj: "val (symb e y) = val (symb e x) \<longleftrightarrow> y = x"
    using gram x y by (auto simp: lr_gram_def dest: inj_onD)
  have big: "256 \<le> val (symb e z)" if "z \<in> set (syms e)" "\<not> ISTERM e z" for z
  proof -
    have "kind_ok e z" "g_currterm e \<le> MAXTERM" using gram that(1) by (auto simp: lr_gram_def gram_ok_def)
    with that(2) show ?thesis by (auto simp: kind_ok_def ISTERM_def kind_codes)
  qed
  have kinds: "ISTERM (add_action n v j e) = ISTERM e" "ISTERM (add_goto n v i e) = ISTERM e"
    "symb (add_action n v j e) = symb e" "symb (add_goto n v i e) = symb e" for v j i
    by (auto simp: add_action_def add_goto_def ISTERM_def fun_eq_iff)
  show ?thesis
  proof (cases "ISTERM e x")
    case True
    then show ?thesis using inj by (auto simp: trans_on_def kinds) (auto simp: add_action_def)
  next
    case False
    have "ADJ_VAL (val (symb e y)) = ADJ_VAL (val (symb e x)) \<longleftrightarrow> y = x" if "\<not> ISTERM e y"
      using big [OF x False] big [OF y that] inj by (auto simp: ADJ_VAL_def kind_codes)
    with False show ?thesis by (auto simp: trans_on_def kinds) (auto simp: add_goto_def)
  qed
qed

section \<open>A transition\<close>

text \<open>The items that are moved over \<open>x\<close> from state \<open>n\<close>.\<close>

definition group_for :: "('a lr_env_scheme) \<Rightarrow> PRODUCTION_S \<Rightarrow> (PRODUCTION_S \<times> nat) list \<Rightarrow> nat \<Rightarrow> ITEM_S list \<Rightarrow> bool" where
  "group_for g s key x its \<longleftrightarrow>
     x \<in> set (syms g) \<and> its \<noteq> [] \<and> (\<forall>it\<in>set its. item_ok g it) \<and> mset (map pd its) = next_key g key x \<and>
     sorted (map pd_code (map pd its)) \<and>
     distinct (map pd its) \<and> (\<forall>m\<in>set (map pd its). snd m = 0 \<longrightarrow> fst m = s) \<and>
     rep_items its \<subseteq> marks_of g s (set (map pd its))"

definition moved_to :: "('a lr_env_scheme) \<Rightarrow> nat \<Rightarrow> nat \<Rightarrow> mark set \<Rightarrow> ('a lr_env_scheme) \<Rightarrow> bool" where
  "moved_to g n x M e \<longleftrightarrow>
     (\<exists>m<length (lr_states e). trans_on e n x = Some (int m) \<and> mset (key_of e m) = next_key g (key_of e n) x \<and>
        M \<subseteq> kern_of e m)"

lemma sum_list_update_nat:
  fixes f :: "'b \<Rightarrow> nat"
  assumes "i < length xs"
  shows "sum_list (map f (xs[i := y])) + f (xs ! i) = sum_list (map f xs) + f y"
  using assms
proof (induction xs arbitrary: i)
  case (Cons x xs)
  then show ?case by (cases i) auto
qed simp

text \<open>The change of the machine when the state that is reached is found or made.\<close>

lemma grown_merge:
  assumes m: "m < length (lr_states e)" and key: "map pd ks = key_of e m" and le: "kern_of e m \<subseteq> rep_items ks"
    and less: "cap g ks < cap g (kernel_items (lr_states e ! m))"
    and e': "lr_states e' = lr_states (with_kernel m ks e)" "pending_states e' = insert m (pending_states e)"
      "\<And>k. k \<noteq> n \<Longrightarrow> actions e' k = actions e k" "\<And>k. k \<noteq> n \<Longrightarrow> gotos e' k = gotos e k"
  shows "grown g n e e'"
proof -
  note nth = with_kernel_nth [OF m]
  have "sum_list (map (\<lambda>s. cap g (kernel_items s)) (lr_states e')) + cap g (kernel_items (lr_states e ! m)) =
      sum_list (map (\<lambda>s. cap g (kernel_items s)) (lr_states e)) + cap g ks"
    using sum_list_update_nat [OF m, of "\<lambda>s. cap g (kernel_items s)"] by (simp add: e'(1) with_kernel_def)
  with less have "machine_pot g e' < machine_pot g e" by (simp add: machine_pot_def e'(1))
  moreover have "key_of e' k = key_of e k" "kern_of e k \<subseteq> kern_of e' k" for k
    using key le by (auto simp: key_of_def kern_of_def e'(1) nth)
  moreover have "kern_of e' k = kern_of e k" if "k \<noteq> m" for k
    using that by (simp add: kern_of_def e'(1) nth)
  ultimately show ?thesis using e' by (auto simp: grown_def nth less_imp_le)
qed

lemma grown_state_added:
  assumes len: "length its \<le> MAXKERNEL" and room: "length (lr_states e) < MAXSTATE"
    and e': "lr_states e' = lr_states (with_state its h e)" "pending_states e' = insert (length (lr_states e)) (pending_states e)"
      "\<And>k. k \<noteq> n \<Longrightarrow> actions e' k = actions e k" "\<And>k. k \<noteq> n \<Longrightarrow> gotos e' k = gotos e k"
  shows "grown g n e e'"
proof -
  let ?N = "length (lr_states e)" and ?T = "g_currterm g + 1"
  have "cap g its \<le> MAXKERNEL * ?T" using cap_bound [of g its] mult_le_mono1 [OF len, of ?T] by linarith
  moreover have "(MAXSTATE - ?N) * (MAXKERNEL * ?T + 1) = (MAXSTATE - Suc ?N) * (MAXKERNEL * ?T + 1) + (MAXKERNEL * ?T + 1)"
    using room by (metis Suc_diff_Suc mult_Suc add.commute)
  ultimately have "machine_pot g e' < machine_pot g e"
    by (simp add: machine_pot_def e'(1) with_state_def)
  moreover have "key_of e' k = key_of e k" "kern_of e' k = kern_of e k" if "k < ?N" for k
    using that by (simp_all add: key_of_def kern_of_def e'(1) with_state_nth)
  ultimately show ?thesis using e' by (auto simp: grown_def with_state_nth less_imp_le less_Suc_eq)
qed

lemma grown_same:
  assumes "lr_states e' = lr_states e" "pending_states e' = pending_states e"
      "\<And>k. k \<noteq> n \<Longrightarrow> actions e' k = actions e k" "\<And>k. k \<noteq> n \<Longrightarrow> gotos e' k = gotos e k"
  shows "grown g n e e'"
  using assms by (simp add: grown_def key_of_def kern_of_def machine_pot_def)

lemma kern_ok_group:
  "group_for g s key x its \<Longrightarrow> length its \<le> MAXKERNEL \<Longrightarrow> kern_ok g s its"
  by (simp add: group_for_def kern_ok_def)

lemma machine_frame:
  assumes "machine g s e"
  shows "same_gram g e" and "tree_inv e" and "recycled_ok e" and "table_ok e"
    and "n < length (lr_states e) \<Longrightarrow> kern_ok g s (kernel_items (lr_states e ! n))"
  using assms by (simp_all add: machine_def)

text \<open>The entry in the chain of \<open>n\<close>, which is made before the state is made known.\<close>

definition put_trans :: "nat \<Rightarrow> nat \<Rightarrow> nat \<Rightarrow> ('a lr_env_scheme) \<Rightarrow> ('a lr_env_scheme)" where
  "put_trans n x m e =
     (if ISTERM e x then add_action n (val (symb e x)) (int m) e else add_goto n (val (symb e x)) m e)"

lemma put_trans_simps [simp]:
  "lr_states (put_trans n x m e) = lr_states e" "pending_states (put_trans n x m e) = pending_states e"
  "k \<noteq> n \<Longrightarrow> actions (put_trans n x m e) k = actions e k" "k \<noteq> n \<Longrightarrow> gotos (put_trans n x m e) k = gotos e k"
  by (simp_all add: put_trans_def add_action_def add_goto_def pending_states_def)

lemma lr_move_put:
  "lr_move n x its e =
     bind_run (newstate its e) (\<lambda>(isnew, next, e1).
       let e2 = (if \<not> closed (lr_states e1 ! n) then put_trans n x next e1 else e1)
       in if isnew = NEW then Some (add_unfinished next e2)
          else Some (bind_res (merge_lookaheads (kernel_items (lr_states e2 ! next)) its) (\<lambda>(b, ks).
            bind_res (if b then add_unfinished next (with_kernel next ks e2) else Inr (with_kernel next ks e2))
              (\<lambda>e4. Inr (fold freeitem its e4)))))"
  by (simp add: lr_move_def put_trans_def with_kernel_def Let_def cong: if_cong)

lemma machine_put_trans:
  assumes "machine g s e" and "n < length (lr_states e)" and "x \<in> set (syms g)"
  shows "machine g s (put_trans n x m e)"
proof -
  have g: "same_gram g e" using assms(1) by (simp add: machine_def)
  then have "symb e = symb g" by (simp add: same_gram_def)
  then have "val (symb e x) \<in> term_nums g" if "ISTERM e x"
    using that assms(3) same_gram_basics(1) [OF g] by (auto simp: term_nums_def)
  then show ?thesis using machine_acts [OF assms(1,2)] by (simp add: put_trans_def)
qed

lemma trans_on_put:
  assumes "lr_gram g" and "same_gram g e" and "x \<in> set (syms g)" and "y \<in> set (syms g)"
  shows "trans_on (put_trans n x m e) k y = (if k = n \<and> y = x then Some (int m) else trans_on e k y)"
  unfolding put_trans_def
  using assms by (intro trans_on_add) (simp_all add: same_gram_ok same_gram_basics)

lemma trans_on_cong:
  assumes "same_gram g e" and "same_gram g e'" and "actions e' k = actions e k" and "gotos e' k = gotos e k"
  shows "trans_on e' k y = trans_on e k y"
  using assms by (intro trans_on_other) (simp_all add: same_gram_def)

lemma lr_move_effect:
  assumes gram: "lr_gram g" and mc: "machine g s e" and n: "n < length (lr_states e)"
    and grp: "group_for g s (key_of e n) x its"
    and tr: "if closed (lr_states e ! n)
      then \<exists>m<length (lr_states e). trans_on e n x = Some (int m) \<and> mset (key_of e m) = next_key g (key_of e n) x
      else True"
  shows "lr_move n x its e = Some fatal \<or>
    (\<exists>e'. lr_move n x its e = Some (Inr e') \<and> machine g s e' \<and> grown g n e e' \<and>
       moved_to g n x (rep_items its) e' \<and>
       (\<forall>y\<in>set (syms g). y \<noteq> x \<longrightarrow> trans_on e' n y = trans_on e n y))"
proof -
  note fr = machine_frame [OF mc]
  note items = same_gram_items [OF fr(1)]
  have x: "x \<in> set (syms g)" and its: "\<forall>it\<in>set its. item_ok g it" using grp by (simp_all add: group_for_def)
  have kernels: "kernels_ok e" using fr(5) by (simp add: kernels_ok_def kern_ok_def items)
  have gram': "lr_gram e" using gram fr(1) by (simp add: same_gram_ok)
  have its': "\<forall>it\<in>set its. item_ok e it" using its by (simp add: items)
  from gram' its' fr(4) kernels show ?thesis
  proof (cases rule: newstate_effect)
    case full
    then show ?thesis by (simp add: lr_move_def fatal_def)
  next
    case (old m)
    let ?e2 = "if \<not> closed (lr_states e ! n) then put_trans n x m e else e"
    have e2: "lr_states ?e2 = lr_states e" "pending_states ?e2 = pending_states e" "machine g s ?e2"
      "k \<noteq> n \<Longrightarrow> actions ?e2 k = actions e k" "k \<noteq> n \<Longrightarrow> gotos ?e2 k = gotos e k" for k
      using mc machine_put_trans [OF mc n x] by simp_all
    have pds: "map pd (kernel_items (lr_states e ! m)) = map pd its" using old(3) by (simp add: same_items_pd)
    have Km: "kern_ok g s (kernel_items (lr_states e ! m))" using fr(5) [OF old(1)] .
    then obtain b ks where merge: "merge_lookaheads (kernel_items (lr_states e ! m)) its = Inr (b, ks)"
      "map pd ks = map pd (kernel_items (lr_states e ! m))" "\<forall>it\<in>set ks. item_ok g it"
      "rep_items ks = kern_of e m \<union> rep_items its"
      "if b then cap g ks < cap g (kernel_items (lr_states e ! m)) else ks = kernel_items (lr_states e ! m)"
      using merge_effect [OF pds, of g] its unfolding kern_ok_def kern_of_def by blast
    let ?e3 = "with_kernel m ks ?e2"
    have run: "lr_move n x its e = Some (bind_res (if b then add_unfinished m ?e3 else Inr ?e3) (\<lambda>e4. Inr (fold freeitem its e4)))"
      by (simp add: lr_move_put old(2) Let_def e2(1) merge(1))
    have "ks \<noteq> []" "length ks = length (kernel_items (lr_states e ! m))"
      using Km map_eq_imp_length_eq [OF merge(2)] by (auto simp: kern_ok_def)
    moreover have "set (map pd its) = set (map pd ks)" using merge(2) pds by simp
    ultimately have ks: "kern_ok g s ks"
      using Km grp merge(2,3,4) by (auto simp: kern_ok_def group_for_def kern_of_def)
    have mc3: "machine g s ?e3"
      using e2(3) ks merge(2,4) by (intro machine_merge) (simp_all add: e2(1) old(1) key_of_def kern_of_def)
    have key_m: "key_of e m = map pd its" using pds by (simp add: key_of_def)
    have tr2: "trans_on ?e2 n x = Some (int m)"
    proof (cases "closed (lr_states e ! n)")
      case True
      then obtain m0 where m0: "m0 < length (lr_states e)" "trans_on e n x = Some (int m0)"
        "mset (key_of e m0) = next_key g (key_of e n) x" using tr by auto
      have "key_of e m0 = key_of e m"
        unfolding key_of_def
        using fr(5) [OF m0(1)] Km m0(3) grp key_m
        by (intro key_unique [OF gram]) (simp_all add: kern_ok_def group_for_def key_of_def)
      moreover have "i = j" if "i < length (lr_states e)" "j < length (lr_states e)" "key_of e i = key_of e j" for i j
        using mc that by (metis (no_types, lifting) machine_def nat_neq_iff)
      ultimately have "m0 = m" using m0(1) old(1) by blast
      with m0(2) True show ?thesis by simp
    qed (simp add: trans_on_put [OF gram fr(1) x x])
    have tr2': "trans_on ?e2 n y = trans_on e n y" if "y \<in> set (syms g)" "y \<noteq> x" for y
      using that by (simp add: trans_on_put [OF gram fr(1) x])
    have result: "machine g s (fold freeitem its e4) \<and> grown g n e (fold freeitem its e4) \<and>
       moved_to g n x (rep_items its) (fold freeitem its e4) \<and>
       (\<forall>y\<in>set (syms g). y \<noteq> x \<longrightarrow> trans_on (fold freeitem its e4) n y = trans_on e n y)"
      if mc4: "machine g s e4" and st: "lr_states e4 = lr_states ?e3"
        and pend: "pending_states e4 = (if b then insert m (pending_states e) else pending_states e)"
        and ch: "actions e4 = actions ?e2" "gotos e4 = gotos ?e2" for e4
    proof -
      let ?e5 = "fold freeitem its e4"
      have io: "items_only e4 ?e5" using fold_freeitem [OF machine_frame(3) [OF mc4] its] .
      then obtain k rs where "?e5 = e4\<lparr>nitems := k, recycled_items := rs\<rparr>" by (auto simp: items_only_def)
      then have e5: "lr_states ?e5 = lr_states ?e3" "actions ?e5 = actions ?e2" "gotos ?e5 = gotos ?e2"
        "pending_states ?e5 = (if b then insert m (pending_states e) else pending_states e)"
        using st ch pend by (simp_all add: pending_states_def)
      have mc5: "machine g s ?e5" using machine_items_only [OF mc4 io] .
      have st3: "lr_states ?e3 = lr_states (with_kernel m ks e)" by (simp add: with_kernel_def e2(1))
      have gr: "grown g n e ?e5"
      proof (cases b)
        case True
        then show ?thesis using merge(2,4,5) e5 e2(4,5) old(1)
          by (intro grown_merge [of m e ks]) (simp_all add: st3 key_of_def)
      next
        case False
        then have "lr_states (with_kernel m ks e) = lr_states e" using merge(5) by (simp add: with_kernel_def)
        then show ?thesis using e5 e2(4,5) False by (intro grown_same) (simp_all add: st3)
      qed
      have tr5: "trans_on ?e5 n y = trans_on ?e2 n y" for y
        using machine_frame(1) [OF mc5] machine_frame(1) [OF e2(3)] e5(2,3) by (intro trans_on_cong [of g]) simp_all
      have "m < length (lr_states ?e5)" using old(1) by (simp add: e5(1) st3)
      moreover have "key_of ?e5 m = map pd its" "rep_items its \<subseteq> kern_of ?e5 m"
        using merge(2,4) pds by (simp_all add: key_of_def kern_of_def e5(1) st3 with_kernel_nth [OF old(1)])
      moreover have "key_of ?e5 n = key_of e n" using grown_state(1) [OF gr n] .
      moreover have "mset (map pd its) = next_key g (key_of e n) x" using grp by (simp add: group_for_def)
      ultimately have "moved_to g n x (rep_items its) ?e5"
        unfolding moved_to_def using tr5 [of x] tr2 by (intro exI [of _ m]) simp
      with mc5 gr tr5 tr2' show ?thesis by simp
    qed
    show ?thesis
    proof (cases b)
      case True
      show ?thesis
      proof (cases "add_unfinished m ?e3")
        case (Inl a)
        then have "add_unfinished m ?e3 = fatal"
          using wl.add_fails [OF machine_frame(2) [OF mc3] Inl] by (simp add: fatal_def)
        then show ?thesis using True by (simp add: run fatal_def)
      next
        case (Inr e4)
        have "m < length (lr_states ?e3)" using old(1) by (simp add: e2(1))
        then have mc4: "machine g s e4" using machine_unfinished [OF mc3 Inr] by blast
        obtain a u k where "e4 = ?e3\<lparr>available := a, unfinished := u, next_alloc_tnode := k\<rparr>"
          using add_unfinished_frame [OF Inr] .
        then have "lr_states e4 = lr_states ?e3" "actions e4 = actions ?e2" "gotos e4 = gotos ?e2" by simp_all
        moreover have "pending_states e4 = insert m (pending_states e)"
          using wl.add_ok [OF machine_frame(2) [OF mc3] Inr] by (simp add: e2(2))
        ultimately have "machine g s (fold freeitem its e4) \<and> grown g n e (fold freeitem its e4) \<and>
            moved_to g n x (rep_items its) (fold freeitem its e4) \<and>
            (\<forall>y\<in>set (syms g). y \<noteq> x \<longrightarrow> trans_on (fold freeitem its e4) n y = trans_on e n y)"
          using True by (intro result mc4) simp_all
        then show ?thesis using True Inr by (simp add: run)
      qed
    next
      case False
      have "machine g s (fold freeitem its ?e3) \<and> grown g n e (fold freeitem its ?e3) \<and>
            moved_to g n x (rep_items its) (fold freeitem its ?e3) \<and>
            (\<forall>y\<in>set (syms g). y \<noteq> x \<longrightarrow> trans_on (fold freeitem its ?e3) n y = trans_on e n y)"
        using False by (intro result mc3) (simp_all add: e2(2))
      then show ?thesis using False by (simp add: run)
    qed
  next
    case (new e1 h)
    let ?N = "length (lr_states e)"
    let ?e2 = "if \<not> closed (lr_states e ! n) then put_trans n x ?N e1 else e1"
    have e1: "e1 = with_state its h e" using new(2) by (simp add: with_state_def)
    have tab: "table_ok (with_state its h e)" using new(3) by (simp add: e1)
    have mc1: "machine g s e1"
      unfolding e1 using machine_new [OF mc kern_ok_group [OF grp new(5)] tab new(4,6)] .
    have n1: "n < length (lr_states e1)" using n by (simp add: e1)
    have open_n: "\<not> closed (lr_states e ! n)"
    proof
      assume "closed (lr_states e ! n)"
      then obtain m0 where m0: "m0 < ?N" "mset (key_of e m0) = next_key g (key_of e n) x" using tr by auto
      have "map pd (kernel_items (lr_states e ! m0)) = map pd its"
        using fr(5) [OF m0(1)] m0(2) grp
        by (intro key_unique [OF gram]) (simp_all add: kern_ok_def group_for_def key_of_def)
      then show False using new(6) m0(1) state_key_cong by blast
    qed
    have mc2: "machine g s (put_trans n x ?N e1)" using machine_put_trans [OF mc1 n1 x] .
    have "closed (lr_states e1 ! n) = closed (lr_states e ! n)" using n by (simp add: e1 with_state_nth)
    then have run: "lr_move n x its e = Some (add_unfinished ?N (put_trans n x ?N e1))"
      using open_n by (simp add: lr_move_put new(1) Let_def)
    show ?thesis
    proof (cases "add_unfinished ?N (put_trans n x ?N e1)")
      case (Inl a)
      then show ?thesis using wl.add_fails [OF machine_frame(2) [OF mc2] Inl] by (simp add: run fatal_def)
    next
      case (Inr e3)
      have mc3: "machine g s e3" using machine_unfinished [OF mc2 Inr] by (simp add: e1)
      obtain a u k where "e3 = (put_trans n x ?N e1)\<lparr>available := a, unfinished := u, next_alloc_tnode := k\<rparr>"
        using add_unfinished_frame [OF Inr] .
      then have e3: "lr_states e3 = lr_states (with_state its h e)" "actions e3 = actions (put_trans n x ?N e1)"
        "gotos e3 = gotos (put_trans n x ?N e1)" by (simp_all add: e1)
      have pend: "pending_states e3 = insert ?N (pending_states e)"
        using wl.add_ok [OF machine_frame(2) [OF mc2] Inr] by (simp add: e1)
      have gr: "grown g n e e3"
        using new(4,5) e3 pend by (intro grown_state_added [of its]) (simp_all add: e1)
      have tr3: "trans_on e3 n y = (if y = x then Some (int ?N) else trans_on e n y)" if "y \<in> set (syms g)" for y
      proof -
        have "trans_on e3 n y = trans_on (put_trans n x ?N e1) n y"
          using machine_frame(1) [OF mc3] machine_frame(1) [OF mc2] e3(2,3) by (intro trans_on_cong [of g]) simp_all
        also have "\<dots> = (if y = x then Some (int ?N) else trans_on e1 n y)"
          by (simp add: trans_on_put [OF gram machine_frame(1) [OF mc1] x that])
        also have "trans_on e1 n y = trans_on e n y"
          using machine_frame(1) [OF mc1] fr(1) by (intro trans_on_cong [of g]) (simp_all add: e1)
        finally show ?thesis .
      qed
      have "key_of e3 ?N = map pd its" "kern_of e3 ?N = rep_items its"
        by (simp_all add: key_of_def kern_of_def e3(1) with_state_nth)
      moreover have "key_of e3 n = key_of e n" using grown_state(1) [OF gr n] .
      moreover have "mset (map pd its) = next_key g (key_of e n) x" using grp by (simp add: group_for_def)
      ultimately have "moved_to g n x (rep_items its) e3"
        unfolding moved_to_def using tr3 [OF x] by (intro exI [of _ ?N]) (simp add: e3(1))
      then show ?thesis using mc3 gr tr3 Inr by (simp add: run)
    qed
  qed
qed

end
