(* ===== verification/LrLoop.thy ===== *)
theory LrLoop
  imports LrMove
begin

text \<open>
  The loop of \<open>lr\<close> of \<open>src/compiler/parser/yystate.c\<close>: all transitions of a state, and the
  end of the work on all states.
\<close>

section \<open>The groups of items with the same symbol behind the dot\<close>

definition on_symbol :: "nat \<Rightarrow> ITEM_S list \<Rightarrow> ITEM_S list" where
  "on_symbol x its = filter (\<lambda>it. right_of_dot it = Some x) its"

definition moves_ok :: "('a lr_env_scheme) \<Rightarrow> PRODUCTION_S \<Rightarrow> (PRODUCTION_S \<times> nat) list \<Rightarrow> ITEM_S list \<Rightarrow> bool" where
  "moves_ok g s key its \<longleftrightarrow>
     (\<forall>it\<in>set its. item_ok g it \<and> right_of_dot it \<noteq> None) \<and>
     sorted_wrt (\<lambda>a b. RIGHT_OF_DOT g a \<le> RIGHT_OF_DOT g b) its \<and>
     (\<forall>x. on_symbol x its \<noteq> [] \<longrightarrow> group_for g s key x (map movedot (on_symbol x its)))"

lemma dot_symbol:
  assumes "lr_gram g" and "item_ok g it" and "right_of_dot it \<noteq> None" and "x \<in> set (syms g)"
  shows "RIGHT_OF_DOT g it = val (symb g x) \<longleftrightarrow> right_of_dot it = Some x"
proof -
  obtain y where y: "right_of_dot it = Some y" using assms(3) by blast
  then have "y \<in> set (syms g)" using item_symbol [OF assms(1,2)] by blast
  then have "val (symb g y) = val (symb g x) \<longleftrightarrow> y = x"
    using assms(1,4) by (auto simp: lr_gram_def dest: inj_onD)
  then show ?thesis by (simp add: RIGHT_OF_DOT_def y)
qed

lemma first_group:
  assumes gram: "lr_gram g" and ok: "moves_ok g s key (it # its)" and x: "right_of_dot it = Some x"
  shows "it # takeWhile (\<lambda>j. RIGHT_OF_DOT g j = val (symb g x)) its = on_symbol x (it # its)"
    and "moves_ok g s key (dropWhile (\<lambda>j. RIGHT_OF_DOT g j = val (symb g x)) its)"
    and "on_symbol x (dropWhile (\<lambda>j. RIGHT_OF_DOT g j = val (symb g x)) its) = []"
    and "y \<noteq> x \<Longrightarrow> on_symbol y (dropWhile (\<lambda>j. RIGHT_OF_DOT g j = val (symb g x)) its) = on_symbol y (it # its)"
    and "x \<in> set (syms g)"
proof -
  let ?P = "\<lambda>j. RIGHT_OF_DOT g j = val (symb g x)"
  have its: "\<forall>j\<in>set (it # its). item_ok g j \<and> right_of_dot j \<noteq> None"
    and srt: "sorted_wrt (\<lambda>a b. RIGHT_OF_DOT g a \<le> RIGHT_OF_DOT g b) (it # its)"
    using ok by (simp_all add: moves_ok_def)
  show sx: "x \<in> set (syms g)" using item_symbol [OF gram _ x] its by simp
  have P: "?P j \<longleftrightarrow> right_of_dot j = Some x" if "j \<in> set (it # its)" for j
    using dot_symbol [OF gram _ _ sx] its that by blast
  have "\<forall>j\<in>set its. val (symb g x) \<le> RIGHT_OF_DOT g j"
    using srt P [of it] x by simp
  then have "sorted_wrt (\<lambda>a b. ?P b \<longrightarrow> ?P a) its"
    using srt by (auto elim!: sorted_wrt_mono_rel [rotated])
  from takeWhile_filter [OF this] have tw: "takeWhile ?P its = filter ?P its" "dropWhile ?P its = filter (\<lambda>j. \<not> ?P j) its"
    by blast+
  have "filter ?P its = on_symbol x its"
    unfolding on_symbol_def using P by (intro filter_cong) auto
  then show "it # takeWhile ?P its = on_symbol x (it # its)" using x by (simp add: tw on_symbol_def)
  have dw: "dropWhile ?P its = filter (\<lambda>j. right_of_dot j \<noteq> Some x) its"
    unfolding tw using P by (intro filter_cong) auto
  show none: "on_symbol x (dropWhile ?P its) = []" by (simp add: dw on_symbol_def filter_empty_conv)
  have other: "on_symbol y (dropWhile ?P its) = on_symbol y (it # its)" if "y \<noteq> x" for y
    using that x by (auto simp: dw on_symbol_def intro!: filter_cong)
  then show "y \<noteq> x \<Longrightarrow> on_symbol y (dropWhile ?P its) = on_symbol y (it # its)" .
  have "group_for g s key y (map movedot (on_symbol y (dropWhile ?P its)))"
    if "on_symbol y (dropWhile ?P its) \<noteq> []" for y
    using that none other [of y] ok by (cases "y = x") (auto simp: moves_ok_def)
  then show "moves_ok g s key (dropWhile ?P its)"
    using its srt by (auto simp: moves_ok_def tw intro: sorted_wrt_filter)
qed

lemma moved_to_grown:
  assumes "moved_to g n x M e" and gr: "grown g n e e'" and n: "n < length (lr_states e)"
    and "trans_on e' n x = trans_on e n x"
  shows "moved_to g n x M e'"
proof -
  obtain m where m: "m < length (lr_states e)" "trans_on e n x = Some (int m)"
    "mset (key_of e m) = next_key g (key_of e n) x" "M \<subseteq> kern_of e m"
    using assms(1) by (auto simp: moved_to_def)
  then show ?thesis
    using grown_state [OF gr m(1)] grown_state(1) [OF gr n] grown_le(1) [OF gr] assms(4)
    unfolding moved_to_def by (intro exI [of _ m]) auto
qed

lemma lr_moves_effect:
  assumes gram: "lr_gram g"
  shows "machine g s e \<Longrightarrow> n < length (lr_states e) \<Longrightarrow> moves_ok g s (key_of e n) its \<Longrightarrow>
    (closed (lr_states e ! n) \<Longrightarrow> \<forall>x. on_symbol x its \<noteq> [] \<longrightarrow>
      (\<exists>m<length (lr_states e). trans_on e n x = Some (int m) \<and> mset (key_of e m) = next_key g (key_of e n) x)) \<Longrightarrow>
    lr_moves n its e = Some fatal \<or>
    (\<exists>e'. lr_moves n its e = Some (Inr e') \<and> machine g s e' \<and> grown g n e e' \<and>
       (\<forall>x. on_symbol x its \<noteq> [] \<longrightarrow> moved_to g n x (rep_items (map movedot (on_symbol x its))) e') \<and>
       (\<forall>y\<in>set (syms g). on_symbol y its = [] \<longrightarrow> trans_on e' n y = trans_on e n y))"
proof (induction "length its" arbitrary: its e rule: less_induct)
  case less
  show ?case
  proof (cases its)
    case Nil
    then show ?thesis using less.prems(1) by (simp add: lr_moves.simps(1) on_symbol_def)
  next
    case (Cons it rest)
    obtain x where x: "right_of_dot it = Some x" using less.prems(3) by (auto simp: Cons moves_ok_def)
    note fr = machine_frame [OF less.prems(1)]
    have sy: "symb e = symb g" using fr(1) by (simp add: same_gram_def)
    then have ROD: "RIGHT_OF_DOT e = RIGHT_OF_DOT g" "symb e = symb g"
      by (simp_all add: RIGHT_OF_DOT_def fun_eq_iff split: option.split)
    let ?P = "\<lambda>j. RIGHT_OF_DOT g j = val (symb g x)"
    let ?M = "map movedot (on_symbol x its)"
    note fg = first_group [OF gram less.prems(3) [unfolded Cons] x]
    have "lr_moves n its e = bind_run (lr_move n x (map movedot (it # takeWhile ?P rest)) e) (lr_moves n (dropWhile ?P rest))"
      by (simp add: Cons lr_moves.simps(2) x ROD Let_def)
    then have run: "lr_moves n its e = bind_run (lr_move n x ?M e) (lr_moves n (dropWhile ?P rest))"
      by (simp only: fg(1) Cons)
    have some: "on_symbol x its \<noteq> []" using fg(1) by (metis Cons list.distinct(1))
    then have grp: "group_for g s (key_of e n) x ?M" using less.prems(3) by (simp add: moves_ok_def)
    have tr: "if closed (lr_states e ! n)
      then \<exists>m<length (lr_states e). trans_on e n x = Some (int m) \<and> mset (key_of e m) = next_key g (key_of e n) x
      else True" using less.prems(4) some by auto
    from lr_move_effect [OF gram less.prems(1,2) grp tr] show ?thesis
    proof
      assume "lr_move n x ?M e = Some fatal"
      then show ?thesis by (simp add: run fatal_def)
    next
      assume "\<exists>e'. lr_move n x ?M e = Some (Inr e') \<and> machine g s e' \<and> grown g n e e' \<and>
        moved_to g n x (rep_items ?M) e' \<and> (\<forall>y\<in>set (syms g). y \<noteq> x \<longrightarrow> trans_on e' n y = trans_on e n y)"
      then obtain e1 where 1: "lr_move n x ?M e = Some (Inr e1)" "machine g s e1" "grown g n e e1"
        "moved_to g n x (rep_items ?M) e1" "\<forall>y\<in>set (syms g). y \<noteq> x \<longrightarrow> trans_on e1 n y = trans_on e n y"
        by blast
      let ?rest = "dropWhile ?P rest"
      have run1: "lr_moves n its e = lr_moves n ?rest e1" by (simp add: run 1(1))
      have n1: "n < length (lr_states e1)" using less.prems(2) grown_le(1) [OF 1(3)] by simp
      have key1: "key_of e1 n = key_of e n" using grown_state(1) [OF 1(3) less.prems(2)] .
      have ok1: "moves_ok g s (key_of e1 n) ?rest" using fg(2) by (simp add: key1)
      have len: "length ?rest < length its" by (simp add: Cons length_dropWhile_le less_Suc_eq_le)
      have sub: "on_symbol y ?rest = on_symbol y its" if "y \<noteq> x" for y using fg(4) [OF that] by (simp add: Cons)
      have symb: "y \<in> set (syms g)" if some_y: "on_symbol y ?rest \<noteq> []" for y
        using fg(2) some_y by (auto simp: moves_ok_def group_for_def)
      have cl: "\<forall>y. on_symbol y ?rest \<noteq> [] \<longrightarrow> (\<exists>m<length (lr_states e1). trans_on e1 n y = Some (int m) \<and>
          mset (key_of e1 m) = next_key g (key_of e1 n) y)" if closed: "closed (lr_states e1 ! n)"
      proof (intro allI impI)
        fix y assume y: "on_symbol y ?rest \<noteq> []"
        have "y \<noteq> x" using y fg(3) by blast
        have "closed (lr_states e ! n)" using closed grown_state(3) [OF 1(3) less.prems(2)] by simp
        then obtain m where m: "m < length (lr_states e)" "trans_on e n y = Some (int m)"
          "mset (key_of e m) = next_key g (key_of e n) y"
          using less.prems(4) y sub [OF \<open>y \<noteq> x\<close>] by auto
        then show "\<exists>m<length (lr_states e1). trans_on e1 n y = Some (int m) \<and>
          mset (key_of e1 m) = next_key g (key_of e1 n) y"
          using 1(5) symb [OF y] \<open>y \<noteq> x\<close> grown_state(1) [OF 1(3) m(1)] key1 grown_le(1) [OF 1(3)]
          by (intro exI [of _ m]) auto
      qed
      from less.hyps [OF len 1(2) n1 ok1 cl] show ?thesis
      proof
        assume "lr_moves n ?rest e1 = Some fatal"
        then show ?thesis by (simp add: run1)
      next
        assume "\<exists>e'. lr_moves n ?rest e1 = Some (Inr e') \<and> machine g s e' \<and> grown g n e1 e' \<and>
          (\<forall>y. on_symbol y ?rest \<noteq> [] \<longrightarrow> moved_to g n y (rep_items (map movedot (on_symbol y ?rest))) e') \<and>
          (\<forall>y\<in>set (syms g). on_symbol y ?rest = [] \<longrightarrow> trans_on e' n y = trans_on e1 n y)"
        then obtain e2 where 2: "lr_moves n ?rest e1 = Some (Inr e2)" "machine g s e2" "grown g n e1 e2"
          "\<And>y. on_symbol y ?rest \<noteq> [] \<Longrightarrow> moved_to g n y (rep_items (map movedot (on_symbol y ?rest))) e2"
          "\<And>y. y \<in> set (syms g) \<Longrightarrow> on_symbol y ?rest = [] \<Longrightarrow> trans_on e2 n y = trans_on e1 n y"
          by blast
        have trx: "trans_on e2 n x = trans_on e1 n x" using 2(5) [OF fg(5) fg(3)] .
        have "moved_to g n y (rep_items (map movedot (on_symbol y its))) e2" if "on_symbol y its \<noteq> []" for y
        proof (cases "y = x")
          case True
          then show ?thesis using moved_to_grown [OF 1(4) 2(3) n1 trx] by simp
        next
          case False
          then show ?thesis using 2(4) [of y] sub [OF False] that by simp
        qed
        moreover have "trans_on e2 n y = trans_on e n y" if "y \<in> set (syms g)" "on_symbol y its = []" for y
        proof -
          have "y \<noteq> x" using that(2) some by blast
          then show ?thesis using 2(5) [OF that(1)] 1(5) that sub by simp
        qed
        ultimately show ?thesis using 2(1,2) grown_trans [OF 1(3) 2(3)] by (simp add: run1)
      qed
    qed
  qed
qed

section \<open>The groups of a state\<close>

text \<open>No production leads back to the start production.\<close>

definition start_ok :: "('a parser_env_scheme) \<Rightarrow> PRODUCTION_S \<Rightarrow> bool" where
  "start_ok g s \<longleftrightarrow> s \<in> prods g \<and> (\<forall>p\<in>prods g. \<forall>d. \<not> closes g p d s)"

lemma clos_prods:
  assumes "gram_ok g" and K: "\<forall>(p, d, u)\<in>K. p \<in> prods g"
  shows "(p, d, u) \<in> clos g K \<Longrightarrow> p \<in> prods g"
proof (induction rule: clos.induct [split_format (complete)])
  case (step p d u q w)
  then obtain x where x: "rhs_at p d = Some x" "q \<in> set (productions (symb g x))" by (auto simp: closes_def)
  then have "x \<in> set (rhs p)" by (auto simp: rhs_at_def split: if_splits)
  then have "x \<in> set (syms g)" using step.IH assms(1) by (auto simp: prods_def gram_ok_def prod_ok_def)
  with x(2) show ?case by (auto simp: prods_def)
qed (use K in auto)

lemma core_clos_bare: "core (clos g (bare C)) = C \<union> new_core g C"
  using arg_cong [OF clos_unfold [of g "bare C"], of core] by (simp add: new_core_def)

lemma new_core_start:
  assumes "gram_ok g" and st: "start_ok g s" and C: "\<forall>(p, d)\<in>C. p \<in> prods g"
  shows "(s, 0) \<notin> new_core g C"
proof
  assume "(s, 0) \<in> new_core g C"
  then obtain p d u where m: "(p, d, u) \<in> clos g (bare C)" "closes g p d s"
    unfolding new_core_def core_new_marks by (auto simp: core_def)
  have "\<forall>(p, d, u)\<in>bare C. p \<in> prods g" using C by (auto simp: bare_def)
  then have "p \<in> prods g" using m(1) by (rule clos_prods [OF assms(1)])
  with st m(2) show False by (simp add: start_ok_def)
qed

lemma filter_mset_imp: "(\<And>x. P x \<Longrightarrow> Q x) \<Longrightarrow> filter_mset P (filter_mset Q M) = filter_mset P M"
  by (induction M) auto

lemma next_key_of_items:
  assumes "mset (map pd its) = mset_set (new_core g (set ks)) + mset (filter (\<lambda>(p, d). rhs_at p d \<noteq> None) ks)"
    and ok: "\<forall>it\<in>set its. item_ok g it"
  shows "mset (map pd (map movedot (on_symbol x its))) = next_key g ks x"
proof -
  let ?P = "\<lambda>(p, d). rhs_at p d = Some x"
  have "map pd (map movedot (on_symbol x its)) = map (\<lambda>(p, d). (p, Suc d)) (map pd (on_symbol x its))"
    by (simp add: pd_def movedot_def)
  moreover have "map pd (on_symbol x its) = filter ?P (map pd its)"
    using ok by (auto simp: on_symbol_def filter_map o_def pd_def item_ok_def intro!: arg_cong [where f = "map pd"] filter_cong)
  ultimately have "mset (map pd (map movedot (on_symbol x its))) =
      image_mset (\<lambda>(p, d). (p, Suc d)) (filter_mset ?P (mset (map pd its)))"
    by (metis mset_filter mset_map)
  also have "filter_mset ?P (mset (map pd its)) = filter_mset ?P (mset_set (new_core g (set ks)) + mset ks)"
    unfolding assms(1) filter_union_mset mset_filter by (subst filter_mset_imp) auto
  finally show ?thesis by (simp add: next_key_def)
qed

lemma mset_set_distinct: "mset ms = mset_set A \<Longrightarrow> finite A \<Longrightarrow> distinct ms"
  by (auto simp: distinct_count_atmost_1 count_mset_set dest!: arg_cong [where f = set_mset])

lemma next_key_distinct:
  assumes gram: "gram_ok g" and st: "start_ok g s" and pr: "\<forall>(p, d)\<in>set ks. p \<in> prods g"
    and fin: "finite (new_core g (set ks))" and ks: "distinct ks"
    and zero: "\<forall>m\<in>set ks. snd m = 0 \<longrightarrow> fst m = s" and eq: "mset ms = next_key g ks x"
  shows "distinct ms"
proof -
  let ?f = "\<lambda>(p, d). (p, Suc d)"
  have s0: "(s, 0) \<notin> new_core g (set ks)" using new_core_start [OF gram st pr] .
  have "set ks \<inter> new_core g (set ks) = {}"
  proof (rule ccontr)
    assume "set ks \<inter> new_core g (set ks) \<noteq> {}"
    then obtain m where m: "m \<in> set ks" "m \<in> new_core g (set ks)" by blast
    then have "snd m = 0" by (auto simp: new_core_def core_new_marks)
    with m zero s0 show False by (metis prod.collapse)
  qed
  then have "mset_set (new_core g (set ks)) + mset ks = mset_set (new_core g (set ks) \<union> set ks)"
    using fin ks by (subst mset_set_Union) (auto simp: mset_set_set)
  then have "mset ms = image_mset (\<lambda>(p, d). (p, Suc d)) (mset_set {m \<in> new_core g (set ks) \<union> set ks. case m of (p, d) \<Rightarrow> rhs_at p d = Some x})"
    using fin by (simp add: eq next_key_def filter_mset_mset_set conj_commute)
  also have "\<dots> = mset_set (?f ` {m \<in> new_core g (set ks) \<union> set ks. case m of (p, d) \<Rightarrow> rhs_at p d = Some x})"
    by (intro image_mset_mset_set) (auto simp: inj_on_def)
  finally have ms: "mset ms = mset_set (?f ` {m \<in> new_core g (set ks) \<union> set ks. case m of (p, d) \<Rightarrow> rhs_at p d = Some x})" .
  have "finite {m \<in> new_core g (set ks) \<union> set ks. case m of (p, d) \<Rightarrow> rhs_at p d = Some x}" using fin by simp
  then show ?thesis using mset_set_distinct [OF ms] by simp
qed

lemma gathered_cong: "same_gram g e \<Longrightarrow> gathered e = gathered g"
  by (simp add: fun_eq_iff gathered_def closure_of_def copies_def same_gram_items clos_cong)

lemma on_symbol_mset: "mset as = mset bs \<Longrightarrow> mset (on_symbol x as) = mset (on_symbol x bs)"
  by (simp add: on_symbol_def)

lemma movedot_ok:
  assumes "item_ok g it" and "right_of_dot it = Some x"
  shows "item_ok g (movedot it)" and "pd (movedot it) = (prod it, Suc (dot_posn it))"
  using assms by (auto simp: item_ok_def movedot_def pd_def rhs_at_def split: if_splits)

lemma rep_moved:
  assumes "\<forall>it\<in>set its. item_ok g it"
  shows "rep_items (map movedot (on_symbol x its)) = go (rep_items its) x"
proof -
  have "rep_item (movedot it) = {(p, Suc d, u) |p d u. (p, d, u) \<in> rep_item it}" for it
    by (auto simp: rep_item_def movedot_def)
  then have "rep_items (map movedot (on_symbol x its)) = {(p, Suc d, u) |p d u. (p, d, u) \<in> rep_items (on_symbol x its)}"
    by (auto simp: rep_items_def)
  also have "\<dots> = go (rep_items its) x"
    using assms by (force simp: go_def rep_items_iff rep_item_iff on_symbol_def item_ok_def)
  finally show ?thesis .
qed

lemma rest_moves_ok:
  assumes gram: "lr_gram g" and st: "start_ok g s" and ga: "gathered g kern its" and kern: "kern_ok g s kern"
  shows "moves_ok g s (map pd kern) (rest_of (sorted_items_of g its))"
    and "rep_items (map movedot (on_symbol x (rest_of (sorted_items_of g its)))) = go (clos g (rep_items kern)) x"
    and "mset (map pd (map movedot (on_symbol x (rest_of (sorted_items_of g its))))) = next_key g (map pd kern) x"
proof -
  let ?S = "sorted_items_of g its"
  let ?R = "rest_of ?S" and ?C = "set (map pd kern)"
  have ok: "\<forall>it\<in>set kern. item_ok g it" using kern by (simp add: kern_ok_def)
  note gok = gathered_ok [OF ga ok]
  note sp = split_sorted [OF gram gok(1,2)]
  have S: "\<forall>it\<in>set ?S. item_ok g it \<and> (empty_item it \<longleftrightarrow> right_of_dot it = None)"
    using gok(1,2) mset_eq_setD [OF sp(3)] by simp
  then have R: "\<forall>it\<in>set ?R. item_ok g it \<and> right_of_dot it \<noteq> None" by (auto simp: rest_of_def)
  have on: "on_symbol y ?R = on_symbol y ?S" for y
    using S by (auto simp: on_symbol_def rest_of_def intro!: filter_cong)
  have rep: "rep_items (map movedot (on_symbol y ?R)) = go (clos g (rep_items kern)) y" for y
  proof -
    have "rep_items (map movedot (on_symbol y ?S)) = go (rep_items ?S) y" using S by (intro rep_moved [where g = g]) auto
    also have "\<dots> = go (rep_items its) y" using rep_items_mset [OF sp(3)] by simp
    also have "\<dots> = go (clos g (rep_items kern)) y" by (rule gok(3))
    finally show ?thesis by (simp only: on)
  qed
  then show "rep_items (map movedot (on_symbol x ?R)) = go (clos g (rep_items kern)) x" .
  have key: "mset (map pd (map movedot (on_symbol y ?R))) = next_key g (map pd kern) y" for y
  proof -
    have "mset (map pd (map movedot (on_symbol y ?S))) = mset (map pd (map movedot (on_symbol y its)))"
      using on_symbol_mset [OF sp(3), of y] by (metis mset_map)
    also have "\<dots> = next_key g (map pd kern) y" using next_key_of_items [OF gok(4,1)] .
    finally show ?thesis by (simp only: on)
  qed
  then show "mset (map pd (map movedot (on_symbol x ?R))) = next_key g (map pd kern) x" .
  have srt: "sorted_wrt (\<lambda>a b. key_diff g a b \<le> 0) ?R"
    unfolding rest_of_def using sp(4) by (rule sorted_wrt_filter)
  then have "sorted_wrt (\<lambda>a b. RIGHT_OF_DOT g a \<le> RIGHT_OF_DOT g b) ?R"
    by (auto elim!: sorted_wrt_mono_rel [rotated] simp: key_diff_def split: if_splits)
  moreover have "group_for g s (map pd kern) y (map movedot (on_symbol y ?R))" if ne: "on_symbol y ?R \<noteq> []" for y
  proof -
    let ?G = "on_symbol y ?R"
    have G: "\<forall>it\<in>set ?G. item_ok g it \<and> right_of_dot it = Some y" using R by (auto simp: on_symbol_def)
    then have "hd ?G \<in> set ?G" using ne by simp
    then have y: "y \<in> set (syms g)" using G item_symbol [OF gram] by blast
    have M: "\<forall>it\<in>set (map movedot ?G). item_ok g it" using G movedot_ok(1) by auto
    have small: "dot_posn it < 32" if "item_ok g it" for it
      using that gram by (fastforce simp: item_ok_def lr_gram_def MAXRHS_def)
    have "sorted_wrt (\<lambda>a b. key_diff g a b \<le> 0) ?G" unfolding on_symbol_def using srt by (rule sorted_wrt_filter)
    then have "sorted_wrt (\<lambda>a b. pd_code (pd (movedot a)) \<le> pd_code (pd (movedot b))) ?G"
    proof (rule sorted_wrt_mono_rel [rotated])
      fix a b assume a: "a \<in> set ?G" "b \<in> set ?G" and le: "key_diff g a b \<le> 0"
      have "RIGHT_OF_DOT g a = RIGHT_OF_DOT g b" using G a by (simp add: RIGHT_OF_DOT_def)
      then have "num (prod a) < num (prod b) \<or> num (prod a) = num (prod b) \<and> dot_posn a \<le> dot_posn b"
        using le by (auto simp: key_diff_def prod_num_def split: if_splits)
      moreover have "dot_posn a < 32" using G a small by blast
      moreover have "pd (movedot a) = (prod a, Suc (dot_posn a))" "pd (movedot b) = (prod b, Suc (dot_posn b))"
        using G a movedot_ok(2) by blast+
      ultimately show "pd_code (pd (movedot a)) \<le> pd_code (pd (movedot b))"
        by (auto simp: pd_code_def)
    qed
    then have sorted: "sorted (map pd_code (map pd (map movedot ?G)))" by (simp add: sorted_wrt_map)
    obtain cl where cl: "closure_of g (rep_items kern) cl" using ga by (auto simp: gathered_def)
    have "core (rep_items cl) = new_core g (core (rep_items kern))" using cl by (simp add: closure_of_def core_new)
    then have "new_core g ?C = set (map pd cl)" by (simp only: core_rep_pd)
    then have fin: "finite (new_core g ?C)" by simp
    have dist: "distinct (map pd (map movedot ?G))"
      using next_key_distinct [OF _ st _ fin _ _ key [of y]] kern gram
      by (simp add: kern_ok_def lr_gram_def item_ok_def pd_def)
    have zero: "\<forall>m\<in>set (map pd (map movedot ?G)). snd m = 0 \<longrightarrow> fst m = s"
      by (auto simp: movedot_def pd_def)
    have "rep_items kern \<subseteq> marks_of g s ?C" using kern by (simp add: kern_ok_def)
    then have "go (clos g (rep_items kern)) y \<subseteq> go (marks_of g s ?C) y" by (intro go_mono clos_marks_of)
    also have "\<dots> \<subseteq> marks_of g s (go_core g ?C y)" by (rule marks_of_go)
    also have "go_core g ?C y = set (map pd (map movedot ?G))"
      using go_core_clos [of g "rep_items kern" y] core_rep_pd [of "map movedot ?G"] by (simp add: rep core_rep_pd)
    finally have "rep_items (map movedot ?G) \<subseteq> marks_of g s (set (map pd (map movedot ?G)))" by (simp only: rep)
    with y ne M key sorted dist zero show ?thesis by (simp add: group_for_def)
  qed
  ultimately show "moves_ok g s (map pd kern) ?R" using R by (simp add: moves_ok_def)
qed

section \<open>One state\<close>

definition with_eps :: "nat \<Rightarrow> ITEM_S list \<Rightarrow> ('a lr_env_scheme) \<Rightarrow> ('a lr_env_scheme)" where
  "with_eps n E e = e\<lparr>lr_states := (lr_states e)[n := (lr_states e ! n)\<lparr>epsilon_items := E\<rparr>]\<rparr>"

definition set_closed :: "nat \<Rightarrow> ('a lr_env_scheme) \<Rightarrow> ('a lr_env_scheme)" where
  "set_closed n e = e\<lparr>lr_states := (lr_states e)[n := (lr_states e ! n)\<lparr>closed := True\<rparr>]\<rparr>"

lemma with_eps_simps [simp]:
  "length (lr_states (with_eps n E e)) = length (lr_states e)" "length (lr_states (set_closed n e)) = length (lr_states e)"
  "actions (with_eps n E e) = actions e" "actions (set_closed n e) = actions e"
  "gotos (with_eps n E e) = gotos e" "gotos (set_closed n e) = gotos e"
  "pending_states (with_eps n E e) = pending_states e" "pending_states (set_closed n e) = pending_states e"
  by (simp_all add: with_eps_def set_closed_def pending_states_def)

lemma with_eps_nth:
  assumes "n < length (lr_states e)"
  shows "kernel_items (lr_states (with_eps n E e) ! k) = kernel_items (lr_states e ! k)"
    and "epsilon_items (lr_states (with_eps n E e) ! k) = (if k = n then E else epsilon_items (lr_states e ! k))"
    and "closed (lr_states (with_eps n E e) ! k) = closed (lr_states e ! k)"
    and "kernel_items (lr_states (set_closed n e) ! k) = kernel_items (lr_states e ! k)"
    and "epsilon_items (lr_states (set_closed n e) ! k) = epsilon_items (lr_states e ! k)"
    and "closed (lr_states (set_closed n e) ! k) = (k = n \<or> closed (lr_states e ! k))"
  using assms by (auto simp: with_eps_def set_closed_def nth_list_update)

lemma keys_with_eps:
  assumes "n < length (lr_states e)"
  shows "key_of (with_eps n E e) = key_of e" "kern_of (with_eps n E e) = kern_of e"
    "key_of (set_closed n e) = key_of e" "kern_of (set_closed n e) = kern_of e"
  by (simp_all add: fun_eq_iff key_of_def kern_of_def with_eps_nth [OF assms])

lemma machine_with_eps:
  assumes mc: "machine g s e" and n: "n < length (lr_states e)" and E: "rep_items E \<subseteq> eps_marks g (kern_of e n)"
  shows "machine g s (with_eps n E e)"
proof -
  have "tree_inv (with_eps n E e)" "recycled_ok (with_eps n E e)" "same_gram g (with_eps n E e)"
    "states_hashtab (with_eps n E e) = states_hashtab e"
    using mc by (simp_all add: machine_def with_eps_def tree_inv_def recycled_ok_def same_gram_def)
  moreover from this(4) have "table_ok (with_eps n E e)" using mc by (simp add: table_ok_def machine_def with_eps_nth [OF n])
  ultimately show ?thesis using mc E by (simp add: machine_def keys_with_eps [OF n] with_eps_nth [OF n])
qed

lemma machine_set_closed:
  assumes mc: "machine g s e" and n: "n < length (lr_states e)"
  shows "machine g s (set_closed n e)"
proof -
  have "tree_inv (set_closed n e)" "recycled_ok (set_closed n e)" "same_gram g (set_closed n e)"
    "states_hashtab (set_closed n e) = states_hashtab e"
    using mc by (simp_all add: machine_def set_closed_def tree_inv_def recycled_ok_def same_gram_def)
  moreover from this(4) have "table_ok (set_closed n e)" using mc by (simp add: table_ok_def machine_def with_eps_nth [OF n])
  ultimately show ?thesis using mc by (simp add: machine_def keys_with_eps [OF n] with_eps_nth [OF n])
qed

text \<open>A state keeps its properties when only the epsilon items or the flag of another state change.\<close>

lemma st_ok_frame:
  assumes "st_ok g e m" and "m < length (lr_states e)" and "same_gram e e'"
    and "length (lr_states e') = length (lr_states e)" "m \<in> pending_states e' \<longleftrightarrow> m \<in> pending_states e"
    and "key_of e' = key_of e" "kern_of e' = kern_of e"
    and "actions e' = actions e" "gotos e' = gotos e"
    and "closed (lr_states e' ! m) = closed (lr_states e ! m)"
    and "epsilon_items (lr_states e' ! m) = epsilon_items (lr_states e ! m)"
  shows "st_ok g e' m"
proof -
  have tr: "trans_on e' m x = trans_on e m x" for x using assms(3,8,9) by (intro trans_on_other) simp_all
  have "st_core g e m \<Longrightarrow> st_core g e' m" by (rule st_core_grown [of g e m]) (use assms tr in simp_all)
  moreover have "st_full g e m (kern_of e m) \<Longrightarrow> st_full g e' m (kern_of e' m)" using assms tr by (simp add: st_full_def)
  ultimately show ?thesis using assms by (auto simp: st_ok_def split: if_splits)
qed

text \<open>The state that is worked on, before and after.\<close>

definition st_work :: "('a lr_env_scheme) \<Rightarrow> ('a lr_env_scheme) \<Rightarrow> nat \<Rightarrow> bool" where
  "st_work g e n \<longleftrightarrow>
     (if closed (lr_states e ! n) then st_core g e n
      else actions e n = [] \<and> gotos e n = [] \<and> epsilon_items (lr_states e ! n) = [])"

lemma trans_on_nil: "actions e n = [] \<Longrightarrow> gotos e n = [] \<Longrightarrow> trans_on e n x = None"
  by (simp add: trans_on_def)

lemma next_key_nil:
  assumes mc: "machine g s e" and core: "st_core g e n" and n: "n < length (lr_states e)" and x: "x \<in> set (syms g)"
    and nil: "next_key g (key_of e n) x = {#}"
  shows "trans_on e n x = None"
proof (rule ccontr)
  assume "trans_on e n x \<noteq> None"
  then obtain m where "m < length (lr_states e)" "mset (key_of e m) = {#}"
    using core x nil by (fastforce simp: st_core_def split: option.splits)
  then show False using machine_frame(5) [OF mc] by (auto simp: kern_ok_def key_of_def)
qed

text \<open>What the moves leave behind, put together for the state itself.\<close>

lemma state_done:
  assumes mc: "machine g s e" and n: "n < length (lr_states e)"
    and eps: "eps_sorted g (key_of e n) (epsilon_items (lr_states e ! n))"
      "rep_items (epsilon_items (lr_states e ! n)) = eps_marks g K"
    and moved: "\<And>x. x \<in> set (syms g) \<Longrightarrow> next_key g (key_of e n) x \<noteq> {#} \<Longrightarrow> moved_to g n x (go (clos g K) x) e"
    and none: "\<And>x. x \<in> set (syms g) \<Longrightarrow> next_key g (key_of e n) x = {#} \<Longrightarrow> trans_on e n x = None"
    and K: "n \<notin> pending_states e \<Longrightarrow> kern_of e n = K"
  shows "st_ok g (set_closed n e) n"
proof -
  let ?e = "set_closed n e"
  have "same_gram e ?e" by (simp add: same_gram_def set_closed_def)
  then have tr: "trans_on ?e n x = trans_on e n x" for x by (intro trans_on_other) simp_all
  note k = keys_with_eps [OF n] with_eps_nth [OF n]
  have "st_core g ?e n"
    unfolding st_core_def
  proof (intro conjI ballI)
    show "eps_sorted g (key_of ?e n) (epsilon_items (lr_states ?e ! n))" using eps(1) by (simp add: k)
    fix x assume x: "x \<in> set (syms g)"
    show "case trans_on ?e n x of None \<Rightarrow> next_key g (key_of ?e n) x = {#}
        | Some j \<Rightarrow> \<exists>m<length (lr_states ?e). j = int m \<and> mset (key_of ?e m) = next_key g (key_of ?e n) x"
      using moved [OF x] none [OF x] by (cases "next_key g (key_of e n) x = {#}") (auto simp: tr k moved_to_def)
  qed
  moreover have "st_full g ?e n K"
    unfolding st_full_def
  proof (intro conjI ballI allI impI)
    show "rep_items (epsilon_items (lr_states ?e ! n)) = eps_marks g K" using eps(2) by (simp add: k)
    fix x m assume x: "x \<in> set (syms g)" and m: "trans_on ?e n x = Some (int m)"
    then have "next_key g (key_of e n) x \<noteq> {#}" using none [OF x] by (auto simp: tr)
    from moved [OF x this] m show "go (clos g K) x \<subseteq> kern_of ?e m" by (auto simp: moved_to_def tr k)
  qed
  ultimately show ?thesis using K by (auto simp: st_ok_def k)
qed

lemma next_key_empty_iff: "mset (map pd (map movedot (on_symbol x its))) = next_key g ks x \<Longrightarrow> next_key g ks x = {#} \<longleftrightarrow> on_symbol x its = []"
  by (metis list.map_disc_iff mset_zero_iff)

definition work_result :: "('a lr_env_scheme) \<Rightarrow> PRODUCTION_S \<Rightarrow> ('a lr_env_scheme) \<Rightarrow> ('a lr_env_scheme) run \<Rightarrow> bool" where
  "work_result g s e r \<longleftrightarrow>
     r = Some fatal \<or>
     (\<exists>e'. r = Some (Inr e') \<and> machine g s e' \<and> (\<forall>m<length (lr_states e'). st_ok g e' m) \<and>
        machine_pot g e' \<le> machine_pot g e \<and>
        (pending_states e' = pending_states e \<or> machine_pot g e' < machine_pot g e))"

lemma lr_state_moves:
  assumes gram: "lr_gram g" and st: "start_ok g s" and mc: "machine g s e" and n: "n < length (lr_states e)"
    and np: "n \<notin> pending_states e" and others: "\<forall>m<length (lr_states e). m \<noteq> n \<longrightarrow> st_ok g e m"
    and ga: "gathered g (kernel_items (lr_states e ! n)) its"
    and eps: "eps_sorted g (key_of e n) (epsilon_items (lr_states e ! n))"
      "rep_items (epsilon_items (lr_states e ! n)) = eps_marks g (kern_of e n)"
    and tr: "if closed (lr_states e ! n) then st_core g e n else actions e n = [] \<and> gotos e n = []"
  shows "work_result g s e (bind_run (lr_moves n (rest_of (sorted_items_of g its)) e) (\<lambda>e4. Some (Inr (set_closed n e4))))"
proof -
  let ?R = "rest_of (sorted_items_of g its)"
  have kern: "kern_ok g s (kernel_items (lr_states e ! n))" using machine_frame(5) [OF mc n] .
  note rm = rest_moves_ok [OF gram st ga kern, folded key_of_def kern_of_def]
  note empty_iff = next_key_empty_iff [OF rm(3)]
  have in_syms: "x \<in> set (syms g)" if "on_symbol x ?R \<noteq> []" for x
    using rm(1) that by (auto simp: moves_ok_def group_for_def)
  have cl: "\<forall>x. on_symbol x ?R \<noteq> [] \<longrightarrow>
      (\<exists>m<length (lr_states e). trans_on e n x = Some (int m) \<and> mset (key_of e m) = next_key g (key_of e n) x)"
    if "closed (lr_states e ! n)"
  proof (intro allI impI)
    fix x assume x: "on_symbol x ?R \<noteq> []"
    have "st_core g e n" using tr that by simp
    then show "\<exists>m<length (lr_states e). trans_on e n x = Some (int m) \<and> mset (key_of e m) = next_key g (key_of e n) x"
      using in_syms [OF x] x empty_iff [of x] by (fastforce simp: st_core_def split: option.splits)
  qed
  have none0: "trans_on e n x = None" if "x \<in> set (syms g)" "next_key g (key_of e n) x = {#}" for x
    using tr next_key_nil [OF mc _ n that] trans_on_nil by (auto split: if_splits)
  from lr_moves_effect [OF gram mc n rm(1) cl] show ?thesis
  proof
    assume "lr_moves n ?R e = Some fatal"
    then show ?thesis by (simp add: work_result_def fatal_def)
  next
    assume "\<exists>e'. lr_moves n ?R e = Some (Inr e') \<and> machine g s e' \<and> grown g n e e' \<and>
       (\<forall>x. on_symbol x ?R \<noteq> [] \<longrightarrow> moved_to g n x (rep_items (map movedot (on_symbol x ?R))) e') \<and>
       (\<forall>y\<in>set (syms g). on_symbol y ?R = [] \<longrightarrow> trans_on e' n y = trans_on e n y)"
    then obtain e4 where 4: "lr_moves n ?R e = Some (Inr e4)" "machine g s e4" "grown g n e e4"
      "\<And>x. on_symbol x ?R \<noteq> [] \<Longrightarrow> moved_to g n x (rep_items (map movedot (on_symbol x ?R))) e4"
      "\<And>y. y \<in> set (syms g) \<Longrightarrow> on_symbol y ?R = [] \<Longrightarrow> trans_on e4 n y = trans_on e n y"
      by blast
    note gr = 4(3)
    have n4: "n < length (lr_states e4)" using n grown_le(1) [OF gr] by simp
    note at_n = grown_state [OF gr n]
    have done_n: "st_ok g (set_closed n e4) n"
    proof (rule state_done [OF 4(2) n4, where K = "kern_of e n"])
      show "eps_sorted g (key_of e4 n) (epsilon_items (lr_states e4 ! n))"
        "rep_items (epsilon_items (lr_states e4 ! n)) = eps_marks g (kern_of e n)"
        using eps at_n by simp_all
      show "moved_to g n x (go (clos g (kern_of e n)) x) e4" if "next_key g (key_of e4 n) x \<noteq> {#}" for x
        using 4(4) [of x] that empty_iff [of x] at_n(1) rm(2) by simp
      show "trans_on e4 n x = None" if "x \<in> set (syms g)" "next_key g (key_of e4 n) x = {#}" for x
        using 4(5) [OF that(1)] none0 [OF that(1)] that(2) empty_iff [of x] at_n(1) by simp
      show "kern_of e4 n = kern_of e n" if "n \<notin> pending_states e4" using at_n(5) that by blast
    qed
    have same: "same_gram e e4" using machine_frame(1) [OF mc] machine_frame(1) [OF 4(2)] by (simp add: same_gram_def)
    have rest: "st_ok g e4 m" if m: "m < length (lr_states e4)" "m \<noteq> n" for m
    proof (cases "m < length (lr_states e)")
      case True
      then show ?thesis using grown_st_ok [OF gr same _ True m(2)] others m(2) by blast
    next
      case False
      have "actions e4 m = []" "gotos e4 m = []"
        using grown_le(5,6) [OF gr m(2)] mc False by (simp_all add: machine_def)
      then show ?thesis using grown_new [OF gr _ m(1)] False by (simp add: st_ok_def)
    qed
    have "st_ok g (set_closed n e4) m" if m: "m < length (lr_states e4)" "m \<noteq> n" for m
      by (rule st_ok_frame [OF rest [OF m] m(1)])
        (use m in \<open>simp_all add: keys_with_eps [OF n4] with_eps_nth [OF n4], simp add: same_gram_def set_closed_def\<close>)
    with done_n have "\<forall>m<length (lr_states (set_closed n e4)). st_ok g (set_closed n e4) m" by auto
    moreover have "machine_pot g (set_closed n e4) = machine_pot g e4"
    proof -
      have "map (\<lambda>s. cap g (kernel_items s)) (lr_states (set_closed n e4)) = map (\<lambda>s. cap g (kernel_items s)) (lr_states e4)"
        by (rule nth_equalityI) (simp_all add: with_eps_nth [OF n4])
      then show ?thesis by (simp add: machine_pot_def)
    qed
    ultimately show ?thesis
      using machine_set_closed [OF 4(2) n4] grown_le(3,4) [OF gr] by (simp add: work_result_def 4(1))
  qed
qed

lemma sorted_items_cong: "symb e = symb g \<Longrightarrow> sorted_items_of e its = sorted_items_of g its"
proof -
  assume "symb e = symb g"
  then have "RIGHT_OF_DOT e = RIGHT_OF_DOT g" by (simp add: RIGHT_OF_DOT_def fun_eq_iff split: option.split)
  then have "item_cmp e = item_cmp g" by (simp add: item_cmp_def fun_eq_iff)
  then show ?thesis by (simp add: sorted_items_of_def)
qed

lemma machine_pot_same: "lr_states e' = lr_states e \<Longrightarrow> machine_pot g e' = machine_pot g e"
  by (simp add: machine_pot_def)

lemma machine_pot_eps:
  assumes "n < length (lr_states e)"
  shows "machine_pot g (with_eps n E e) = machine_pot g e"
proof -
  have "map (\<lambda>s. cap g (kernel_items s)) (lr_states (with_eps n E e)) = map (\<lambda>s. cap g (kernel_items s)) (lr_states e)"
    by (rule nth_equalityI) (simp_all add: with_eps_nth [OF assms])
  then show ?thesis by (simp add: machine_pot_def)
qed

lemma lr_state_effect:
  assumes gram: "lr_gram g" "first_range g" and st: "start_ok g s" and mc: "machine g s e" and n: "n < length (lr_states e)"
    and np: "n \<notin> pending_states e" and work: "st_work g e n"
    and others: "\<forall>m<length (lr_states e). m \<noteq> n \<longrightarrow> st_ok g e m"
  shows "work_result g s e (lr_state n e)"
proof -
  let ?kern = "kernel_items (lr_states e ! n)"
  note fr = machine_frame [OF mc]
  have kern: "kern_ok g s ?kern" using fr(5) [OF n] .
  then have items: "\<forall>it\<in>set ?kern. item_ok g it" by (simp add: kern_ok_def)
  note sg = same_gram_ok(1) [OF fr(1)] same_gram_basics [OF fr(1)] same_gram_items [OF fr(1)]
  have gram': "lr_gram e" "first_range e" using gram by (simp_all add: sg first_range_def)
  have items': "\<forall>it\<in>set ?kern. item_ok e it" using items by (simp add: sg)
  let ?F = "\<lambda>(items, e2). bind_run
           (if items = [] then Some (Inr ([], e2))
            else Some (move_eps n (sys_ssort (item_cmp e2) items (length items)) e2))
           (\<lambda>(rest, e3). bind_run (lr_moves n rest e3) (\<lambda>e4. Some (Inr (set_closed n e4))))"
  have run: "lr_state n e = bind_run (closure ?kern MAXCLOSE e) (\<lambda>(cl, e1).
      bind_run (Some (kclosure ?kern cl (MAXCLOSE - int (length cl)) e1)) ?F)"
    by (simp add: lr_state_def Let_def set_closed_def)
  from gather_effect [OF gram' fr(3) items', of ?F] show ?thesis
  proof
    assume "bind_run (closure ?kern MAXCLOSE e) (\<lambda>(cl, e1).
      bind_run (Some (kclosure ?kern cl (MAXCLOSE - int (length cl)) e1)) ?F) = Some fatal"
    then show ?thesis by (simp only: run work_result_def simp_thms)
  next
    assume "\<exists>its e2. bind_run (closure ?kern MAXCLOSE e) (\<lambda>(cl, e1).
      bind_run (Some (kclosure ?kern cl (MAXCLOSE - int (length cl)) e1)) ?F) = ?F (its, e2) \<and>
      items_only e e2 \<and> gathered e ?kern its"
    then obtain its e2 where 2: "lr_state n e = ?F (its, e2)" "items_only e e2" "gathered e ?kern its"
      unfolding run by blast
    obtain k rs where e2: "e2 = e\<lparr>nitems := k, recycled_items := rs\<rparr>" using 2(2) by (auto simp: items_only_def)
    have mc2: "machine g s e2" using machine_items_only [OF mc 2(2)] .
    note fr2 = machine_frame [OF mc2]
    have eq: "lr_states e2 = lr_states e" "actions e2 = actions e" "gotos e2 = gotos e" "pending_states e2 = pending_states e"
      by (simp_all add: e2 pending_states_def)
    have keys: "key_of e2 = key_of e" "kern_of e2 = kern_of e" by (simp_all add: fun_eq_iff key_of_def kern_of_def eq)
    have ga: "gathered g ?kern its" using 2(3) gathered_cong [OF fr(1)] by simp
    have sy: "symb e2 = symb g" using fr2(1) by (simp add: same_gram_def)
    have others2: "\<forall>m<length (lr_states e2). m \<noteq> n \<longrightarrow> st_ok g e2 m"
    proof (intro allI impI)
      fix m assume "m < length (lr_states e2)" "m \<noteq> n"
      then show "st_ok g e2 m"
        using others fr(1) fr2(1)
        by (intro st_ok_frame [of g e m e2]) (simp_all add: eq keys same_gram_def)
    qed
    have "same_gram e e2" using fr(1) fr2(1) by (simp add: same_gram_def)
    then have tr2: "trans_on e2 n x = trans_on e n x" for x by (rule trans_on_other) (simp_all add: eq)
    have core2: "st_core g e2 n" if "st_core g e n"
      using that by (rule st_core_grown) (simp_all add: eq keys tr2 n)
    let ?old = "epsilon_items (lr_states e ! n)"
    have old: "?old = [] \<or> eps_sorted g (key_of e n) ?old" using work by (auto simp: st_work_def st_core_def split: if_splits)
    have oldsub: "rep_items ?old \<subseteq> eps_marks g (kern_of e n)" using mc n by (simp add: machine_def)
    have eps: "eps_sorted g (key_of e n) (filter empty_item (sorted_items_of g its))"
      "rep_items (filter empty_item (sorted_items_of g its)) = eps_marks g (kern_of e n)"
      using eps_of_gathered [OF gram(1) ga items] by (simp_all add: key_of_def kern_of_def)
    have finish: "work_result g s e (bind_run (lr_moves n (rest_of (sorted_items_of g its)) (with_eps n E e2))
          (\<lambda>e4. Some (Inr (set_closed n e4))))"
      if E: "eps_sorted g (key_of e n) E" "rep_items E = eps_marks g (kern_of e n)" for E
    proof -
      let ?e3 = "with_eps n E e2"
      have n2: "n < length (lr_states e2)" using n by (simp add: eq)
      note k3 = keys_with_eps [OF n2] with_eps_nth [OF n2]
      have mc3: "machine g s ?e3" using machine_with_eps [OF mc2 n2] E(2) by (simp add: keys)
      have others3: "\<forall>m<length (lr_states ?e3). m \<noteq> n \<longrightarrow> st_ok g ?e3 m"
      proof (intro allI impI)
        fix m assume "m < length (lr_states ?e3)" "m \<noteq> n"
        then show "st_ok g ?e3 m" using others2 fr2(1) machine_frame(1) [OF mc3]
          by (intro st_ok_frame [of g e2 m ?e3]) (simp_all add: k3 same_gram_def)
      qed
      have "same_gram e2 ?e3" using fr2(1) machine_frame(1) [OF mc3] by (simp add: same_gram_def)
      then have tr3: "trans_on ?e3 n x = trans_on e2 n x" for x by (rule trans_on_other) simp_all
      have tr: "if closed (lr_states ?e3 ! n) then st_core g ?e3 n else actions ?e3 n = [] \<and> gotos ?e3 n = []"
      proof (cases "closed (lr_states e ! n)")
        case True
        then have "st_core g e2 n" using work core2 by (simp add: st_work_def)
        then have "st_core g ?e3 n"
          using E(1) unfolding st_core_def by (simp add: k3 tr3 keys eq cong: option.case_cong)
        then show ?thesis using True by (simp add: k3 eq)
      qed (use work in \<open>simp add: st_work_def k3 eq\<close>)
      have "work_result g s ?e3 (bind_run (lr_moves n (rest_of (sorted_items_of g its)) ?e3) (\<lambda>e4. Some (Inr (set_closed n e4))))"
        using n np others3 ga E tr
        by (intro lr_state_moves [OF gram(1) st mc3]) (simp_all add: k3 eq keys)
      moreover have "machine_pot g ?e3 = machine_pot g e"
        by (rule trans [OF machine_pot_eps [OF n2] machine_pot_same [OF eq(1)]])
      ultimately show ?thesis by (simp add: work_result_def eq)
    qed
    show ?thesis
    proof (cases "its = []")
      case True
      have S: "sorted_items_of g [] = []"
        using split_sorted(3) [OF gram(1), of "[]"] by simp
      then have nil: "eps_sorted g (key_of e n) []" "eps_marks g (kern_of e n) = {}" using eps True by simp_all
      have "?old = []"
        using old eps_sorted_unique [OF gram(1) _ nil(1)] by auto
      then have "(lr_states e ! n)\<lparr>epsilon_items := []\<rparr> = lr_states e ! n"
        by (cases "lr_states e ! n") simp
      then have "with_eps n [] e2 = e2" by (simp add: with_eps_def eq(1) e2)
      then have "lr_state n e = bind_run (lr_moves n (rest_of (sorted_items_of g its)) (with_eps n [] e2)) (\<lambda>e4. Some (Inr (set_closed n e4)))"
        using True S by (simp add: 2(1) rest_of_def)
      then show ?thesis using finish [OF nil(1)] nil(2) by simp
    next
      case False
      have n2: "n < length (lr_states e2)" using n by (simp add: eq)
      have old2: "epsilon_items (lr_states e2 ! n) = [] \<or> eps_sorted g (map pd ?kern) (epsilon_items (lr_states e2 ! n))"
        using old by (simp add: eq key_of_def)
      have run2: "lr_state n e = bind_run (Some (move_eps n (sorted_items_of g its) e2))
           (\<lambda>(rest, e3). bind_run (lr_moves n rest e3) (\<lambda>e4. Some (Inr (set_closed n e4))))"
        using False by (simp add: 2(1) sorted_items_of_def [symmetric] sorted_items_cong [OF sy])
      from move_eps_effect [OF gram(1) fr2(1) ga items False n2 old2] show ?thesis
      proof
        assume "move_eps n (sorted_items_of g its) e2 = fatal"
        then show ?thesis by (simp add: run2 work_result_def fatal_def)
      next
        assume "\<exists>E. move_eps n (sorted_items_of g its) e2 = Inr (rest_of (sorted_items_of g its),
            e2\<lparr>lr_states := (lr_states e2)[n := (lr_states e2 ! n)\<lparr>epsilon_items := E\<rparr>]\<rparr>) \<and>
          eps_sorted g (map pd ?kern) E \<and>
          rep_items E = rep_items (epsilon_items (lr_states e2 ! n)) \<union> eps_marks g (rep_items ?kern)"
        then obtain E where E: "move_eps n (sorted_items_of g its) e2 = Inr (rest_of (sorted_items_of g its), with_eps n E e2)"
          "eps_sorted g (map pd ?kern) E" "rep_items E = rep_items ?old \<union> eps_marks g (rep_items ?kern)"
          by (auto simp: with_eps_def eq)
        have "rep_items E = eps_marks g (kern_of e n)" using E(3) oldsub by (auto simp: kern_of_def)
        with finish [of E] E(2) show ?thesis by (simp add: run2 E(1) key_of_def)
      qed
    qed
  qed
qed

end
