(* ===== verification/LrRun.thy ===== *)
theory LrRun
  imports LrLoop
begin

text \<open>
  The whole construction of the LALR(1) machine in \<open>src/compiler/parser/yystate.c\<close>: the loop of
  \<open>lr\<close> from the start state to the end, and the machine it leaves behind, against the machine of
  \<open>LrSpec\<close>.
\<close>

section \<open>The loop\<close>

definition linv :: "('a lr_env_scheme) \<Rightarrow> PRODUCTION_S \<Rightarrow> ('a lr_env_scheme) \<Rightarrow> bool" where
  "linv g s e \<longleftrightarrow> machine g s e \<and> (\<forall>n<length (lr_states e). st_ok g e n)"

lemma get_unfinished_frame:
  assumes "get_unfinished e = Some (n, e')"
  obtains t a where "e' = e\<lparr>unfinished := t, available := a\<rparr>"
  using assms by (auto simp: get_unfinished_def split: option.splits)

lemma next_state:
  assumes inv: "linv g s e" and get: "get_unfinished e = Some (n, e1)"
  shows "machine g s e1" and "n < length (lr_states e1)" and "n \<notin> pending_states e1" and "st_work g e1 n"
    and "\<forall>m<length (lr_states e1). m \<noteq> n \<longrightarrow> st_ok g e1 m"
    and "machine_pot g e1 = machine_pot g e" and "card (pending_states e1) < card (pending_states e)"
proof -
  have mc: "machine g s e" and ok: "\<forall>m<length (lr_states e). st_ok g e m" using inv by (simp_all add: linv_def)
  have tree: "tree_inv e" using mc by (simp add: machine_def)
  have t: "tree_inv e1" "n \<in> pending_states e" "pending_states e1 = pending_states e - {n}"
    using wl.get_some [OF tree get] by simp_all
  obtain u a where e1: "e1 = e\<lparr>unfinished := u, available := a\<rparr>" using get_unfinished_frame [OF get] .
  have n: "n < length (lr_states e)" using mc t(2) by (auto simp: machine_def)
  then show "n < length (lr_states e1)" by (simp add: e1)
  show "n \<notin> pending_states e1" by (simp add: t(3))
  show "machine g s e1" using mc t(1,3) unfolding machine_defs by (auto simp: e1)
  show "machine_pot g e1 = machine_pot g e" by (rule machine_pot_same) (simp add: e1)
  show "card (pending_states e1) < card (pending_states e)" using wl.get_shrinks [OF tree get] .
  have same: "same_gram e e1" "length (lr_states e1) = length (lr_states e)" "key_of e1 = key_of e" "kern_of e1 = kern_of e"
    "actions e1 = actions e" "gotos e1 = gotos e" "lr_states e1 = lr_states e"
    by (simp_all add: e1 same_gram_def fun_eq_iff key_of_def kern_of_def)
  show "\<forall>m<length (lr_states e1). m \<noteq> n \<longrightarrow> st_ok g e1 m"
  proof (intro allI impI)
    fix m assume "m < length (lr_states e1)" "m \<noteq> n"
    then show "st_ok g e1 m" using ok by (intro st_ok_frame [of g e m e1]) (simp_all add: same t(3))
  qed
  have tr: "trans_on e1 n x = trans_on e n x" for x using same(1) by (rule trans_on_other) (simp_all add: same)
  have "st_core g e1 n" if "st_core g e n"
    using that by (rule st_core_grown) (simp_all add: same tr n)
  moreover have "st_ok g e n" using ok n by simp
  ultimately show "st_work g e1 n"
    using t(2) by (auto simp: st_work_def st_ok_def same split: if_splits)
qed

lemma lr_loop_effect:
  assumes gram: "lr_gram g" "first_range g" and st: "start_ok g s"
  shows "linv g s e \<Longrightarrow> lr_loop e = Some fatal \<or>
    (\<exists>e'. lr_loop e = Some (Inr (free_recycled_items e')) \<and> linv g s e' \<and> pending_states e' = {})"
proof (induction "(machine_pot g e, card (pending_states e))" arbitrary: e
    rule: wf_induct_rule [OF wf_lex_prod [OF wf_less_than wf_less_than]])
  case (1 e)
  show ?case
  proof (cases "get_unfinished e")
    case None
    then have "lr_loop e = Some (Inr (free_recycled_items e))" by (simp add: lr_loop.simps)
    then show ?thesis using 1(2) None by (auto simp: get_unfinished_none)
  next
    case (Some p)
    then obtain n e1 where get: "get_unfinished e = Some (n, e1)" by (cases p) auto
    note ns = next_state [OF 1(2) get]
    have "work_result g s e1 (lr_state n e1)" using lr_state_effect [OF gram st ns(1-5)] .
    then consider "lr_state n e1 = Some fatal"
      | e2 where "lr_state n e1 = Some (Inr e2)" "linv g s e2" "machine_pot g e2 \<le> machine_pot g e1"
          "pending_states e2 = pending_states e1 \<or> machine_pot g e2 < machine_pot g e1"
      by (auto simp: work_result_def linv_def)
    then show ?thesis
    proof cases
      case 1
      then show ?thesis by (simp add: lr_loop.simps [of e] get fatal_def)
    next
      case e2: 2
      have "((machine_pot g e2, card (pending_states e2)), machine_pot g e, card (pending_states e)) \<in> less_than <*lex*> less_than"
        using e2(3,4) ns(6,7) by auto
      from 1(1) [OF this e2(2)] show ?thesis by (simp add: lr_loop.simps [of e] get e2(1))
    qed
  qed
qed

section \<open>The start state\<close>

definition fresh_lr :: "('a lr_env_scheme) \<Rightarrow> bool" where
  "fresh_lr e \<longleftrightarrow> lr_states e = [] \<and> unfinished e = Leaf \<and> available e = next_alloc_tnode e \<and>
     next_alloc_tnode e \<le> MAXUNFINISHED \<and> recycled_ok e \<and> (\<forall>n. actions e n = [] \<and> gotos e n = [])"

definition start_prod :: "('a parser_env_scheme) \<Rightarrow> PRODUCTION_S option" where
  "start_prod e =
     (case g_goal_symbol e of
        None \<Rightarrow> None
      | Some x \<Rightarrow> (case productions (symb e x) of [p] \<Rightarrow> Some p | _ \<Rightarrow> None))"

lemma start_item:
  assumes "item_ok g it" and "prod it = s" and "dot_posn it = 0" and "members (lookaheads it) = {}" and "start_ok g s"
  defines "k \<equiv> it\<lparr>lookaheads := SET_ADD (lookaheads it) EOI\<rparr>"
  shows "item_ok g k" and "pd k = (s, 0)" and "rep_item k = {(s, 0, None), (s, 0, Some EOI)}" and "kern_ok g s [k]"
proof -
  have legal: "legal_bit EOI" by (simp add: legal_bit_def EOI_def)
  then have la: "set_plain (lookaheads k)" "members (lookaheads k) = {EOI}"
    using assms(1,4) by (simp_all add: k_def item_ok_def)
  then show ok: "item_ok g k" using assms(1) by (simp add: item_ok_def k_def) (simp add: EOI_def)
  show pd: "pd k = (s, 0)" using assms(2,3) by (simp add: pd_def k_def)
  have "prod k = s" "dot_posn k = 0" using assms(2,3) by (simp_all add: k_def)
  then show rep: "rep_item k = {(s, 0, None), (s, 0, Some EOI)}" by (auto simp: rep_item_def la(2))
  have "{(s, 0, None), (s, 0, Some EOI)} \<subseteq> marks_of g s {(s, 0)}"
    by (auto simp: marks_of_def intro: lalr.start)
  then show "kern_ok g s [k]" using ok by (simp add: kern_ok_def pd rep MAXKERNEL_def)
qed

lemma start_state:
  assumes gram: "lr_gram g" and same: "same_gram g e" and fresh: "fresh_lr e"
    and tab: "tab_inv state_hash (states_hashtab e) []" and it: "item_ok g it" "prod it = s" "dot_posn it = 0"
    "members (lookaheads it) = {}" and st: "start_ok g s"
  obtains e2 e3 where "newstate [it\<lparr>lookaheads := SET_ADD (lookaheads it) EOI\<rparr>] e = Some (Inr (NEW, 0, e2))"
    "add_unfinished 0 e2 = Inr e3" "linv g s e3"
    "lr_states e3 = [\<lparr>kernel_items = [it\<lparr>lookaheads := SET_ADD (lookaheads it) EOI\<rparr>], epsilon_items = [], closed = False\<rparr>]"
    "pending_states e3 = {0}"
proof -
  let ?k = "it\<lparr>lookaheads := SET_ADD (lookaheads it) EOI\<rparr>"
  note k = start_item [OF it st]
  have none: "lr_states e = []" using fresh by (simp add: fresh_lr_def)
  have tok: "table_ok e" using tab by (auto simp: table_ok_def none intro!: exI [of _ "[]"])
  have kok: "kernels_ok e" by (simp add: kernels_ok_def none)
  have item: "\<forall>i\<in>set [?k]. item_ok e i" using k(1) same_gram_items [OF same] by simp
  have gram': "lr_gram e" using gram same_gram_ok [OF same] by simp
  from gram' item tok kok obtain e2 h where
    2: "newstate [?k] e = Some (Inr (NEW, 0, e2))" "table_ok e2"
    "e2 = e\<lparr>lr_states := [\<lparr>kernel_items = [?k], epsilon_items = [], closed = False\<rparr>], states_hashtab := h\<rparr>"
  proof (cases rule: newstate_effect)
    case full
    then show ?thesis
      by (simp add: newstate_def fatal_def MAXKERNEL_def MAXSTATE_def none Let_def split: option.splits)
  next
    case (old n)
    then show ?thesis by (simp add: none)
  next
    case (new e' h)
    then show ?thesis using that by (simp add: none)
  qed
  have tree: "tree_inv e2" "pending_states e2 = {}"
    using fresh by (simp_all add: 2(3) tree_inv_def fresh_lr_def pending_states_def)
  then obtain e3 where 3: "add_unfinished 0 e2 = Inr e3"
    using wl.add_fails [OF tree(1), of 0] by (cases "add_unfinished 0 e2") (auto simp: MAXUNFINISHED_def)
  have t3: "tree_inv e3" "pending_states e3 = {0}" using wl.add_ok [OF tree(1) 3] tree(2) by auto
  obtain a u c where e3: "e3 = e2\<lparr>available := a, unfinished := u, next_alloc_tnode := c\<rparr>"
    using add_unfinished_frame [OF 3] .
  have acts: "actions e3 n = []" "gotos e3 n = []" for n using fresh by (simp_all add: e3 2(3) fresh_lr_def)
  have states: "lr_states e3 = [\<lparr>kernel_items = [?k], epsilon_items = [], closed = False\<rparr>]" by (simp add: e3 2(3))
  have "kern_of e3 0 = {(s, 0, None), (s, 0, Some EOI)}" "key_of e3 0 = [(s, 0)]"
    using k(2,3) by (simp_all add: kern_of_def key_of_def states)
  moreover have "same_gram g e3" using same by (simp add: e3 2(3) same_gram_def)
  moreover have "recycled_ok e3" using fresh by (simp add: e3 2(3) fresh_lr_def recycled_ok_def)
  moreover have "table_ok e3" using 2(2) by (simp add: e3 table_ok_def)
  ultimately have "machine g s e3"
    using t3 acts k(4) by (simp add: machine_def states MAXSTATE_def)
  then have "linv g s e3" using acts t3(2) by (simp add: linv_def st_ok_def states)
  with 2(1) 3 show thesis using states t3(2) by (rule that)
qed

lemma finite_new_core:
  assumes "gram_ok g" and "\<forall>(p, d)\<in>C. p \<in> prods g"
  shows "finite (new_core g C)"
proof -
  have "new_core g C \<subseteq> (\<lambda>p. (p, 0)) ` prods g"
  proof
    fix m assume "m \<in> new_core g C"
    then obtain q where q: "m = (q, 0)" "(q, 0) \<in> core (clos g (bare C))"
      unfolding core_clos_bare by (auto simp: new_core_def core_new_marks)
    have "\<forall>(p, d, u)\<in>bare C. p \<in> prods g" using assms(2) by (auto simp: bare_def)
    moreover obtain u where "(q, 0, u) \<in> clos g (bare C)" using q(2) by (auto simp: core_def)
    ultimately have "q \<in> prods g" by (rule clos_prods [OF assms(1)])
    then show "m \<in> (\<lambda>p. (p, 0)) ` prods g" by (simp add: q(1))
  qed
  moreover have "finite (prods g)" by (simp add: prods_def)
  ultimately show ?thesis by (meson finite_imageI finite_subset)
qed

section \<open>The machine that is left\<close>

lemma set_next_key:
  assumes "finite (new_core g (set ks))"
  shows "set_mset (next_key g ks x) = go_core g (set ks) x"
  using assms by (auto simp: next_key_def go_core_def core_go core_clos_bare)

text \<open>A state of the machine: its items without lookaheads, and its items.\<close>

definition core_of :: "('a lr_env_scheme) \<Rightarrow> nat \<Rightarrow> (PRODUCTION_S \<times> nat) set" where
  "core_of e n = core (kern_of e n)"

definition lalr_states :: "('a lr_env_scheme) \<Rightarrow> PRODUCTION_S \<Rightarrow> ('a lr_env_scheme) \<Rightarrow> bool" where
  "lalr_states g s e \<longleftrightarrow>
     inj_on (core_of e) {..<length (lr_states e)} \<and>
     core_of e ` {..<length (lr_states e)} = {C. marks_of g s C \<noteq> {}} \<and>
     (\<forall>n<length (lr_states e).
        clos g (kern_of e n) = marks_of g s (core_of e n) \<and>
        rep_items (epsilon_items (lr_states e ! n)) = eps_marks g (kern_of e n))"

text \<open>\<open>j\<close> is the answer to the search for the next state of \<open>n\<close> on \<open>x\<close>.\<close>

definition leads_to :: "('a lr_env_scheme) \<Rightarrow> ('a lr_env_scheme) \<Rightarrow> nat \<Rightarrow> nat \<Rightarrow> int option \<Rightarrow> bool" where
  "leads_to g e n x j \<longleftrightarrow>
     (case j of
        None \<Rightarrow> go_core g (core_of e n) x = {}
      | Some k \<Rightarrow> \<exists>m<length (lr_states e). k = int m \<and> core_of e m = go_core g (core_of e n) x)"

lemma linv_state:
  assumes gram: "lr_gram g" and inv: "linv g s e" and none: "pending_states e = {}" and n: "n < length (lr_states e)"
  shows "core_of e n = set (key_of e n)" and "kern_of e n \<subseteq> marks_of g s (core_of e n)" and "core_of e n \<noteq> {}"
    and "rep_items (epsilon_items (lr_states e ! n)) = eps_marks g (kern_of e n)"
    and "x \<in> set (syms g) \<Longrightarrow> case trans_on e n x of
             None \<Rightarrow> go_core g (core_of e n) x = {}
           | Some j \<Rightarrow> \<exists>m<length (lr_states e). j = int m \<and> core_of e m = go_core g (core_of e n) x \<and>
               go (clos g (kern_of e n)) x \<subseteq> kern_of e m"
    and "(p, d, u) \<in> clos g (kern_of e n) \<Longrightarrow> p \<in> prods g"
proof -
  have mc: "machine g s e" and ok: "\<forall>m<length (lr_states e). st_ok g e m" using inv by (simp_all add: linv_def)
  have gok: "gram_ok g" using gram by (simp add: lr_gram_def)
  have kern: "kern_ok g s (kernel_items (lr_states e ! m))" if "m < length (lr_states e)" for m
    using machine_frame(5) [OF mc that] .
  have core: "core_of e m = set (key_of e m)" for m by (simp add: core_of_def core_kern)
  then show "core_of e n = set (key_of e n)" .
  show "kern_of e n \<subseteq> marks_of g s (core_of e n)"
    using kern [OF n] unfolding core by (simp add: kern_ok_def kern_of_def key_of_def)
  show "core_of e n \<noteq> {}" using kern [OF n] unfolding core by (simp add: kern_ok_def key_of_def)
  have st: "st_core g e n" "st_full g e n (kern_of e n)"
    using ok n none by (auto simp: st_ok_def split: if_splits)
  then show "rep_items (epsilon_items (lr_states e ! n)) = eps_marks g (kern_of e n)" by (simp add: st_full_def)
  have prods: "\<forall>(p, d, u)\<in>kern_of e n. p \<in> prods g"
    using kern [OF n] by (auto simp: kern_ok_def kern_of_def item_ok_def rep_items_iff rep_item_iff)
  then show "(p, d, u) \<in> clos g (kern_of e n) \<Longrightarrow> p \<in> prods g" by (rule clos_prods [OF gok])
  have "\<forall>(p, d)\<in>set (key_of e n). p \<in> prods g"
    using prods unfolding core_kern [symmetric] by (auto simp: core_def)
  then have fin: "finite (new_core g (set (key_of e n)))" by (rule finite_new_core [OF gok])
  show "case trans_on e n x of
             None \<Rightarrow> go_core g (core_of e n) x = {}
           | Some j \<Rightarrow> \<exists>m<length (lr_states e). j = int m \<and> core_of e m = go_core g (core_of e n) x \<and>
               go (clos g (kern_of e n)) x \<subseteq> kern_of e m" if x: "x \<in> set (syms g)"
  proof (cases "trans_on e n x")
    case None
    then have "next_key g (key_of e n) x = {#}" using st(1) x by (fastforce simp: st_core_def)
    then show ?thesis using set_next_key [OF fin, of x] by (simp add: None core)
  next
    case (Some j)
    then obtain m where m: "m < length (lr_states e)" "j = int m" "mset (key_of e m) = next_key g (key_of e n) x"
      using st(1) x by (fastforce simp: st_core_def)
    have "core_of e m = go_core g (core_of e n) x"
      using set_next_key [OF fin, of x] m(3) unfolding core by (metis set_mset_mset)
    moreover have "go (clos g (kern_of e n)) x \<subseteq> kern_of e m"
      using st(2) x Some m(2) by (simp add: st_full_def)
    ultimately show ?thesis using m(1,2) Some by auto
  qed
qed

lemma core_of_inj:
  assumes gram: "lr_gram g" and mc: "machine g s e"
  shows "inj_on (core_of e) {..<length (lr_states e)}"
proof (rule inj_onI)
  fix i j assume i: "i \<in> {..<length (lr_states e)}" and j: "j \<in> {..<length (lr_states e)}"
    and eq: "core_of e i = core_of e j"
  have ki: "kern_ok g s (kernel_items (lr_states e ! i))" and kj: "kern_ok g s (kernel_items (lr_states e ! j))"
    using machine_frame(5) [OF mc] i j by simp_all
  have "set (key_of e i) = set (key_of e j)" using eq by (simp add: core_of_def core_kern)
  moreover have "distinct (key_of e i)" "distinct (key_of e j)"
    using ki kj by (simp_all only: kern_ok_def key_of_def)
  ultimately have "mset (map pd (kernel_items (lr_states e ! i))) = mset (map pd (kernel_items (lr_states e ! j)))"
    unfolding key_of_def by (simp only: set_eq_iff_mset_eq_distinct)
  then have "key_of e i = key_of e j"
    using ki kj unfolding key_of_def kern_ok_def by (intro key_unique [OF gram]) blast+
  moreover have "\<forall>j<length (lr_states e). \<forall>i<j. key_of e i \<noteq> key_of e j" using mc by (simp add: machine_def)
  ultimately show "i = j" using i j by (metis lessThan_iff nat_neq_iff)
qed

text \<open>The machine is complete: what the states hold is closed under the rules of \<open>lalr\<close>.\<close>

definition held :: "('a lr_env_scheme) \<Rightarrow> ('a lr_env_scheme) \<Rightarrow> (PRODUCTION_S \<times> nat) set \<Rightarrow> mark set" where
  "held g e C = {m. \<exists>n<length (lr_states e). core_of e n = C \<and> m \<in> clos g (kern_of e n)}"

lemma machine_complete:
  assumes gram: "lr_gram g" and inv: "linv g s e" and none: "pending_states e = {}"
  shows "marks_of g s C \<subseteq> held g e C"
proof (rule lalr_complete)
  note ls = linv_state [OF gram inv none]
  have mc: "machine g s e" using inv by (simp add: linv_def)
  have gok: "gram_ok g" using gram by (simp add: lr_gram_def)
  show "(s, 0, u) \<in> held g e {(s, 0)}" if u: "u = None \<or> u = Some EOI" for u
  proof -
    have 0: "0 < length (lr_states e)" "core_of e 0 = {(s, 0)}" "(s, 0, Some EOI) \<in> kern_of e 0"
      using mc by (auto simp: machine_def core_of_def core_kern)
    then obtain it where it: "it \<in> set (kernel_items (lr_states e ! 0))" "(s, 0, Some EOI) \<in> rep_item it"
      by (auto simp: kern_of_def rep_items_iff)
    then have "(s, 0, None) \<in> rep_item it" by (simp add: rep_item_iff)
    then have "(s, 0, None) \<in> kern_of e 0" using it(1) by (auto simp: kern_of_def rep_items_iff)
    then have "(s, 0, u) \<in> clos g (kern_of e 0)" using u 0(3) by (auto intro: clos.base)
    then show ?thesis using 0(1,2) unfolding held_def by blast
  qed
  show "new_marks g (held g e C) \<subseteq> held g e C" for C
  proof
    fix m assume "m \<in> new_marks g (held g e C)"
    then obtain q w p d u n where m: "m = (q, 0, w)" "closes g p d q" "gives g p d u w"
      and n: "n < length (lr_states e)" "core_of e n = C" "(p, d, u) \<in> clos g (kern_of e n)"
      unfolding new_marks_def held_def by blast
    have "m \<in> clos g (kern_of e n)" unfolding m(1) using n(3) m(2,3) by (rule clos.step)
    then show "m \<in> held g e C" using n(1,2) unfolding held_def by blast
  qed
  show "go (held g e C) x \<subseteq> held g e (go_core g C x)" for C x
  proof
    fix m assume "m \<in> go (held g e C) x"
    then obtain p d u n where m: "m = (p, Suc d, u)" "rhs_at p d = Some x"
      and n: "n < length (lr_states e)" "core_of e n = C" "(p, d, u) \<in> clos g (kern_of e n)"
      unfolding go_def held_def by blast
    have "p \<in> prods g" using ls(6) [OF n(1,3)] .
    moreover have "x \<in> set (rhs p)" using m(2) by (auto simp: rhs_at_def split: if_splits)
    ultimately have x: "x \<in> set (syms g)" using gok by (auto simp: prods_def gram_ok_def prod_ok_def)
    have mgo: "m \<in> go (clos g (kern_of e n)) x" using m n(3) by (auto simp: go_def)
    then have "(p, Suc d) \<in> go_core g (core_of e n) x"
      using m(1) unfolding core_of_def go_core_clos [symmetric] by (auto simp: core_def)
    then obtain k where "k < length (lr_states e)" "core_of e k = go_core g C x" "go (clos g (kern_of e n)) x \<subseteq> kern_of e k"
      using ls(5) [OF n(1) x] n(2) by (cases "trans_on e n x") auto
    with mgo show "m \<in> held g e (go_core g C x)" unfolding held_def by (blast intro: clos.base)
  qed
qed

lemma linv_lalr_states:
  assumes gram: "lr_gram g" and inv: "linv g s e" and none: "pending_states e = {}"
  shows "lalr_states g s e"
proof -
  note ls = linv_state [OF gram inv none]
  have mc: "machine g s e" using inv by (simp add: linv_def)
  note inj = core_of_inj [OF gram mc]
  note full = machine_complete [OF gram inv none]
  have "core_of e ` {..<length (lr_states e)} = {C. marks_of g s C \<noteq> {}}"
  proof
    show "core_of e ` {..<length (lr_states e)} \<subseteq> {C. marks_of g s C \<noteq> {}}"
    proof
      fix C assume "C \<in> core_of e ` {..<length (lr_states e)}"
      then obtain n where n: "n < length (lr_states e)" "C = core_of e n" by blast
      then have "kern_of e n \<noteq> {}" using ls(3) [OF n(1)] by (auto simp: core_of_def)
      then show "C \<in> {C. marks_of g s C \<noteq> {}}" using ls(2) [OF n(1)] n(2) by blast
    qed
    show "{C. marks_of g s C \<noteq> {}} \<subseteq> core_of e ` {..<length (lr_states e)}"
      using full unfolding held_def by blast
  qed
  moreover have "clos g (kern_of e n) = marks_of g s (core_of e n)" if n: "n < length (lr_states e)" for n
  proof
    show "clos g (kern_of e n) \<subseteq> marks_of g s (core_of e n)" using clos_marks_of [OF ls(2) [OF n]] .
    show "marks_of g s (core_of e n) \<subseteq> clos g (kern_of e n)"
    proof
      fix m assume "m \<in> marks_of g s (core_of e n)"
      then obtain k where "k < length (lr_states e)" "core_of e k = core_of e n" "m \<in> clos g (kern_of e k)"
        using full [of "core_of e n"] unfolding held_def by blast
      then show "m \<in> clos g (kern_of e n)" using inj n by (auto dest: inj_onD)
    qed
  qed
  ultimately show ?thesis using inj ls(4) by (simp add: lalr_states_def)
qed

lemma linv_leads_to:
  assumes "lr_gram g" and "linv g s e" and "pending_states e = {}" and "n < length (lr_states e)" and "x \<in> set (syms g)"
  shows "leads_to g e n x (trans_on e n x)"
  using linv_state(5) [OF assms] by (auto simp: leads_to_def split: option.splits)

end
