(* ===== verification/LrReduce.thy ===== *)
theory LrReduce
  imports Lr LrTree
begin

text \<open>
  The reductions of the LALR(1) machine (\<open>reduce_one_item\<close>, \<open>add_reductions\<close> and \<open>reductions\<close>
  of \<open>src/compiler/parser/yystate.c\<close>): which action a state has for a token when several are
  possible.
\<close>

section \<open>The action of a state for a token\<close>

definition entry :: "('a lr_env_scheme) \<Rightarrow> nat \<Rightarrow> nat \<Rightarrow> int option" where
  "entry e n t = map_option do_this (p_action e n t)"

text \<open>The item wins against a shift of the token.\<close>

definition beats :: "('a lr_env_scheme) \<Rightarrow> nat \<Rightarrow> ITEM_S \<Rightarrow> bool" where
  "beats e t it \<longleftrightarrow>
     prec (prod it) \<noteq> 0 \<and> level (g_precedence e t) \<noteq> 0 \<and>
     (level (g_precedence e t) < prec (prod it) \<or>
      level (g_precedence e t) = prec (prod it) \<and> assoc (g_precedence e t) \<noteq> 114)"

definition decide :: "('a lr_env_scheme) \<Rightarrow> nat \<Rightarrow> ITEM_S \<Rightarrow> int option \<Rightarrow> int option" where
  "decide e t it old =
     (case old of
        None \<Rightarrow> Some (- int (prod_num it))
      | Some a \<Rightarrow>
          if a \<le> 0 then Some (- min (- a) (int (prod_num it)))
          else if beats e t it then Some (- int (prod_num it)) else Some a)"

lemma find_set_do_this:
  "find_act (set_do_this as s x) u =
     (if u = s then map_option (\<lambda>a. a\<lparr>do_this := x\<rparr>) (find_act as s) else find_act as u)"
  by (induction as) auto

lemma reduce_token_entry:
  "entry (reduce_token v n it t e) m u = (if m = n \<and> u = t then decide e t it (entry e n t) else entry e m u)"
  by (auto simp: reduce_token_def entry_def p_action_def decide_def beats_def add_action_def Let_def
      find_set_do_this split: option.splits)

lemma reduce_token_frame [simp]:
  "lr_states (reduce_token v n it t e) = lr_states e" "g_precedence (reduce_token v n it t e) = g_precedence e"
  by (simp_all add: reduce_token_def add_action_def Let_def split: option.split)

lemma beats_cong: "g_precedence e' = g_precedence e \<Longrightarrow> decide e' = decide e"
  by (simp add: fun_eq_iff decide_def beats_def split: option.split)

lemma reduce_tokens_entry:
  "distinct ts \<Longrightarrow> entry (reduce_tokens v n it (map int ts) e) m u =
     (if m = n \<and> u \<in> set ts then decide e u it (entry e n u) else entry e m u)"
proof (induction ts arbitrary: e)
  case (Cons t ts)
  then show ?case by (auto simp: reduce_token_entry beats_cong [OF reduce_token_frame(2)])
qed simp

lemma reduce_tokens_frame [simp]:
  "lr_states (reduce_tokens v n it ts e) = lr_states e" "g_precedence (reduce_tokens v n it ts e) = g_precedence e"
  by (induction ts arbitrary: e) simp_all

section \<open>All items of a state\<close>

text \<open>The tokens of an item, which \<open>set_next_member\<close> delivers as far as they are an \<open>int\<close>.\<close>

definition reduces_on :: "nat \<Rightarrow> ITEM_S \<Rightarrow> bool" where
  "reduces_on t it \<longleftrightarrow> right_of_dot it = None \<and> t \<in> members (lookaheads it) \<and> t < 2 ^ 31"

lemma reduce_one_item_entry:
  assumes "set_plain (lookaheads it)"
  shows "entry (reduce_one_item v n it e) m t =
    (if m = n \<and> reduces_on t it then decide e t it (entry e n t) else entry e m t)"
proof -
  have "fst (drain 0 (lookaheads it) iter_init) = map int (set_elems (lookaheads it))"
    and "distinct (set_elems (lookaheads it))" and "set (set_elems (lookaheads it)) = {t \<in> members (lookaheads it). t < 2 ^ 31}"
    using assms drain_set_elems [of iter_init 0 "lookaheads it"]
    by (simp_all add: set_plain_def distinct_set_elems iter_init_def)
  then show ?thesis
    by (auto simp: reduce_one_item_def reduces_on_def reduce_tokens_entry)
qed

lemma reduce_one_item_frame [simp]:
  "lr_states (reduce_one_item v n it e) = lr_states e" "g_precedence (reduce_one_item v n it e) = g_precedence e"
  by (simp_all add: reduce_one_item_def)

lemma reduce_items_entry:
  "\<forall>it\<in>set its. set_plain (lookaheads it) \<Longrightarrow>
     entry (fold (reduce_one_item v n) its e) m t =
       (if m = n then fold (decide e t) (filter (reduces_on t) its) (entry e n t) else entry e m t) \<and>
     lr_states (fold (reduce_one_item v n) its e) = lr_states e \<and>
     g_precedence (fold (reduce_one_item v n) its e) = g_precedence e"
proof (induction its arbitrary: e)
  case (Cons it its)
  then show ?case
    using Cons.IH [of "reduce_one_item v n it e"]
    by (auto simp: reduce_one_item_entry beats_cong [OF reduce_one_item_frame(2)])
qed simp

definition state_items :: "STATE_S \<Rightarrow> ITEM_S list" where
  "state_items s = kernel_items s @ epsilon_items s"

definition sets_plain :: "('a lr_env_scheme) \<Rightarrow> bool" where
  "sets_plain e \<longleftrightarrow> (\<forall>s\<in>set (lr_states e). \<forall>it\<in>set (state_items s). set_plain (lookaheads it))"

lemma add_reductions_fold:
  "add_reductions v n e = fold (reduce_one_item v n) (state_items (lr_states e ! n)) e"
proof -
  have "lr_states (fold (reduce_one_item v n) its e) = lr_states e" for its
    by (induction its arbitrary: e) simp_all
  then show ?thesis by (simp add: add_reductions_def state_items_def)
qed

lemma reductions_entry:
  assumes "sets_plain e"
  shows "k \<le> length (lr_states e) \<Longrightarrow>
    entry (fold (add_reductions v) [0..<k] e) m t =
      (if m < k then fold (decide e t) (filter (reduces_on t) (state_items (lr_states e ! m))) (entry e m t)
       else entry e m t) \<and>
    lr_states (fold (add_reductions v) [0..<k] e) = lr_states e \<and>
    g_precedence (fold (add_reductions v) [0..<k] e) = g_precedence e"
proof (induction k)
  case (Suc k)
  let ?e = "fold (add_reductions v) [0..<k] e"
  have e: "lr_states ?e = lr_states e" "g_precedence ?e = g_precedence e"
    and entries: "entry ?e m t = (if m < k
      then fold (decide e t) (filter (reduces_on t) (state_items (lr_states e ! m))) (entry e m t)
      else entry e m t)"
    using Suc by simp_all
  have "\<forall>it\<in>set (state_items (lr_states ?e ! k)). set_plain (lookaheads it)"
    using assms Suc.prems nth_mem [of k "lr_states e"] by (auto simp: e sets_plain_def)
  from reduce_items_entry [OF this, where e = ?e and v = v and n = k and m = m and t = t] e entries
  have "entry (add_reductions v k ?e) m t =
      (if m = k then fold (decide e t) (filter (reduces_on t) (state_items (lr_states e ! k))) (entry ?e k t)
       else entry ?e m t) \<and>
    lr_states (add_reductions v k ?e) = lr_states e \<and> g_precedence (add_reductions v k ?e) = g_precedence e"
    by (simp only: add_reductions_fold beats_cong [OF e(2)] e)
  then show ?case using Suc e entries by (auto simp: less_Suc_eq)
qed simp

section \<open>What is chosen\<close>

definition nums :: "ITEM_S list \<Rightarrow> int list" where
  "nums its = map (\<lambda>it. int (prod_num it)) its"

text \<open>
  The action that results from the action \<open>old\<close> for shifting and the items that reduce, in
  the order of the state: without a shift the lowest production, with a shift the shift, or
  the lowest production from the first item on that beats the shift.
\<close>

definition chosen :: "('a lr_env_scheme) \<Rightarrow> nat \<Rightarrow> int option \<Rightarrow> ITEM_S list \<Rightarrow> int option" where
  "chosen e t old its =
     (let wins = (if old = None then its else dropWhile (\<lambda>it. \<not> beats e t it) its)
      in if wins = [] then old else Some (- Min (set (nums wins))))"

lemma decide_reduces:
  "fold (decide e t) its (Some (- int p)) = Some (- Min (insert (int p) (set (nums its))))"
proof (induction its arbitrary: p)
  case (Cons it its)
  have "decide e t it (Some (- int p)) = Some (- int (min p (prod_num it)))"
    by (simp add: decide_def of_nat_min)
  then have "fold (decide e t) (it # its) (Some (- int p)) =
      Some (- Min (insert (min (int p) (int (prod_num it))) (set (nums its))))"
    using Cons.IH [of "min p (prod_num it)"] by (simp add: of_nat_min)
  also have "Min (insert (min (int p) (int (prod_num it))) (set (nums its))) =
      Min (insert (int p) (set (nums (it # its))))"
    by (cases "its = []") (simp_all add: nums_def min.assoc)
  finally show ?case .
qed (simp add: nums_def)

lemma fold_decide: "(case old of None \<Rightarrow> True | Some a \<Rightarrow> 0 < a) \<Longrightarrow> fold (decide e t) its old = chosen e t old its"
proof (induction its)
  case (Cons it its)
  have first: "decide e t it old = Some (- int (prod_num it))" if "old = None \<or> beats e t it"
    using that Cons.prems by (auto simp: decide_def split: option.splits)
  show ?case
  proof (cases "old = None \<or> beats e t it")
    case True
    then show ?thesis using first decide_reduces [of e t its "prod_num it"]
      by (auto simp: chosen_def nums_def)
  next
    case False
    then have "decide e t it old = old" using Cons.prems by (auto simp: decide_def split: option.splits)
    moreover have "fold (decide e t) its old = chosen e t old its" using Cons by simp
    ultimately show ?thesis using False by (auto simp: chosen_def)
  qed
qed (simp add: chosen_def)

lemma reductions_resolve:
  assumes "sets_plain e" and "n < length (lr_states e)"
    and "case entry e n t of None \<Rightarrow> True | Some a \<Rightarrow> 0 < a"
  shows "entry (reductions v e) n t =
    chosen e t (entry e n t) (filter (reduces_on t) (state_items (lr_states e ! n)))"
  using reductions_entry [OF assms(1), of "length (lr_states e)" v n t] assms(2) fold_decide [OF assms(3)]
  by (simp add: reductions_def)

lemma chosen_cases:
  assumes "chosen e t old its = r"
  obtains "old = None" "its = []" "r = None"
    | a where "old = Some a" "r = Some a"
    | it where "it \<in> set its" "r = Some (- int (prod_num it))"
proof -
  let ?wins = "if old = None then its else dropWhile (\<lambda>it. \<not> beats e t it) its"
  show thesis
  proof (cases "?wins = []")
    case True
    then have "r = old" using assms by (simp add: chosen_def)
    then show thesis using True that(1,2) by (cases old) auto
  next
    case False
    then have r: "r = Some (- Min (set (nums ?wins)))" using assms by (simp add: chosen_def Let_def)
    have "Min (set (nums ?wins)) \<in> set (nums ?wins)" using False by (intro Min_in) (auto simp: nums_def)
    then obtain it where it: "it \<in> set ?wins" "Min (set (nums ?wins)) = int (prod_num it)" by (auto simp: nums_def)
    have "it \<in> set its" using it(1) by (auto dest: set_dropWhileD split: if_splits)
    then show thesis using that(3) it(2) r by simp
  qed
qed

text \<open>C6.
  The choice among conflicting actions.  Let every action that the states have so far be a
  shift.  After \<open>reductions\<close> the action of a state for a token is the one that \<open>chosen\<close>
  describes, from the items of the state that are complete and have the token, a number that an
  \<open>int\<close> can hold, as a lookahead:
  of several reductions the one with the lowest production number, and a shift gives way to a
  reduction exactly if token and production have precedences and the token's is lower, or is
  the same and the token is not right-associative.  (So a token that was declared
  non-associative is treated like a left-associative one.)
\<close>

theorem reductions_resolve_conflicts:
  assumes "sets_plain e" and "n < length (lr_states e)"
    and "case entry e n t of None \<Rightarrow> True | Some a \<Rightarrow> 0 < a"
  shows "entry (reductions v e) n t =
    chosen e t (entry e n t) (filter (reduces_on t) (state_items (lr_states e ! n)))"
  using assms by (rule reductions_resolve)

text \<open>A state with two complete items and a shift of the token 1, which both items beat.\<close>

definition demo_item :: "nat \<Rightarrow> ITEM_S" where
  "demo_item n = \<lparr>prod = \<lparr>num = n, rhs = [], lhs = 0, non_acts = 0, select = set_new, prec = 2\<rparr>,
     right_of_dot = None, dot_posn = 0, lookaheads = SET_ADD set_new 1\<rparr>"

definition demo_conflict :: lr_env where
  "demo_conflict = demo_lr\<lparr>g_precedence := \<lambda>t. \<lparr>level = 1, assoc = 108\<rparr>,
     lr_states := [\<lparr>kernel_items = [demo_item 5], epsilon_items = [demo_item 3], closed = True\<rparr>],
     actions := (\<lambda>n. [\<lparr>sym = 1, do_this = 7\<rparr>])\<rparr>"

theorem reductions_resolve_conflicts_witness:
  "entry demo_conflict 0 1 = Some 7 \<and> entry (reductions 0 demo_conflict) 0 1 = Some (- 3)"
proof -
  have plain: "sets_plain demo_conflict"
    by (simp add: sets_plain_def demo_conflict_def demo_item_def state_items_def legal_small_bit)
  have len: "0 < length (lr_states demo_conflict)" by (simp add: demo_conflict_def)
  have shift: "entry demo_conflict 0 1 = Some 7"
    by (simp add: entry_def p_action_def demo_conflict_def)
  have "filter (reduces_on 1) (state_items (lr_states demo_conflict ! 0)) = [demo_item 5, demo_item 3]"
    by (simp add: demo_conflict_def state_items_def reduces_on_def demo_item_def legal_small_bit)
  moreover have "beats demo_conflict 1 (demo_item n)" for n
    by (simp add: beats_def demo_item_def demo_conflict_def)
  ultimately have "chosen demo_conflict 1 (Some 7)
      (filter (reduces_on 1) (state_items (lr_states demo_conflict ! 0))) = Some (- 3)"
    by (simp add: chosen_def nums_def prod_num_def demo_item_def)
  then show ?thesis
    using reductions_resolve_conflicts [OF plain len, of 1 0] shift by simp
qed

end
