(* ===== verification/Lalr.thy ===== *)
theory Lalr
  imports LrRun LrReduce
begin

text \<open>
  The properties of the LALR(1) construction as a whole: \<open>make_parse_tables\<close> of
  \<open>src/compiler/parser/yystate.c\<close> up to the printing, from the grammar with its FIRST sets to the
  action and goto chains.
\<close>

section \<open>The run\<close>

lemma make_machine_start:
  assumes gram: "lr_gram g" and fresh: "fresh_lr g" and s: "start_prod g = Some s" and st: "start_ok g s"
  obtains e k where
    "make_machine v h g = bind_run (lr_loop e) (\<lambda>e'. Some (Inr (reductions v e')))" "linv g s e"
    "lr_states e = [\<lparr>kernel_items = [k], epsilon_items = [], closed = False\<rparr>]" "item_ok g k" "prod k = s" "dot_posn k = 0"
    "pending_states e = {0}"
proof -
  let ?e = "g\<lparr>states_hashtab := hash_make_tab MAXSTATE h\<rparr>"
  obtain x where x: "g_goal_symbol g = Some x" "productions (symb g x) = [s]"
    using s by (auto simp: start_prod_def split: option.splits list.splits)
  have same: "same_gram g ?e" by (simp add: same_gram_def)
  have "recycled_ok ?e" "s \<in> prods ?e"
    using fresh st same_gram_basics [OF same] by (simp_all add: fresh_lr_def recycled_ok_def start_ok_def)
  from newitem_effect [OF this] obtain it e1 where it: "newitem s ?e = (it, e1)" "items_only ?e e1" "item_ok ?e it"
    "prod it = s" "dot_posn it = 0" "members (lookaheads it) = {}" .
  obtain k rs where e1: "e1 = ?e\<lparr>nitems := k, recycled_items := rs\<rparr>" "recycled_ok e1"
    using it(2) by (auto simp: items_only_def)
  have same1: "same_gram g e1" using same_gram_trans [OF same items_only_gram [OF it(2)]] .
  have fresh1: "fresh_lr e1" using fresh e1 by (simp add: fresh_lr_def)
  have tab: "tab_inv state_hash (states_hashtab e1) []" by (simp add: e1(1) make_tab_inv)
  have ok: "item_ok g it" using it(3) same_gram_items [OF same] by simp
  let ?k = "it\<lparr>lookaheads := SET_ADD (lookaheads it) EOI\<rparr>"
  obtain e2 e3 where 2: "newstate [?k] e1 = Some (Inr (NEW, 0, e2))" "add_unfinished 0 e2 = Inr e3" "linv g s e3"
    "lr_states e3 = [\<lparr>kernel_items = [?k], epsilon_items = [], closed = False\<rparr>]" "pending_states e3 = {0}"
    using start_state [OF gram same1 fresh1 tab ok it(4,5,6) st] .
  have "make_machine v h g = bind_run (lr_loop e3) (\<lambda>e4. Some (Inr (reductions v e4)))"
    by (simp add: make_machine_def Let_def x it(1) 2(1,2) lr_def)
  moreover have "item_ok g ?k" using start_item(1) [OF ok it(4,5,6) st] .
  ultimately show thesis using that [of e3 ?k] 2(3-5) it(4,5) by simp
qed

lemma make_machine_effect:
  assumes gram: "lr_gram g" "first_range g" and fresh: "fresh_lr g" and s: "start_prod g = Some s" and st: "start_ok g s"
  shows "make_machine v h g = Some fatal \<or>
    (\<exists>e. make_machine v h g = Some (Inr (reductions v (free_recycled_items e))) \<and> linv g s e \<and> pending_states e = {})"
proof -
  obtain e where e: "make_machine v h g = bind_run (lr_loop e) (\<lambda>e'. Some (Inr (reductions v e')))" "linv g s e"
    using make_machine_start [OF gram(1) fresh s st] by metis
  show ?thesis using lr_loop_effect [OF gram st e(2)] by (auto simp: e(1) fatal_def)
qed

lemma frame_free [simp]:
  "lr_states (free_recycled_items e) = lr_states e" "actions (free_recycled_items e) = actions e"
  "gotos (free_recycled_items e) = gotos e" "g_precedence (free_recycled_items e) = g_precedence e"
  by (simp_all add: free_recycled_items_def)

text \<open>Reductions change the action chains only.\<close>

definition acts_only :: "('a lr_env_scheme) \<Rightarrow> ('a lr_env_scheme) \<Rightarrow> bool" where
  "acts_only e e' \<longleftrightarrow> lr_states e' = lr_states e \<and> gotos e' = gotos e \<and> same_gram e e'"

lemma acts_only_trans: "acts_only e e1 \<Longrightarrow> acts_only e1 e2 \<Longrightarrow> acts_only e e2"
  by (auto simp: acts_only_def intro: same_gram_trans)

lemma acts_only_fold: "(\<And>x e. acts_only e (f x e)) \<Longrightarrow> acts_only e (fold f xs e)"
  by (induction xs arbitrary: e) (auto intro: acts_only_trans simp: acts_only_def same_gram_def)

lemma acts_only_token: "acts_only e (reduce_token v n it t e)"
  by (simp add: acts_only_def same_gram_def reduce_token_def add_action_def Let_def split: option.split)

lemma acts_only_tokens: "acts_only e (reduce_tokens v n it ts e)"
proof (induction ts arbitrary: e)
  case (Cons t ts)
  show ?case using acts_only_trans [OF acts_only_token Cons] by simp
qed (simp add: acts_only_def same_gram_def)

lemma acts_only_reductions: "acts_only e (reductions v e)"
proof -
  have "acts_only e (reduce_one_item v n it e)" for n it e
    by (simp add: reduce_one_item_def acts_only_tokens) (simp add: acts_only_def same_gram_def)
  then have "acts_only e (add_reductions v n e)" for n e
    unfolding add_reductions_fold by (intro acts_only_fold)
  then show ?thesis unfolding reductions_def by (intro acts_only_fold)
qed

section \<open>Actions before and after the reductions\<close>

lemma linv_items:
  assumes inv: "linv g s e" and none: "pending_states e = {}" and n: "n < length (lr_states e)"
    and it: "it \<in> set (state_items (lr_states e ! n))"
  shows "item_ok g it"
proof -
  have mc: "machine g s e" using inv by (simp add: linv_def)
  have "st_core g e n" using inv n none by (auto simp: linv_def st_ok_def split: if_splits)
  then have "\<forall>it\<in>set (epsilon_items (lr_states e ! n)). item_ok g it" by (simp add: st_core_def eps_sorted_def)
  moreover have "\<forall>it\<in>set (kernel_items (lr_states e ! n)). item_ok g it"
    using machine_frame(5) [OF mc n] by (simp add: kern_ok_def)
  ultimately show ?thesis using it by (auto simp: state_items_def)
qed

lemma linv_plain:
  assumes "linv g s e" and "pending_states e = {}"
  shows "sets_plain e"
  using linv_items [OF assms] by (auto simp: sets_plain_def item_ok_def in_set_conv_nth [where xs = "lr_states e"])

lemma complete_item:
  assumes "item_ok g it"
  shows "right_of_dot it = None \<longleftrightarrow> dot_posn it = length (rhs (prod it))"
  using assms by (auto simp: item_ok_def rhs_at_def)

text \<open>The complete items of a state are those of the LALR(1) machine.\<close>

lemma reduces_iff:
  assumes gram: "lr_gram g" and inv: "linv g s e" and none: "pending_states e = {}" and n: "n < length (lr_states e)"
  shows "(\<exists>it\<in>set (state_items (lr_states e ! n)). reduces_on t it \<and> prod it = p) \<longleftrightarrow>
    lalr g s (core_of e n) p (length (rhs p)) (Some t)"
proof -
  let ?K = "kern_of e n" and ?s = "lr_states e ! n"
  have clos: "clos g ?K = marks_of g s (core_of e n)" and eps: "rep_items (epsilon_items ?s) = eps_marks g ?K"
    using linv_lalr_states [OF gram inv none] n by (simp_all add: lalr_states_def)
  have ok: "item_ok g it" if "it \<in> set (state_items ?s)" for it using linv_items [OF inv none n that] .
  have "reduces_on t it \<and> prod it = p \<longleftrightarrow> (p, length (rhs p), Some t) \<in> rep_item it"
    if "it \<in> set (state_items ?s)" for it
  proof -
    have "g_currterm g < 2 ^ 31" using gram by (simp add: lr_gram_def gram_ok_def kind_codes)
    then have "t \<in> members (lookaheads it) \<Longrightarrow> t < 2 ^ 31" using ok [OF that] by (auto simp: item_ok_def)
    then show ?thesis using complete_item [OF ok [OF that]] by (auto simp: reduces_on_def rep_item_iff)
  qed
  then have "(\<exists>it\<in>set (state_items ?s). reduces_on t it \<and> prod it = p) \<longleftrightarrow>
      (\<exists>it\<in>set (state_items ?s). (p, length (rhs p), Some t) \<in> rep_item it)" by blast
  also have "\<dots> \<longleftrightarrow> (p, length (rhs p), Some t) \<in> ?K \<union> eps_marks g ?K"
    unfolding eps [symmetric] by (auto simp: state_items_def kern_of_def rep_items_iff)
  also have "\<dots> \<longleftrightarrow> (p, length (rhs p), Some t) \<in> ?K \<union> new_marks g (clos g ?K)"
    by (auto simp: eps_marks_def new_marks_def)
  also have "\<dots> \<longleftrightarrow> (p, length (rhs p), Some t) \<in> clos g ?K" using clos_unfold [of g ?K] by blast
  also have "\<dots> \<longleftrightarrow> lalr g s (core_of e n) p (length (rhs p)) (Some t)" by (simp add: clos marks_of_def)
  finally show ?thesis .
qed

lemma shift_entry:
  assumes gram: "lr_gram g" and inv: "linv g s e" and none: "pending_states e = {}" and n: "n < length (lr_states e)"
  shows "case entry e n t of
      None \<Rightarrow> \<forall>x\<in>set (syms g). ISTERM g x \<and> val (symb g x) = t \<longrightarrow> go_core g (core_of e n) x = {}
    | Some a \<Rightarrow> 0 < a \<and> (\<exists>x\<in>set (syms g). ISTERM g x \<and> val (symb g x) = t \<and> leads_to g e n x (Some a))"
proof -
  have mc: "machine g s e" using inv by (simp add: linv_def)
  have same: "same_gram g e" using machine_frame(1) [OF mc] .
  have tr: "trans_on e n x = entry e n (val (symb g x))" if "ISTERM g x" for x
    using that same_gram_basics(1) [OF same] same by (simp add: trans_on_def entry_def p_action_def same_gram_def)
  note lead = linv_leads_to [OF gram inv none n]
  show ?thesis
  proof (cases "entry e n t")
    case None
    then show ?thesis using tr lead by (fastforce simp: leads_to_def)
  next
    case (Some a)
    then obtain y where "find_act (actions e n) t = Some y" by (auto simp: entry_def p_action_def)
    moreover have "find_act as t = Some y \<Longrightarrow> y \<in> set as \<and> sym y = t" for as
      by (induction as) (auto split: if_splits)
    ultimately have "y \<in> set (actions e n)" "sym y = t" by blast+
    then have "t \<in> term_nums g" using mc by (auto simp: machine_def)
    then obtain x where x: "x \<in> set (syms g)" "ISTERM g x" "val (symb g x) = t" by (auto simp: term_nums_def)
    then have to: "leads_to g e n x (Some a)" using lead [OF x(1)] tr [OF x(2)] Some by simp
    then obtain m where m: "m < length (lr_states e)" "a = int m" "core_of e m = go_core g (core_of e n) x"
      by (auto simp: leads_to_def)
    have "core_of e 0 = {(s, 0)}" using mc by (simp add: machine_def core_of_def core_kern)
    moreover have "(s, 0) \<notin> go_core g (core_of e n) x" by (auto simp: go_core_def core_go)
    ultimately have "m \<noteq> 0" using m(3) by (metis insertI1)
    then show ?thesis using Some to x m(2) by auto
  qed
qed

section \<open>The whole construction\<close>

text \<open>
  The grammar as it is after the FIRST sets have been made: the limits of the symbol table hold,
  the variables of the file are in their initial state, and the goal symbol has one production,
  which is not used within the grammar.
\<close>

definition lr_input :: "('a lr_env_scheme) \<Rightarrow> PRODUCTION_S \<Rightarrow> bool" where
  "lr_input e s \<longleftrightarrow> lr_gram e \<and> first_range e \<and> fresh_lr e \<and> start_prod e = Some s \<and> start_ok e s"

lemma machine_result:
  assumes input: "lr_input g s" and run: "make_machine v h g = Some (Inr e')"
  obtains e where "e' = reductions v e" "lr_states e' = lr_states e" "gotos e' = gotos e" "same_gram g e'"
    "linv g s e" "pending_states e = {}" "core_of e' = core_of e" "kern_of e' = kern_of e"
proof -
  obtain e0 where e0: "make_machine v h g = Some (Inr (reductions v (free_recycled_items e0)))" "linv g s e0"
    "pending_states e0 = {}"
    using make_machine_effect [of g s v h] input run by (auto simp: lr_input_def fatal_def)
  let ?e = "free_recycled_items e0"
  have free: "?e = e0\<lparr>nitems := nitems e0, recycled_items := []\<rparr>" by (simp add: free_recycled_items_def)
  then have io: "items_only e0 ?e"
    by (intro items_onlyI [where k = "nitems e0" and rs = "[]"]) (simp_all add: recycled_ok_def)
  have pend: "pending_states ?e = {}" using e0(3) by (simp add: free pending_states_def)
  have mc: "machine g s ?e" using machine_items_only [OF _ io] e0(2) by (simp add: linv_def)
  have "st_ok g ?e m" if "m < length (lr_states e0)" for m
    using e0(2) that pend e0(3)
    by (intro st_ok_frame [of g e0 m ?e]) (simp_all add: linv_def items_only_gram [OF io] fun_eq_iff key_of_def kern_of_def)
  then have inv: "linv g s ?e" using mc by (simp add: linv_def)
  have ao: "lr_states e' = lr_states ?e" "gotos e' = gotos ?e" "same_gram ?e e'"
    using acts_only_reductions [of ?e v] e0(1) run by (simp_all add: acts_only_def)
  have "same_gram g e'" using same_gram_trans [OF machine_frame(1) [OF mc] ao(3)] .
  moreover have "e' = reductions v ?e" using e0(1) run by simp
  moreover have "core_of e' = core_of ?e" "kern_of e' = kern_of ?e"
    by (simp_all add: fun_eq_iff core_of_def kern_of_def ao(1))
  ultimately show thesis using that ao(1,2) inv pend by blast
qed

lemma linv_result:
  assumes input: "lr_input e s" and run: "make_machine v h e = Some (Inr e')"
  shows "lalr_states e s e'"
proof (rule machine_result [OF assms])
  fix e1
  assume e1: "lr_states e' = lr_states e1" "linv e s e1" "pending_states e1 = {}" "core_of e' = core_of e1" "kern_of e' = kern_of e1"
  have "lr_gram e" using input by (simp add: lr_input_def)
  from linv_lalr_states [OF this e1(2,3)] show ?thesis by (simp add: lalr_states_def e1(1,4,5))
qed

text \<open>C3.
  The construction of the LALR(1) machine always comes to an end: it returns the tables, or the
  program stops in an error exit with the status \<open>EXIT_OTHER\<close>.  It reads no null pointer, writes
  behind no array, and does not loop.
\<close>

theorem make_machine_ends:
  assumes "lr_input e s"
  shows "make_machine v h e = Some (Inl (Exit EXIT_OTHER)) \<or> (\<exists>e'. make_machine v h e = Some (Inr e'))"
  using assms make_machine_effect [of e s v h] by (auto simp: lr_input_def fatal_def)

text \<open>C2.
  The states are those of the LALR(1) machine of the grammar (\<open>lalr\<close>): no two of them have the
  same items, every set of items that is reached from the start item is a state, and closing the
  kernel of a state gives exactly the items, with exactly the lookaheads, that the machine has
  there.  The stored epsilon items of a state are the complete items that closing adds.
\<close>

theorem make_machine_is_lalr:
  assumes "lr_input e s" and "make_machine v h e = Some (Inr e')"
  shows "lalr_states e s e'"
  using assms by (rule linv_result)

text \<open>C1.
  The action of every state for every token is one that the LALR(1) machine allows: no action
  exactly if the state has neither a transition on the token nor a complete item with this
  lookahead, a positive number only if it is the state that the machine moves to on the token,
  and any other number only if it stands for a complete item with this lookahead.
\<close>

theorem action_table_correct:
  assumes input: "lr_input e s" and run: "make_machine v h e = Some (Inr e')" and n: "n < length (lr_states e')"
  shows "case entry e' n t of
      None \<Rightarrow> (\<forall>x\<in>set (syms e). ISTERM e x \<and> val (symb e x) = t \<longrightarrow> go_core e (core_of e' n) x = {}) \<and>
        (\<forall>p. \<not> lalr e s (core_of e' n) p (length (rhs p)) (Some t))
    | Some a \<Rightarrow>
        if 0 < a then \<exists>x\<in>set (syms e). ISTERM e x \<and> val (symb e x) = t \<and> leads_to e e' n x (Some a)
        else \<exists>p. a = - int (num p) \<and> lalr e s (core_of e' n) p (length (rhs p)) (Some t)"
proof (rule machine_result [OF input run])
  fix e1
  assume e1: "e' = reductions v e1" "lr_states e' = lr_states e1" "linv e s e1" "pending_states e1 = {}"
    "core_of e' = core_of e1"
  have gram: "lr_gram e" using input by (simp add: lr_input_def)
  have n1: "n < length (lr_states e1)" using n e1(2) by simp
  let ?its = "filter (reduces_on t) (state_items (lr_states e1 ! n))"
  note shift = shift_entry [OF gram e1(3,4) n1, of t]
  have lead: "leads_to e e' n x = leads_to e e1 n x" for x
    by (rule ext) (simp only: leads_to_def e1(2,5))
  have "case entry e1 n t of None \<Rightarrow> True | Some a \<Rightarrow> 0 < a" using shift by (auto split: option.splits)
  then have ent: "entry e' n t = chosen e1 t (entry e1 n t) ?its"
    unfolding e1(1) using linv_plain [OF e1(3,4)] n1 by (intro reductions_resolve)
  have red: "lalr e s (core_of e1 n) p (length (rhs p)) (Some t) \<longleftrightarrow> (\<exists>it\<in>set ?its. prod it = p)" for p
    using reduces_iff [OF gram e1(3,4) n1, of t p] by auto
  show ?thesis
  proof (rule chosen_cases [OF ent [symmetric]])
    assume "entry e1 n t = None" "?its = []" "entry e' n t = None"
    then show ?thesis using shift red by (auto simp: e1(5))
  next
    fix a assume "entry e1 n t = Some a" "entry e' n t = Some a"
    then show ?thesis using shift by (simp add: lead)
  next
    fix it assume "it \<in> set ?its" "entry e' n t = Some (- int (prod_num it))"
    then show ?thesis using red [of "prod it"] by (auto simp: prod_num_def e1(5))
  qed
qed

text \<open>C4.
  The gotos: for every state and every symbol that is no terminal, the chain of gotos holds the
  state that the machine moves to on the symbol, and holds none exactly if the machine does not
  move.
\<close>

theorem goto_table_correct:
  assumes input: "lr_input e s" and run: "make_machine v h e = Some (Inr e')" and n: "n < length (lr_states e')"
    and x: "x \<in> set (syms e)" "\<not> ISTERM e x"
  shows "leads_to e e' n x (map_option do_this (p_goto e' n (val (symb e x))))"
proof (rule machine_result [OF input run])
  fix e1
  assume e1: "lr_states e' = lr_states e1" "gotos e' = gotos e1" "linv e s e1" "pending_states e1 = {}"
    "core_of e' = core_of e1"
  have gram: "lr_gram e" using input by (simp add: lr_input_def)
  have same: "same_gram e e1" using e1(3) by (simp add: linv_def machine_def)
  have n1: "n < length (lr_states e1)" using n e1(1) by simp
  have "trans_on e1 n x = map_option do_this (p_goto e' n (val (symb e x)))"
    using x(2) same_gram_basics(1) [OF same] same by (simp add: trans_on_def p_goto_def e1(2) same_gram_def)
  with linv_leads_to [OF gram e1(3,4) n1 x(1)] show ?thesis by (simp only: leads_to_def e1(1,5))
qed

text \<open>C5.
  The types of the machine that is returned.  There are at most \<open>MAXSTATE\<close> states and every kernel
  has at least one and at most \<open>MAXKERNEL\<close> items; every item points into a production of the
  grammar, its pointer to the symbol behind the dot is the one that its position says, and its
  lookaheads are numbers of tokens of the grammar.
\<close>

theorem machine_items_typed:
  assumes input: "lr_input e s" and run: "make_machine v h e = Some (Inr e')" and n: "n < length (lr_states e')"
  shows "length (lr_states e') \<le> MAXSTATE \<and>
    kernel_items (lr_states e' ! n) \<noteq> [] \<and> length (kernel_items (lr_states e' ! n)) \<le> MAXKERNEL \<and>
    (\<forall>it\<in>set (state_items (lr_states e' ! n)).
       prod it \<in> prods e \<and> dot_posn it \<le> length (rhs (prod it)) \<and>
       right_of_dot it = rhs_at (prod it) (dot_posn it) \<and> members (lookaheads it) \<subseteq> {..g_currterm e})"
proof (rule machine_result [OF input run])
  fix e1
  assume e1: "lr_states e' = lr_states e1" "linv e s e1" "pending_states e1 = {}"
  have n1: "n < length (lr_states e1)" using n e1(1) by simp
  have mc: "machine e s e1" using e1(2) by (simp add: linv_def)
  have "length (lr_states e1) \<le> MAXSTATE" using mc by (simp add: machine_def)
  moreover have "kernel_items (lr_states e1 ! n) \<noteq> [] \<and> length (kernel_items (lr_states e1 ! n)) \<le> MAXKERNEL"
    using machine_frame(5) [OF mc n1] by (simp add: kern_ok_def)
  moreover have "\<forall>it\<in>set (state_items (lr_states e1 ! n)). item_ok e it" using linv_items [OF e1(2,3) n1] by blast
  ultimately show ?thesis by (simp add: e1(1) item_ok_def)
qed

end
