(* ===== verification/LalrDemo.thy ===== *)
theory LalrDemo
  imports Lalr
begin

text \<open>
  A small grammar whose machine is worked out here, on which the properties of \<open>Lalr\<close> are used.
\<close>

section \<open>Steps of the loop on small states\<close>

lemma closure_quiet:
  assumes "\<forall>it\<in>set kern. \<forall>x. right_of_dot it = Some x \<longrightarrow> \<not> ISNONTERM e x"
  shows "closure kern maxi e = Some (Inr ([], e))"
proof -
  have "close_all (map Inl its) (c, e) = Inr (c, e)" if "\<forall>it\<in>set its. \<forall>x. right_of_dot it = Some x \<longrightarrow> \<not> ISNONTERM e x" for its c
    using that by (induction its) (auto simp: do_close_def the_item_def split: option.split)
  with assms show ?thesis by (simp add: closure_def closure_loop.simps)
qed

lemma lr_state_complete:
  assumes "kernel_items (lr_states e ! n) = [k]" and "right_of_dot k = None"
  shows "lr_state n e = Some (Inr (set_closed n e))"
  using assms by (simp add: lr_state_def Let_def closure_quiet lr_moves.simps(1) set_closed_def)

lemma sort_one: "sys_ssort cmp [x] (Suc 0) = [x]"
proof -
  have "mset (sys_ssort cmp [x] (Suc 0)) = mset [x]" unfolding sys_ssort_def using gap_loop_perm [of "Suc 0" "[x]"] by simp
  then show ?thesis by simp
qed

lemma newitem_frame:
  obtains it m rs where "newitem p e = (it, e\<lparr>nitems := m, recycled_items := rs\<rparr>)" "prod it = p" "recycled_ok e \<longrightarrow> (\<forall>s\<in>set rs. set_plain s)"
proof (cases "recycled_items e")
  case Nil
  show thesis by (rule that [where m = "nitems e + 1" and rs = "[]"], (simp add: newitem_def Nil)+)
next
  case (Cons s rest)
  show thesis by (rule that [where m = "nitems e + 1" and rs = rest], (simp add: newitem_def Cons recycled_ok_def)+)
qed

lemma lr_state_shift:
  assumes k: "kernel_items (lr_states e ! n) = [k]" "right_of_dot k = Some x" "\<not> ISNONTERM e x" "rhs (prod k) \<noteq> []"
    and rec: "recycled_ok e"
  obtains c e1 where "items_only e e1" "prod c = prod k" "dot_posn c = dot_posn k" "right_of_dot c = Some x"
    "lookaheads c = set_dup (lookaheads k)"
    "lr_state n e = bind_run (lr_move n x [movedot c] e1) (\<lambda>e4. Some (Inr (set_closed n e4)))"
proof -
  obtain it m rs where new: "newitem (prod k) e = (it, e\<lparr>nitems := m, recycled_items := rs\<rparr>)" "prod it = prod k"
    "recycled_ok e \<longrightarrow> (\<forall>s\<in>set rs. set_plain s)"
    using newitem_frame .
  let ?c = "it\<lparr>dot_posn := dot_posn k, right_of_dot := right_of_dot k, lookaheads := set_dup (lookaheads k)\<rparr>"
  let ?e = "e\<lparr>nitems := m, recycled_items := rs\<rparr>"
  have "items_only e ?e" using new(3) rec by (intro items_onlyI) (auto simp: recycled_ok_def)
  moreover have "lr_state n e = bind_run (lr_move n x [movedot ?c] ?e) (\<lambda>e4. Some (Inr (set_closed n e4)))"
    using k new(2)
    by (simp add: lr_state_def Let_def closure_quiet new(1) MAXCLOSE_def sort_one move_eps_def lr_moves.simps set_closed_def
        bind_run_def split: sum.split option.split)
  ultimately show thesis using k(2) new(2) that [of ?e ?c] by simp
qed

lemma lr_move_new:
  assumes "newstate [it] e = Some (Inr (NEW, m, e'))" and "\<not> closed (lr_states e' ! n)"
  shows "lr_move n x [it] e = Some (add_unfinished m (put_trans n x m e'))"
  using assms by (simp add: lr_move_put)

section \<open>The grammar\<close>

text \<open>\<open>s : b\<close> with the terminal \<open>b\<close>, and the FIRST set of \<open>s\<close>.\<close>

definition tiny_prod :: PRODUCTION_S where
  "tiny_prod = \<lparr>num = 0, rhs = [7], lhs = 5, non_acts = 1, select = set_new, prec = 0\<rparr>"

definition tiny_symb :: "nat \<Rightarrow> SYMBOL_S" where
  "tiny_symb a =
     \<lparr>sname = (if a = 5 then ''s'' else ''b''), field = [], val = (if a = 5 then 256 else 1), used = 0, defined = 0,
       sym_lineno = 0, action = None, productions = (if a = 5 then [tiny_prod] else []),
       first = (if a = 5 then Some (SET_ADD set_new 1) else None), follow = None\<rparr>"

definition tiny_symtab :: "string HASH_TAB_S" where
  "tiny_symtab = \<lparr>max_size = 1, curr_num = 2, table = [Some 5],
     heap = [5 \<mapsto> \<lparr>bnext = Some 7, bprev = Slot 0, user = ''s''\<rparr>,
             7 \<mapsto> \<lparr>bnext = None, bprev = NextOf 5, user = ''b''\<rparr>]\<rparr>"

definition tiny_gram :: lr_env where
  "tiny_gram = \<lparr>llama = False, symtab = tiny_symtab, symb = tiny_symb, g_terms = (\<lambda>_. None),
     g_precedence = (\<lambda>_. \<lparr>level = 0, assoc = 0\<rparr>), g_synch = set_new, g_goal_symbol = Some 5, g_currterm = 1,
     g_currnonterm = 256, g_curract = 511, g_num_productions = 1, states_hashtab = hash_make_tab 2 (\<lambda>_. None),
     lr_states = [], nitems = 0, ntab_entries = 0, nshift_reduce = 0, nreduce_reduce = 0, actions = (\<lambda>_. []),
     gotos = (\<lambda>_. []), unfinished = Leaf, available = 0, next_alloc_tnode = 0, recycled_items = [], warnings = 0\<rparr>"

lemma tiny_walk: "walk_slots (symtab tiny_gram) (table (symtab tiny_gram)) = Some [5, 7]"
  by (simp add: tiny_gram_def tiny_symtab_def walk.simps buck_def)

lemma tiny_syms: "syms tiny_gram = [5, 7]"
  by (simp add: syms_def tiny_walk)

lemma tiny_fields:
  "symb tiny_gram = tiny_symb" "g_goal_symbol tiny_gram = Some 5" "g_currterm tiny_gram = 1" "g_currnonterm tiny_gram = 256"
  by (simp_all add: tiny_gram_def)

lemma tiny_kinds:
  "ISNONTERM tiny_gram 5" "\<not> ISTERM tiny_gram 5" "\<not> ISACT tiny_gram 5"
  "ISTERM tiny_gram 7" "\<not> ISNONTERM tiny_gram 7" "\<not> ISACT tiny_gram 7"
  by (simp_all add: ISNONTERM_def ISTERM_def ISACT_def kind_codes tiny_fields tiny_symb_def)

lemma tiny_prods: "prods tiny_gram = {tiny_prod}"
  by (simp add: prods_def tiny_syms tiny_fields tiny_symb_def)

lemma tiny_ok: "gram_ok tiny_gram"
  by (auto simp: gram_ok_def tiny_walk tiny_syms kind_ok_def prod_ok_def sets_ok_def tiny_kinds tiny_prod_def
      tiny_fields kind_codes tiny_symb_def legal_bit_def)

lemma tiny_input: "lr_input tiny_gram tiny_prod"
proof -
  have legal: "legal_bit (Suc 0)" by (simp add: legal_bit_def)
  have "lr_gram tiny_gram"
    by (simp add: lr_gram_def tiny_ok tiny_prods tiny_syms)
      (simp add: tiny_fields tiny_symb_def tiny_prod_def MAXPROD_def MAXRHS_def)
  moreover have "first_range tiny_gram"
    by (simp add: first_range_def firsts_def tiny_fields tiny_symb_def EPS_def legal)
  moreover have "fresh_lr tiny_gram" by (simp add: fresh_lr_def tiny_gram_def recycled_ok_def MAXUNFINISHED_def)
  moreover have "start_prod tiny_gram = Some tiny_prod" by (simp add: start_prod_def tiny_fields tiny_symb_def)
  moreover have "\<not> closes tiny_gram tiny_prod d q" for d q
    by (simp add: closes_def rhs_at_def tiny_prod_def tiny_kinds)
  then have "start_ok tiny_gram tiny_prod" by (simp add: start_ok_def tiny_prods)
  ultimately show ?thesis by (simp add: lr_input_def)
qed

text \<open>The state 0 moves to the new state 1 on \<open>b\<close>, and state 1 has nothing to do.\<close>

lemma only_pending:
  assumes inv: "linv g s e" and p: "pending_states e = {n}"
  obtains e1 where "get_unfinished e = Some (n, e1)" "lr_states e1 = lr_states e" "pending_states e1 = {}" "tree_inv e1"
proof -
  have tree: "tree_inv e" using inv by (simp add: linv_def machine_def)
  obtain m e1 where get: "get_unfinished e = Some (m, e1)" using p wl.get_none [of e] by (cases "get_unfinished e") auto
  have w: "m \<in> pending_states e" "pending_states e1 = pending_states e - {m}" "tree_inv e1"
    using wl.get_some [OF tree get] by simp_all
  then have "m = n" "pending_states e1 = {}" using p by auto
  moreover obtain t a where "e1 = e\<lparr>unfinished := t, available := a\<rparr>" using get_unfinished_frame [OF get] .
  ultimately show thesis using get w(3) that by simp
qed

lemma add_to_none:
  assumes "tree_inv e" and "pending_states e = {}"
  obtains e' where "add_unfinished n e = Inr e'" "pending_states e' = {n}" "lr_states e' = lr_states e"
proof -
  obtain e' where e': "add_unfinished n e = Inr e'"
    using wl.add_fails [OF assms(1), of n] assms(2) by (cases "add_unfinished n e") (auto simp: MAXUNFINISHED_def)
  obtain a u k where "e' = e\<lparr>available := a, unfinished := u, next_alloc_tnode := k\<rparr>" using add_unfinished_frame [OF e'] .
  with e' wl.add_ok [OF assms(1) e'] assms(2) show thesis using that by simp
qed

lemma tiny_first:
  assumes inv: "linv tiny_gram tiny_prod e" and p: "pending_states e = {0}"
    and st: "lr_states e = [\<lparr>kernel_items = [k], epsilon_items = [], closed = False\<rparr>]"
    and k: "item_ok tiny_gram k" "prod k = tiny_prod" "dot_posn k = 0"
  obtains e1 e2 where "get_unfinished e = Some (0, e1)" "lr_state 0 e1 = Some (Inr e2)" "pending_states e2 = {1}"
    "length (lr_states e2) = 2" "\<exists>c. kernel_items (lr_states e2 ! 1) = [c] \<and> right_of_dot c = None"
proof -
  obtain e1 where e1: "get_unfinished e = Some (0, e1)" "lr_states e1 = lr_states e" "pending_states e1 = {}" "tree_inv e1"
    using only_pending [OF inv p] .
  have mc: "machine tiny_gram tiny_prod e1" using next_state(1) [OF inv e1(1)] .
  note fr = machine_frame [OF mc]
  have rod: "right_of_dot k = Some 7" using k by (simp add: item_ok_def rhs_at_def tiny_prod_def)
  have "kernel_items (lr_states e1 ! 0) = [k]" by (simp add: e1(2) st)
  moreover have "\<not> ISNONTERM e1 7" using same_gram_basics(2) [OF fr(1)] by (simp add: tiny_kinds)
  moreover have "rhs (prod k) \<noteq> []" by (simp add: k(2) tiny_prod_def)
  ultimately obtain c f where c: "items_only e1 f" "prod c = tiny_prod" "dot_posn c = 0" "right_of_dot c = Some 7"
    "lookaheads c = set_dup (lookaheads k)"
    "lr_state 0 e1 = bind_run (lr_move 0 7 [movedot c] f) (\<lambda>e4. Some (Inr (set_closed 0 e4)))"
    using rod fr(3) lr_state_shift [of e1 0 k 7] k(2,3) by metis
  let ?c = "movedot c"
  obtain q rs where f: "f = e1\<lparr>nitems := q, recycled_items := rs\<rparr>" using c(1) by (auto simp: items_only_def)
  have mcf: "machine tiny_gram tiny_prod f" using machine_items_only [OF mc c(1)] .
  note frf = machine_frame [OF mcf]
  have gram: "lr_gram f" using tiny_input same_gram_ok(1) [OF frf(1)] by (simp add: lr_input_def)
  have "item_ok tiny_gram c" using k(1) c(2-5) by (simp add: item_ok_def rhs_at_def tiny_prod_def set_plain_def k(2,3))
  then have "item_ok tiny_gram ?c" using c(4) by (rule movedot_ok(1))
  then have item: "\<forall>i\<in>set [?c]. item_ok f i" using same_gram_items(1) [OF frf(1)] by simp
  have states: "lr_states f = [\<lparr>kernel_items = [k], epsilon_items = [], closed = False\<rparr>]" by (simp add: f e1(2) st)
  have kok: "kernels_ok f" using k(1) same_gram_items(1) [OF frf(1)] by (simp add: kernels_ok_def states)
  from gram item frf(4) kok obtain f' h where f': "newstate [?c] f = Some (Inr (NEW, 1, f'))"
    "f' = f\<lparr>lr_states := lr_states f @ [\<lparr>kernel_items = [?c], epsilon_items = [], closed = False\<rparr>], states_hashtab := h\<rparr>"
  proof (cases rule: newstate_effect)
    case full
    then show ?thesis
      by (simp add: newstate_def fatal_def MAXKERNEL_def MAXSTATE_def states Let_def split: option.splits)
  next
    case (old n)
    then show ?thesis by (simp add: states same_items_def k(3) movedot_def)
  next
    case (new f' h)
    then show ?thesis using that by (simp add: states)
  qed
  let ?g = "put_trans 0 7 1 f'"
  have tree: "tree_inv ?g" "pending_states ?g = {}"
    using e1(3,4) by (simp_all add: put_trans_def add_action_def add_goto_def f'(2) f tree_inv_def pending_states_def)
  obtain e4 where e4: "add_unfinished 1 ?g = Inr e4" "pending_states e4 = {1}" "lr_states e4 = lr_states ?g"
    using add_to_none [OF tree] .
  have s4: "lr_states e4 = [\<lparr>kernel_items = [k], epsilon_items = [], closed = False\<rparr>, \<lparr>kernel_items = [?c], epsilon_items = [], closed = False\<rparr>]"
    by (simp add: e4(3) f'(2) states)
  have "lr_move 0 7 [?c] f = Some (Inr e4)"
    using lr_move_new [OF f'(1), of 0 7] e4(1) by (simp add: f'(2) states)
  then have run: "lr_state 0 e1 = Some (Inr (set_closed 0 e4))" by (simp add: c(6))
  have "right_of_dot ?c = None" using c(2,3) by (simp add: movedot_def rhs_at_def tiny_prod_def)
  then show thesis using that [OF e1(1) run] e4(2) with_eps_nth(4) [of 0 e4 1] by (simp add: s4)
qed

lemma tiny_run: "\<exists>e'. make_machine v h tiny_gram = Some (Inr e') \<and> length (lr_states e') = 2"
proof -
  have input: "lr_gram tiny_gram" "first_range tiny_gram" "fresh_lr tiny_gram" "start_prod tiny_gram = Some tiny_prod"
    "start_ok tiny_gram tiny_prod" using tiny_input by (simp_all add: lr_input_def)
  obtain e k where e: "make_machine v h tiny_gram = bind_run (lr_loop e) (\<lambda>e'. Some (Inr (reductions v e')))"
    "linv tiny_gram tiny_prod e" "lr_states e = [\<lparr>kernel_items = [k], epsilon_items = [], closed = False\<rparr>]"
    "item_ok tiny_gram k" "prod k = tiny_prod" "dot_posn k = 0" "pending_states e = {0}"
    using make_machine_start [OF input(1,3,4,5)] .
  obtain e1 e2 where e2: "get_unfinished e = Some (0, e1)" "lr_state 0 e1 = Some (Inr e2)" "pending_states e2 = {1}"
    "length (lr_states e2) = 2" "\<exists>c. kernel_items (lr_states e2 ! 1) = [c] \<and> right_of_dot c = None"
    using tiny_first [OF e(2,7,3-6)] .
  note ns = next_state [OF e(2) e2(1)]
  have "work_result tiny_gram tiny_prod e1 (lr_state 0 e1)" using lr_state_effect [OF input(1,2,5) ns(1-5)] .
  then have inv2: "linv tiny_gram tiny_prod e2" by (auto simp: work_result_def e2(2) fatal_def linv_def)
  obtain e3 where e3: "get_unfinished e2 = Some (1, e3)" "lr_states e3 = lr_states e2" "pending_states e3 = {}"
    using only_pending [OF inv2 e2(3)] by metis
  obtain c where c: "kernel_items (lr_states e3 ! 1) = [c]" "right_of_dot c = None" using e2(5) by (auto simp: e3(2))
  have "get_unfinished (set_closed 1 e3) = None" using e3(3) by (simp add: wl.get_none)
  then have "lr_loop e = Some (Inr (free_recycled_items (set_closed 1 e3)))"
    by (simp add: lr_loop.simps [of e] lr_loop.simps [of e2] lr_loop.simps [of "set_closed 1 e3"] e2(1,2) e3(1)
        lr_state_complete [OF c] del: One_nat_def)
  then have "make_machine v h tiny_gram = Some (Inr (reductions v (free_recycled_items (set_closed 1 e3))))"
    by (simp add: e(1))
  moreover have "length (lr_states (reductions v (free_recycled_items (set_closed 1 e3)))) = 2"
    using acts_only_reductions [of "free_recycled_items (set_closed 1 e3)" v] e2(4) e3(2) by (simp add: acts_only_def)
  ultimately show ?thesis by blast
qed

section \<open>The properties on the small grammar\<close>

theorem make_machine_ends_witness:
  "\<exists>e'. make_machine 0 (\<lambda>_. None) tiny_gram = Some (Inr e')"
proof -
  have "make_machine 0 (\<lambda>_. None) tiny_gram \<noteq> Some (Inl (Exit EXIT_OTHER))"
    using tiny_run [of 0 "\<lambda>_. None"] by auto
  with make_machine_ends [OF tiny_input, of 0 "\<lambda>_. None"] show ?thesis by blast
qed

theorem make_machine_is_lalr_witness:
  "\<exists>e'. make_machine 0 (\<lambda>_. None) tiny_gram = Some (Inr e') \<and> length (lr_states e') = 2 \<and>
     lalr_states tiny_gram tiny_prod e'"
  using tiny_run [of 0 "\<lambda>_. None"] make_machine_is_lalr [OF tiny_input] by blast

lemma tiny_accept: "lalr tiny_gram tiny_prod (go_core tiny_gram {(tiny_prod, 0)} 7) tiny_prod 1 (Some EOI)"
  using lalr.shift [OF lalr.start [of "Some EOI" tiny_gram tiny_prod], of 7]
  by (simp add: rhs_at_def tiny_prod_def)

theorem action_table_correct_witness:
  "\<exists>e' n. make_machine 0 (\<lambda>_. None) tiny_gram = Some (Inr e') \<and> n < length (lr_states e') \<and> entry e' n EOI \<noteq> None"
proof -
  obtain e' where e': "make_machine 0 (\<lambda>_. None) tiny_gram = Some (Inr e')" using tiny_run by blast
  have "core_of e' ` {..<length (lr_states e')} = {C. marks_of tiny_gram tiny_prod C \<noteq> {}}"
    using linv_result [OF tiny_input e'] by (simp add: lalr_states_def)
  moreover have "(tiny_prod, 1, Some EOI) \<in> marks_of tiny_gram tiny_prod (go_core tiny_gram {(tiny_prod, 0)} 7)"
    using tiny_accept by (simp only: marks_of_def mem_Collect_eq case_prod_conv)
  ultimately have "go_core tiny_gram {(tiny_prod, 0)} 7 \<in> core_of e' ` {..<length (lr_states e')}" by blast
  then obtain n where n: "n < length (lr_states e')" "core_of e' n = go_core tiny_gram {(tiny_prod, 0)} 7" by auto
  have len: "length (rhs tiny_prod) = 1" by (simp add: tiny_prod_def)
  have "entry e' n EOI \<noteq> None"
  proof
    assume "entry e' n EOI = None"
    with action_table_correct [OF tiny_input e' n(1), of EOI]
    have "\<not> lalr tiny_gram tiny_prod (core_of e' n) tiny_prod (length (rhs tiny_prod)) (Some EOI)" by simp
    then show False using tiny_accept by (simp only: len n(2) not_True_eq_False)
  qed
  with e' n(1) show ?thesis by blast
qed

theorem goto_table_correct_witness:
  "\<exists>e'. make_machine 0 (\<lambda>_. None) tiny_gram = Some (Inr e') \<and> leads_to tiny_gram e' 0 5 (map_option do_this (p_goto e' 0 256))"
proof -
  obtain e' where run: "make_machine 0 (\<lambda>_. None) tiny_gram = Some (Inr e')" "length (lr_states e') = 2"
    using tiny_run by blast
  then have e': "make_machine 0 (\<lambda>_. None) tiny_gram = Some (Inr e')" "0 < length (lr_states e')" by simp_all
  have "leads_to tiny_gram e' 0 5 (map_option do_this (p_goto e' 0 (val (symb tiny_gram 5))))"
    by (rule goto_table_correct [OF tiny_input e'(1,2)]) (simp_all add: tiny_syms tiny_kinds)
  with e'(1) show ?thesis by (auto simp: tiny_fields tiny_symb_def)
qed

theorem machine_items_typed_witness:
  "\<exists>e'. make_machine 0 (\<lambda>_. None) tiny_gram = Some (Inr e') \<and> kernel_items (lr_states e' ! 1) \<noteq> [] \<and>
     (\<forall>it\<in>set (kernel_items (lr_states e' ! 1)). prod it = tiny_prod)"
proof -
  obtain e' where run: "make_machine 0 (\<lambda>_. None) tiny_gram = Some (Inr e')" "length (lr_states e') = 2"
    using tiny_run by blast
  then have e': "make_machine 0 (\<lambda>_. None) tiny_gram = Some (Inr e')" "1 < length (lr_states e')" by simp_all
  from machine_items_typed [OF tiny_input e'] have "kernel_items (lr_states e' ! 1) \<noteq> []"
    "\<forall>it\<in>set (state_items (lr_states e' ! 1)). prod it \<in> prods tiny_gram" by blast+
  with e'(1) show ?thesis by (auto simp: tiny_prods state_items_def)
qed

end
