(* ===== verification/Spec2Isabelle.thy ===== *)
theory Spec2Isabelle
  imports MinDfa Tables Nfa Ll LrTables LalrDemo
begin

text \<open>
  The compiler tools of the repository: the lexer generator (\<open>src/compiler/lex\<close>), the parser
  generators llama and occs (\<open>src/compiler/parser\<close>) and the library both are built on
  (\<open>src/compiler/lib\<close>, \<open>src/include\<close>).

  \<^bold>\<open>The parts and how they work together.\<close>  The lexer generator reads rules, each a regular
  expression with an action; \<open>thompson\<close> (\<open>nfa.c\<close>) builds a nondeterministic automaton from
  them, \<open>dfa\<close> (\<open>dfa.c\<close>) makes a table of it with the set operations of \<open>terp.c\<close>, \<open>min_dfa\<close>
  (\<open>mindfa.c\<close>) merges equivalent rows, and the table is printed by the routines of
  \<open>syslib.c\<close>.  The parser generators keep the symbols of a grammar in a hash table
  (\<open>hash.c\<close>), compute FIRST, FOLLOW and SELECT sets (\<open>first.c\<close>, \<open>llfollow.c\<close>,
  \<open>llselect.c\<close>) as bit sets (\<open>set.c\<close>); llama turns the SELECT sets into the table of an
  LL(1) parser (\<open>llcode.c\<close>), and occs builds an LALR(1) machine (\<open>yystate.c\<close>).

  \<^bold>\<open>Theories and sources.\<close>
  \<^item> \<open>Prelude\<close>: the machine types, the values \<open>abort\<close> of a run that does not return
    (\<open>Exit\<close> with its code, \<open>Overflow\<close> for an access outside an array, \<open>Null_deref\<close>), the
    result types \<open>res\<close> (a value or an \<open>abort\<close>) and \<open>run\<close> (a \<open>res\<close>, or \<open>None\<close> for a loop that
    does not end), and lemmas on lists, numbers and words.
  \<^item> \<open>BitSet\<close>, \<open>SetIter\<close>: \<open>set.c\<close> and \<open>set.h\<close>.  A set is its array of 32-bit words with the
    sizes and the complement flag of the struct; \<open>members\<close> is the abstract set, and the
    locale \<open>bit_set\<close> is the interface that the analyses use.  The \<open>int\<close> that
    \<open>set_next_member\<close> counts with and returns is a 32-bit word, read as a signed number.
  \<^item> \<open>CString\<close>, \<open>Escapes\<close>, \<open>ShellSort\<close>, \<open>Tables\<close>: \<open>syslib.c\<close> (escapes, numbers, sorting,
    table printing) and \<open>com_concat\<close> of \<open>com.c\<close>.  The printed tables are arrays of the type
    \<open>YY_TTYPE\<close> of \<open>lex.m\<close> and \<open>llama.m\<close>, an \<open>unsigned char\<close>: \<open>ttype\<close> is the conversion.
  \<^item> \<open>HashTab\<close>: \<open>hash.c\<close> on an explicit heap of buckets with their forward pointers and
    pointers to the previous link.
  \<^item> \<open>NfaData\<close>, \<open>Lexer\<close>, \<open>NfaParser\<close>, \<open>NfaTotal\<close>, \<open>NfaInv\<close>, \<open>Nfa\<close>: \<open>nfa.h\<close> and \<open>nfa.c\<close>: the
    array of states, the macros and tokens, the recursive descent parser, its termination,
    the invariant of the array, and the properties.
  \<^item> \<open>Terp\<close>, \<open>Dfa\<close>, \<open>MinDfa\<close>: \<open>terp.c\<close>, \<open>dfa.c\<close>, \<open>mindfa.c\<close>.
  \<^item> \<open>Grammar\<close>, \<open>First\<close>, \<open>Follow\<close>, \<open>Derive\<close>, \<open>Select\<close>, \<open>Ll\<close>: the records of \<open>parser.h\<close>, the
    analyses, the strings that a grammar derives, the table of the LL(1) parser.
  \<^item> \<open>LrState\<close>, \<open>LrClose\<close>, \<open>Lr\<close>: \<open>yystate.c\<close>: items, states and the table that finds a state
    by its kernel, the tree of unfinished states; closure and the merging of lookaheads;
    the loop over the states, reductions with their conflicts, the printed tables.
  \<^item> \<open>LrTree\<close>, \<open>LrTable\<close>, \<open>LrReduce\<close>, \<open>LrTables\<close>: parts of \<open>yystate.c\<close> by themselves: the tree of
    unfinished states is a bounded set of numbers (locale \<open>work_list\<close>), the table finds the
    state of a kernel, the resolution of conflicts, the rows that the printed tables share.
  \<^item> \<open>LrSpec\<close>: what an LALR(1) machine is, without the algorithm: the inductive relations
    \<open>clos\<close> (items and lookaheads that follow from a kernel) and \<open>lalr\<close> (the items, with
    their lookaheads, of the state that has a given core).
  \<^item> \<open>LrClosure\<close>, \<open>LrItems\<close>: \<open>closure\<close> ends and computes what \<open>clos\<close> adds to the kernel; its items
    are sorted and split into groups with the same symbol behind the dot.
  \<^item> \<open>LrMachine\<close>, \<open>LrMove\<close>, \<open>LrLoop\<close>, \<open>LrRun\<close>: the invariant of the loop of \<open>lr\<close> (\<open>machine\<close> for the
    states together, \<open>st_ok\<close> for each), one transition, all transitions
    of a state, the whole loop.
  \<^item> \<open>Lalr\<close>, \<open>LalrDemo\<close>: the properties of the LALR(1) machine, and a grammar they are used on.
  \<^item> \<open>Spec2Isabelle\<close> (this theory): the property of the lexer generator as a whole.

  \<^bold>\<open>How the state is modelled.\<close>  Static and global variables are fields of a record
  (\<open>lex_env\<close>, \<open>dfa_env\<close>, \<open>parser_env\<close>, \<open>lr_env\<close>) that every operation takes and returns.
  Pointers into an array are indices, null is \<open>None\<close>.  The symbol table that the parser
  generators walk is the list \<open>syms\<close> of its symbols in the order of \<open>hash_print_tab\<close>; a symbol
  is its address, its record is \<open>symb e x\<close>.  An \<open>unsigned\<close> that is a bit pattern or may wrap is
  a 32-bit word, an array index is a natural number, an \<open>int\<close> is an integer; where a
  difference of unsigned values becomes an \<open>int\<close> the conversion is written out.

  \<^bold>\<open>What the lemmas show.\<close>
  \<^item> Sets: the words represent the set, every operation refines the operation on sets, with
    the exceptions that the code has (a wrapped size, a comparison that is not
    antisymmetric, an overrun of the enumeration, members that an \<open>int\<close> cannot hold, and
    \<open>SET_DIFFERENCE\<close>, which is the exclusive or).
  \<^item> Library: escapes and their inverse, numbers, sorting with a consistent comparison, the
    compressed table and its lookup within \<open>YY_TTYPE\<close>; the hash table keeps its links and finds the newest
    symbol of a name.
  \<^item> Lexer generator: for rules of seven-bit text without the negative control escapes
    (\<open>safe_rules\<close>) the parser ends and builds a well-formed automaton; an empty alternative
    makes it follow a null pointer; closure and moves are reachability; the table simulates the automaton, before and after
    minimisation.
  \<^item> LL(1): FIRST and FOLLOW are the least solutions of the equations that the code states,
    they cover the tokens that derivations show, and a table without conflict predicts the
    production of every derivation.
  \<^item> LALR(1): for a grammar within the limits of the symbol table whose start production is
    used nowhere else (\<open>lr_input\<close>: \<open>lr_gram\<close>, \<open>first_range\<close>, \<open>fresh_lr\<close>, \<open>start_prod\<close>, \<open>start_ok\<close>),
    the construction ends with a machine or with the error exit \<open>EXIT_OTHER\<close>; the states and
    their items are those of \<open>lalr\<close>, the action and goto chains hold exactly its
    shifts, gotos and reductions, with the conflicts resolved by precedence and order.  The loop
    ends by a lexicographic order: the room for states and lookaheads that is left
    (\<open>machine_pot\<close>), then the number of states on the tree.

  \<^bold>\<open>Loops.\<close>  Loops that follow a list or a counter are recursive functions with a measure.
  Loops to a fixpoint are \<open>partial_function (option)\<close>: not ending is \<open>None\<close>, and the
  properties state that a result comes back.  The recursive descent parser of the rules takes a
  bound on the depth of its calls, the first argument of \<open>thompson\<close> and \<open>parse\<close>; running out of
  it is \<open>None\<close>, and \<open>thompson_ends\<close> says which bound is enough: more than eight times the
  \<open>weight\<close> of the input (its length and what its macros can expand to) and seven.

  \<^bold>\<open>Bounds.\<close>  An \<open>int\<close> that counts elements of an array is a natural number; the gap of the shell
  sort overflows for arrays from 1743392200 elements on, which the model does not cover.  Arrays
  of fixed size keep their limit, and exceeding it is \<open>Overflow\<close> or the error exit of the code.

  \<^bold>\<open>Not modelled.\<close>  Messages, progress output and the checks under \<open>DEBUG\<close>; memory that runs
  out; the release of memory; \<open>sys_mean\<close> (floating point); the interactive debugger
  \<open>yydebug.c\<close> (a curses display); the generated sources \<open>llout.c\<close> and \<open>lexyy.c\<close>, which are
  output of the tools; the input buffer and the parser stack of generated programs; the parser of
  the grammar specifications and its actions (the grammar is an argument of the analyses); the
  unit tests; the garbage collector \<open>src/gc\<close>, a third-party library.
\<close>

section \<open>From the rules of a lexer to its table\<close>

text \<open>C10.
  The components of the lexer generator together: for rules and macros with printable text
  (\<open>safe_rules\<close>), the automaton built by \<open>thompson\<close> from them is handed to \<open>min_dfa\<close>.  If more
  than \<open>DFA_MAX\<close> sets of its states can be reached the run ends in the error exit, and
  otherwise a table comes back: it is rectangular with entries in range, and walking it over
  any string of characters fails exactly when the automaton of \<open>thompson\<close> has no state left,
  and otherwise ends in a row whose accepting string is the one of the winning state of the
  automaton.
\<close>

theorem lexer_table_simulates_nfa:
  assumes "safe_rules macs ls" and "thompson n (init_env macs unix ls) = Some (Inr (nfa, start, env))"
  shows "if DFA_MAX < card (reach_sets nfa start) then min_dfa nfa start a0 k0 it = Some (Inl Ferr)
    else \<exists>t accs. min_dfa nfa start a0 k0 it = Some (Inr (t, accs)) \<and>
      length accs \<le> card (reach_sets nfa start) \<and> wf_table (length accs) t \<and>
      (\<forall>w. char_string w \<longrightarrow>
        (dfa_run t 0 w = DFA_F \<longleftrightarrow> nfa_states nfa start w = {}) \<and>
        (dfa_run t 0 w \<noteq> DFA_F \<longrightarrow>
          acc_string (accs ! nat (dfa_run t 0 w)) = win_accept nfa (nfa_states nfa start w)))"
  using thompson_wf_nfa [OF assms] by (intro min_dfa_result) simp_all

theorem lexer_table_simulates_nfa_witness:
  "if DFA_MAX < card (reach_sets two_rules_nfa 0) then min_dfa two_rules_nfa 0 None 5 iter_init = Some (Inl Ferr)
   else \<exists>t accs. min_dfa two_rules_nfa 0 None 5 iter_init = Some (Inr (t, accs)) \<and> wf_table (length accs) t"
proof -
  obtain env where "thompson 30 (init_env (\<lambda>_. None) False [(1, ''a?(b?(c?(d))) x''), (2, ''d y'')]) =
      Some (Inr (two_rules_nfa, 0, env))"
    using two_rules_run by (auto simp: outcome_def bind_run_Inr_iff two_rules_def)
  from lexer_table_simulates_nfa [OF safe_two_rules this, of None 5 iter_init] show ?thesis
    by (simp split: if_splits) blast
qed

end
